(* ===== verification/Prelude.thy ===== *)
theory Prelude
  imports Main "HOL-Library.Word" "HOL-Library.Product_Lexorder"
begin

unbundle bit_operations_syntax

text \<open>
  Shared vocabulary of the development: the machine types, the outcome type through which
  every failing \<^verbatim>\<open>assert\<close>, out-of-range access and use of a freed object of the C++ code is
  a value, the calculus of successful outcomes that carries the component proofs, and the
  generic facts on lists and allocators that the components share.
\<close>

section \<open>Machine types\<close>

type_synonym byte = "8 word"
type_synonym uint64 = "64 word"

text \<open>Addresses of heap objects. The null pointer is \<open>None\<close> of \<open>addr option\<close>.\<close>

type_synonym addr = nat

section \<open>Outcomes\<close>

text \<open>
  The ways in which a run of the library can stop being defined. The library is built with
  \<^verbatim>\<open>assert\<close> active unless \<^verbatim>\<open>CMAKE_BUILD_TYPE\<close> is \<^verbatim>\<open>Release\<close>; a failing \<^verbatim>\<open>assert\<close> is
  \<open>AssertionFailed\<close>. \<open>ProcessExit\<close> is a call of \<^verbatim>\<open>exit\<close>. \<open>BadDescriptor\<close> is a \<^verbatim>\<open>close\<close> of a
  descriptor that the closing object does not have open (a second \<^verbatim>\<open>close\<close> of the same number
  would close what another part of the program has opened since).
\<close>

datatype error =
    AssertionFailed
  | OutOfRange
  | UseAfterFree
  | NullDereference
  | OutOfMemory
  | DivisionByZero
  | ProcessExit
  | BadDescriptor

type_synonym 'a outcome = "error + 'a"

definition rbind :: "'a outcome \<Rightarrow> ('a \<Rightarrow> 'b outcome) \<Rightarrow> 'b outcome" where
  "rbind m f = (case m of Inl e \<Rightarrow> Inl e | Inr x \<Rightarrow> f x)"

definition assert_that :: "bool \<Rightarrow> unit outcome" where
  "assert_that b = (if b then Inr () else Inl AssertionFailed)"

text \<open>\<open>succeeds r P\<close>: the run ends without a failure and its result satisfies \<open>P\<close>.\<close>

definition succeeds :: "'a outcome \<Rightarrow> ('a \<Rightarrow> bool) \<Rightarrow> bool" where
  "succeeds r P = (case r of Inl e \<Rightarrow> False | Inr x \<Rightarrow> P x)"

named_theorems outcome_simps \<open>unfolding the outcome operations on results that are known\<close>

lemma rbind_simps [simp, outcome_simps]:
  "rbind (Inl e) f = Inl e"
  "rbind (Inr x) f = f x"
  by (simp_all add: rbind_def)

lemma assert_that_simps [simp, outcome_simps]:
  "assert_that True = Inr ()"
  "assert_that False = Inl AssertionFailed"
  by (simp_all add: assert_that_def)

lemma succeeds_simps [simp, outcome_simps]:
  "succeeds (Inl e) P \<longleftrightarrow> False"
  "succeeds (Inr x) P \<longleftrightarrow> P x"
  by (simp_all add: succeeds_def)

lemma succeeds_rbind [simp]: "succeeds (rbind m f) P \<longleftrightarrow> succeeds m (\<lambda>x. succeeds (f x) P)"
  by (cases m) simp_all

lemma succeeds_assert [simp]: "succeeds (assert_that b) P \<longleftrightarrow> b \<and> P ()"
  by (cases b) simp_all

lemma succeeds_if [simp]:
  "succeeds (if b then m else n) P \<longleftrightarrow> (b \<longrightarrow> succeeds m P) \<and> (\<not> b \<longrightarrow> succeeds n P)"
  by simp

lemma succeeds_mono: "succeeds m P \<Longrightarrow> (\<And>x. P x \<Longrightarrow> Q x) \<Longrightarrow> succeeds m Q"
  by (cases m) simp_all

lemma succeeds_conj: "succeeds m P \<Longrightarrow> succeeds m Q \<Longrightarrow> succeeds m (\<lambda>x. P x \<and> Q x)"
  by (cases m) simp_all

lemma succeeds_ex: "succeeds m P \<longleftrightarrow> (\<exists>x. m = Inr x \<and> P x)"
  by (cases m) auto

lemma succeedsE:
  assumes "succeeds m P"
  obtains x where "m = Inr x" and "P x"
  using assms by (auto simp: succeeds_ex)

lemma succeeds_InrD: "succeeds m P \<Longrightarrow> m = Inr x \<Longrightarrow> P x"
  by simp

lemma rbind_Inr_conv: "rbind m f = Inr y \<longleftrightarrow> (\<exists>x. m = Inr x \<and> f x = Inr y)"
  by (cases m) simp_all

lemma rbind_assoc: "rbind (rbind m f) g = rbind m (\<lambda>x. rbind (f x) g)"
  by (cases m) simp_all

text \<open>\<open>safely r P\<close>: as \<open>succeeds\<close>, but the run may also end because memory is exhausted.\<close>

definition safely :: "'a outcome \<Rightarrow> ('a \<Rightarrow> bool) \<Rightarrow> bool" where
  "safely r P = (case r of Inl e \<Rightarrow> e = OutOfMemory | Inr x \<Rightarrow> P x)"

lemma safely_simps [simp, outcome_simps]:
  "safely (Inl e) P \<longleftrightarrow> e = OutOfMemory"
  "safely (Inr x) P \<longleftrightarrow> P x"
  by (simp_all add: safely_def)

lemma safely_rbind [simp]: "safely (rbind m f) P \<longleftrightarrow> safely m (\<lambda>x. safely (f x) P)"
  by (cases m) simp_all

lemma safely_assert [simp]: "safely (assert_that b) P \<longleftrightarrow> b \<and> P ()"
  by (cases b) simp_all

lemma safely_mono: "safely m P \<Longrightarrow> (\<And>x. P x \<Longrightarrow> Q x) \<Longrightarrow> safely m Q"
  by (cases m) simp_all

lemma succeeds_safely: "succeeds m P \<Longrightarrow> safely m P"
  by (cases m) simp_all

section \<open>Vectors\<close>

text \<open>
  \<^verbatim>\<open>std::vector\<close> accessed by \<^verbatim>\<open>operator[]\<close>: an index outside the vector is undefined
  behaviour in C++ and \<open>OutOfRange\<close> here.
\<close>

definition vec_get :: "'a list \<Rightarrow> int \<Rightarrow> 'a outcome" where
  "vec_get xs i = (if 0 \<le> i \<and> nat i < length xs then Inr (xs ! nat i) else Inl OutOfRange)"

definition vec_set :: "'a list \<Rightarrow> int \<Rightarrow> 'a \<Rightarrow> 'a list outcome" where
  "vec_set xs i x =
     (if 0 \<le> i \<and> nat i < length xs then Inr (xs[nat i := x]) else Inl OutOfRange)"

lemma succeeds_vec_get [simp]:
  "succeeds (vec_get xs i) P \<longleftrightarrow> 0 \<le> i \<and> nat i < length xs \<and> P (xs ! nat i)"
  by (auto simp: vec_get_def)

lemma succeeds_vec_set [simp]:
  "succeeds (vec_set xs i x) P \<longleftrightarrow> 0 \<le> i \<and> nat i < length xs \<and> P (xs[nat i := x])"
  by (auto simp: vec_set_def)

text \<open>\<^verbatim>\<open>vector::resize\<close>: truncates or extends with default values.\<close>

definition vec_resize :: "'a \<Rightarrow> 'a list \<Rightarrow> nat \<Rightarrow> 'a list" where
  "vec_resize d xs n = take n xs @ replicate (n - length xs) d"

lemma length_vec_resize [simp]: "length (vec_resize d xs n) = n"
  by (simp add: vec_resize_def)

lemma nth_vec_resize: "i < n \<Longrightarrow> vec_resize d xs n ! i = (if i < length xs then xs ! i else d)"
  by (simp add: vec_resize_def nth_append)

lemma take_vec_resize: "k \<le> length xs \<Longrightarrow> k \<le> n \<Longrightarrow> take k (vec_resize d xs n) = take k xs"
  by (simp add: vec_resize_def)

lemma nth_update_None:
  "j < length xs \<Longrightarrow> (xs[i := None] ! j = Some y) \<longleftrightarrow> i \<noteq> j \<and> xs ! j = Some y"
  by (cases "i = j") simp_all

section \<open>Overwriting a range of a vector\<close>

text \<open>What \<^verbatim>\<open>memcpy(base + pos, src, len)\<close> leaves in the destination.\<close>

definition overwrite :: "nat \<Rightarrow> 'a list \<Rightarrow> 'a list \<Rightarrow> 'a list" where
  "overwrite pos ys xs = take pos xs @ ys @ drop (pos + length ys) xs"

lemma length_overwrite [simp]:
  "pos + length ys \<le> length xs \<Longrightarrow> length (overwrite pos ys xs) = length xs"
  by (simp add: overwrite_def)

lemma take_overwrite_before: "k \<le> pos \<Longrightarrow> pos \<le> length xs \<Longrightarrow> take k (overwrite pos ys xs) = take k xs"
  by (simp add: overwrite_def min_def)

lemma take_overwrite_end:
  "pos \<le> length xs \<Longrightarrow> take (pos + length ys) (overwrite pos ys xs) = take pos xs @ ys"
  by (simp add: overwrite_def)

section \<open>Allocation\<close>

text \<open>What \<^verbatim>\<open>operator new\<close> promises of a heap of objects: the memory it returns is not in use; and an
  allocator that keeps the promise.\<close>

definition alloc_fresh :: "((addr \<Rightarrow> 'a option) \<Rightarrow> addr) \<Rightarrow> bool" where
  "alloc_fresh alloc \<longleftrightarrow> (\<forall>h. finite (dom h) \<longrightarrow> h (alloc h) = None)"

definition next_address :: "(addr \<Rightarrow> 'a option) \<Rightarrow> addr" where
  "next_address h = (if dom h = {} then 0 else Suc (Max (dom h)))"

lemma next_address_fresh: "alloc_fresh (next_address :: (addr \<Rightarrow> 'a option) \<Rightarrow> addr)"
proof -
  have "h (Suc (Max (dom h))) = None" if "finite (dom h)" for h :: "addr \<Rightarrow> 'a option"
    using Max_ge [OF that, of "Suc (Max (dom h))"] by (meson domIff not_less_eq_eq order_refl)
  then show ?thesis by (simp add: alloc_fresh_def next_address_def)
qed

end
