(* ===== verification/Byte_Order.thy ===== *)
theory Byte_Order
  imports Prelude
begin

unbundle bit_operations_syntax

text \<open>
  Integers in memory: the byte order conversions that \<^verbatim>\<open>src/buffer.h\<close> and \<^verbatim>\<open>src/inet_address.cc\<close> use,
  with their round trips.
\<close>

section \<open>Host byte order\<close>

text \<open>
  \<^verbatim>\<open>memcpy\<close> between an integer and memory on the little-endian hosts the library is built for,
  and the byte swap behind \<^verbatim>\<open>htobe16/32/64\<close> and \<^verbatim>\<open>be16toh/32/64\<close> there.
\<close>

definition bytes_le :: "nat \<Rightarrow> 'a::len word \<Rightarrow> byte list" where
  "bytes_le n w = map (\<lambda>i. ucast (drop_bit (8 * i) w)) [0..<n]"

fun word_le :: "byte list \<Rightarrow> 'a::len word" where
  "word_le [] = 0"
| "word_le (b # bs) = ucast b OR push_bit 8 (word_le bs)"

definition htobe :: "nat \<Rightarrow> 'a::len word \<Rightarrow> 'a word" where
  "htobe n w = word_le (rev (bytes_le n w))"

definition betoh :: "nat \<Rightarrow> 'a::len word \<Rightarrow> 'a word" where
  "betoh n w = word_le (rev (bytes_le n w))"

section \<open>Byte order facts\<close>

lemma length_bytes_le [simp]: "length (bytes_le n w) = n"
  by (simp add: bytes_le_def)

lemma nth_bytes_le [simp]: "i < n \<Longrightarrow> bytes_le n w ! i = ucast (drop_bit (8 * i) w)"
  by (simp add: bytes_le_def)

lemma bit_word_le:
  "bit (word_le bs :: 'a::len word) k \<longleftrightarrow>
     k < LENGTH('a) \<and> k div 8 < length bs \<and> bit (bs ! (k div 8)) (k mod 8)"
proof (induction bs arbitrary: k)
  case Nil
  then show ?case by simp
next
  case (Cons b bs)
  show ?case
  proof (cases "k < 8")
    case True
    then show ?thesis
      by (auto simp: bit_or_iff bit_unsigned_iff bit_push_bit_iff dest: bit_imp_le_length)
  next
    case False
    then have k: "k div 8 = Suc ((k - 8) div 8)" "k mod 8 = (k - 8) mod 8"
      by (simp_all add: le_div_geq le_mod_geq)
    from False have "\<not> bit b k" by (auto dest: bit_imp_le_length)
    with False k Cons.IH [of "k - 8"] show ?thesis
      by (auto simp: bit_or_iff bit_unsigned_iff bit_push_bit_iff)
  qed
qed

lemma word_le_bytes_le:
  fixes w :: "'a::len word"
  assumes "LENGTH('a) = 8 * n"
  shows "word_le (bytes_le n w) = w"
proof (rule bit_eqI)
  fix k assume "possible_bit TYPE('a word) k"
  then have k: "k < LENGTH('a)" by simp
  with assms have "k div 8 < n" by simp
  with k show "bit (word_le (bytes_le n w) :: 'a word) k = bit w k"
    by (simp add: bit_word_le bit_unsigned_iff bit_drop_bit_eq)
qed

lemma bytes_le_word_le:
  assumes "LENGTH('a::len) = 8 * n" and "length bs = n"
  shows "bytes_le n (word_le bs :: 'a word) = bs"
proof (rule nth_equalityI)
  show "length (bytes_le n (word_le bs :: 'a word)) = length bs" using assms by simp
next
  fix i assume "i < length (bytes_le n (word_le bs :: 'a word))"
  then have i: "i < n" by simp
  show "bytes_le n (word_le bs :: 'a word) ! i = bs ! i"
  proof (rule bit_eqI)
    fix k assume "possible_bit TYPE(8 word) k"
    then have k: "k < 8" by simp
    from i k assms(1) have "8 * i + k < LENGTH('a)" by simp
    with i k assms(2) show "bit (bytes_le n (word_le bs :: 'a word) ! i) k = bit (bs ! i) k"
      by (simp add: bit_word_le bit_unsigned_iff bit_drop_bit_eq)
  qed
qed

lemma betoh_htobe:
  fixes w :: "'a::len word"
  assumes "LENGTH('a) = 8 * n"
  shows "betoh n (htobe n w) = w"
  by (simp add: betoh_def htobe_def bytes_le_word_le [OF assms] word_le_bytes_le [OF assms])

lemma bytes_le_htobe:
  fixes w :: "'a::len word"
  assumes "LENGTH('a) = 8 * n"
  shows "bytes_le n (htobe n w) = rev (bytes_le n w)"
  by (simp add: htobe_def bytes_le_word_le [OF assms])

text \<open>The bytes on the wire: most significant first.\<close>

definition be_bytes :: "nat \<Rightarrow> 'a::len word \<Rightarrow> byte list" where
  "be_bytes n w = rev (bytes_le n w)"

lemma length_be_bytes [simp]: "length (be_bytes n w) = n"
  by (simp add: be_bytes_def)

lemma word_rev_append_roundtrip:
  fixes w :: "'a::len word"
  assumes "LENGTH('a) = 8 * n"
  shows "betoh n (word_le (bytes_le n (htobe n w))) = w"
  by (simp add: word_le_bytes_le [OF assms] betoh_htobe [OF assms])

lemma bytes_le_1_rev: "rev (bytes_le (Suc 0) w) = bytes_le (Suc 0) w"
  by (simp add: bytes_le_def)

lemma betoh_be_bytes:
  fixes w :: "'a::len word"
  assumes "LENGTH('a) = 8 * n"
  shows "betoh n (word_le (be_bytes n w)) = w"
  using word_rev_append_roundtrip [OF assms, of w]
  by (simp add: be_bytes_def bytes_le_htobe [OF assms])

end
