(* ===== verification/Buffer.thy ===== *)
theory Buffer
  imports Byte_Order
begin

unbundle bit_operations_syntax

text \<open>
  The byte buffer of \<^verbatim>\<open>src/buffer.h\<close> and \<^verbatim>\<open>src/buffer.cc\<close>: a vector with a read and a write
  index. The theory holds the class, its contract
  as a first-in first-out queue of bytes (locale \<open>byte_queue\<close>, interpreted on the class) and
  the theorems on appending, retrieving, searching, integer encoding and reading from a
  descriptor. Pointers into the buffer are offsets from \<^verbatim>\<open>Begin()\<close>; \<^verbatim>\<open>size_t\<close> values are
  natural numbers (they are bounded by the size of the vector).
\<close>

section \<open>The class\<close>

record buffer =
  read_index :: nat
  write_index :: nat
  storage :: "byte list"

definition kInitialSize :: nat where
  "kInitialSize = 1024"

definition kCRLF :: "byte list" where
  "kCRLF = [13, 10]"

definition Buffer_ctor :: buffer where
  "Buffer_ctor = \<lparr>read_index = 0, write_index = 0, storage = replicate kInitialSize 0\<rparr>"

definition ReadableBytes :: "buffer \<Rightarrow> nat" where
  "ReadableBytes b = write_index b - read_index b"

definition Peek :: "buffer \<Rightarrow> nat" where
  "Peek b = read_index b"

definition BeginWrite :: "buffer \<Rightarrow> nat" where
  "BeginWrite b = write_index b"

definition WritableBytes :: "buffer \<Rightarrow> nat" where
  "WritableBytes b = length (storage b) - write_index b"

text \<open>\<^verbatim>\<open>std::search(first, last, pat, pat + n)\<close> on offsets: \<open>last\<close> when there is no match.\<close>

function std_search :: "byte list \<Rightarrow> nat \<Rightarrow> nat \<Rightarrow> byte list \<Rightarrow> nat" where
  "std_search xs first end_pos pat =
     (if end_pos < first + length pat then end_pos
      else if take (length pat) (drop first xs) = pat then first
      else std_search xs (Suc first) end_pos pat)"
  by pat_completeness auto
termination
proof (relation "measure (\<lambda>(xs, first, end_pos, pat). end_pos - first)", goal_cases)
  case (2 xs first end_pos pat)
  then have "pat \<noteq> []" by auto
  with 2 show ?case by (cases pat) auto
qed simp

declare std_search.simps [simp del]

definition FindCRLF_from :: "buffer \<Rightarrow> nat \<Rightarrow> nat option" where
  "FindCRLF_from b start =
     (if start \<ge> BeginWrite b then None
      else let crlf = std_search (storage b) start (BeginWrite b) kCRLF
           in if crlf = BeginWrite b then None else Some crlf)"

definition FindCRLF :: "buffer \<Rightarrow> nat option" where
  "FindCRLF b =
     (let crlf = std_search (storage b) (Peek b) (BeginWrite b) kCRLF
      in if crlf = BeginWrite b then None else Some crlf)"

definition peek_bytes :: "buffer \<Rightarrow> nat \<Rightarrow> byte list" where
  "peek_bytes b n = take n (drop (Peek b) (storage b))"

definition PeekInt64 :: "buffer \<Rightarrow> 64 word outcome" where
  "PeekInt64 b =
     rbind (assert_that (8 \<le> ReadableBytes b)) (\<lambda>_.
       Inr (betoh 8 (word_le (peek_bytes b 8))))"

definition PeekInt32 :: "buffer \<Rightarrow> 32 word outcome" where
  "PeekInt32 b =
     rbind (assert_that (4 \<le> ReadableBytes b)) (\<lambda>_.
       Inr (betoh 4 (word_le (peek_bytes b 4))))"

definition PeekInt16 :: "buffer \<Rightarrow> 16 word outcome" where
  "PeekInt16 b =
     rbind (assert_that (2 \<le> ReadableBytes b)) (\<lambda>_.
       Inr (betoh 2 (word_le (peek_bytes b 2))))"

definition PeekInt8 :: "buffer \<Rightarrow> 8 word outcome" where
  "PeekInt8 b =
     rbind (assert_that (1 \<le> ReadableBytes b)) (\<lambda>_. Inr (word_le (peek_bytes b 1)))"

definition RetrieveAll :: "buffer \<Rightarrow> buffer" where
  "RetrieveAll b = b\<lparr>read_index := 0, write_index := 0\<rparr>"

definition Retrieve :: "buffer \<Rightarrow> nat \<Rightarrow> buffer outcome" where
  "Retrieve b len =
     rbind (assert_that (len \<le> ReadableBytes b)) (\<lambda>_.
       if len < ReadableBytes b then Inr (b\<lparr>read_index := read_index b + len\<rparr>)
       else Inr (RetrieveAll b))"

definition RetrieveUntil :: "buffer \<Rightarrow> nat \<Rightarrow> buffer outcome" where
  "RetrieveUntil b end_ptr =
     rbind (assert_that (Peek b \<le> end_ptr)) (\<lambda>_.
     rbind (assert_that (end_ptr \<le> BeginWrite b)) (\<lambda>_.
       Retrieve b (end_ptr - Peek b)))"

definition RetrieveAsString :: "buffer \<Rightarrow> nat \<Rightarrow> (byte list \<times> buffer) outcome" where
  "RetrieveAsString b len =
     rbind (assert_that (len \<le> ReadableBytes b)) (\<lambda>_.
       let result = peek_bytes b len
       in rbind (Retrieve b len) (\<lambda>b'. Inr (result, b')))"

definition RetrieveAllAsString :: "buffer \<Rightarrow> (byte list \<times> buffer) outcome" where
  "RetrieveAllAsString b = RetrieveAsString b (ReadableBytes b)"

text \<open>
  \<^verbatim>\<open>std::copy_backward(first, last, d_last)\<close> on \<^verbatim>\<open>char\<close>: the GNU library the build uses copies
  trivially copyable ranges with \<^verbatim>\<open>memmove\<close>. \<open>copy_backward_loop\<close> is the element-wise reading
  of the C++ standard, which requires that \<open>d_last\<close> is not in \<open>(first, last]\<close>.
\<close>

definition copy_backward :: "nat \<Rightarrow> nat \<Rightarrow> nat \<Rightarrow> 'a list \<Rightarrow> 'a list" where
  "copy_backward first last_pos d_last xs =
     overwrite (d_last - (last_pos - first)) (take (last_pos - first) (drop first xs)) xs"

fun copy_backward_loop :: "nat \<Rightarrow> nat \<Rightarrow> nat \<Rightarrow> 'a list \<Rightarrow> 'a list" where
  "copy_backward_loop first last_pos d_last xs =
     (if last_pos \<le> first then xs
      else copy_backward_loop first (last_pos - 1) (d_last - 1)
             (xs[d_last - 1 := xs ! (last_pos - 1)]))"

declare copy_backward_loop.simps [simp del]

definition MakeSpace :: "buffer \<Rightarrow> nat \<Rightarrow> buffer outcome" where
  "MakeSpace b len =
     (if WritableBytes b + read_index b < len
      then rbind (assert_that (write_index b + len > length (storage b))) (\<lambda>_.
             Inr (b\<lparr>storage := vec_resize 0 (storage b) (write_index b + len)\<rparr>))
      else let readable = ReadableBytes b
           in Inr (b\<lparr>storage := copy_backward (read_index b) (write_index b) readable (storage b),
                     read_index := 0, write_index := readable\<rparr>))"

definition EnsureWritableBytes :: "buffer \<Rightarrow> nat \<Rightarrow> buffer outcome" where
  "EnsureWritableBytes b len =
     rbind (if len > WritableBytes b then MakeSpace b len else Inr b) (\<lambda>b1.
     rbind (assert_that (len \<le> WritableBytes b1)) (\<lambda>_. Inr b1))"

definition HasWritten :: "buffer \<Rightarrow> nat \<Rightarrow> buffer outcome" where
  "HasWritten b len =
     rbind (assert_that (len \<le> WritableBytes b)) (\<lambda>_.
       Inr (b\<lparr>write_index := write_index b + len\<rparr>))"

definition Append :: "buffer \<Rightarrow> byte list \<Rightarrow> buffer outcome" where
  "Append b dat =
     rbind (EnsureWritableBytes b (length dat)) (\<lambda>b1.
       HasWritten (b1\<lparr>storage := overwrite (BeginWrite b1) dat (storage b1)\<rparr>) (length dat))"

definition AppendInt64 :: "buffer \<Rightarrow> 64 word \<Rightarrow> buffer outcome" where
  "AppendInt64 b value = Append b (bytes_le 8 (htobe 8 value))"

definition AppendInt32 :: "buffer \<Rightarrow> 32 word \<Rightarrow> buffer outcome" where
  "AppendInt32 b value = Append b (bytes_le 4 (htobe 4 value))"

definition AppendInt16 :: "buffer \<Rightarrow> 16 word \<Rightarrow> buffer outcome" where
  "AppendInt16 b value = Append b (bytes_le 2 (htobe 2 value))"

definition AppendInt8 :: "buffer \<Rightarrow> 8 word \<Rightarrow> buffer outcome" where
  "AppendInt8 b value = Append b (bytes_le 1 value)"

definition RetrieveInt64 :: "buffer \<Rightarrow> buffer outcome" where
  "RetrieveInt64 b = Retrieve b 8"

definition RetrieveInt32 :: "buffer \<Rightarrow> buffer outcome" where
  "RetrieveInt32 b = Retrieve b 4"

definition RetrieveInt16 :: "buffer \<Rightarrow> buffer outcome" where
  "RetrieveInt16 b = Retrieve b 2"

definition RetrieveInt8 :: "buffer \<Rightarrow> buffer outcome" where
  "RetrieveInt8 b = Retrieve b 1"

definition ReadInt64 :: "buffer \<Rightarrow> (64 word \<times> buffer) outcome" where
  "ReadInt64 b =
     rbind (PeekInt64 b) (\<lambda>v. rbind (RetrieveInt64 b) (\<lambda>b'. Inr (v, b')))"

definition ReadInt32 :: "buffer \<Rightarrow> (32 word \<times> buffer) outcome" where
  "ReadInt32 b =
     rbind (PeekInt32 b) (\<lambda>v. rbind (RetrieveInt32 b) (\<lambda>b'. Inr (v, b')))"

definition ReadInt16 :: "buffer \<Rightarrow> (16 word \<times> buffer) outcome" where
  "ReadInt16 b =
     rbind (PeekInt16 b) (\<lambda>v. rbind (RetrieveInt16 b) (\<lambda>b'. Inr (v, b')))"

definition ReadInt8 :: "buffer \<Rightarrow> (8 word \<times> buffer) outcome" where
  "ReadInt8 b =
     rbind (PeekInt8 b) (\<lambda>v. rbind (RetrieveInt8 b) (\<lambda>b'. Inr (v, b')))"

text \<open>
  \<^verbatim>\<open>Buffer::ReadFd\<close>. The kernel's answer to \<^verbatim>\<open>readv\<close> is the argument \<open>answer\<close>: an error number,
  or the bytes it delivered, which it scatters over the writable part of the buffer and then
  over the thread's 32 KiB \<^verbatim>\<open>t_extra_buf\<close>. The result is the \<^verbatim>\<open>int\<close> that is returned, the value
  of \<^verbatim>\<open>*saved_errno\<close> if it was written, and the buffer.
\<close>

definition extra_buf_size :: nat where
  "extra_buf_size = 1024 * 32"

definition to_int32 :: "int \<Rightarrow> int" where
  "to_int32 i = sint (word_of_int i :: 32 word)"

definition ReadFd :: "buffer \<Rightarrow> (int, byte list) sum \<Rightarrow> (int \<times> int option \<times> buffer) outcome" where
  "ReadFd b answer =
     (let writable = WritableBytes b in
      case answer of
        Inl err \<Rightarrow> Inr (to_int32 (-1), Some err, b)
      | Inr dat \<Rightarrow>
          let b1 = b\<lparr>storage := overwrite (write_index b) (take writable dat) (storage b)\<rparr>;
              extra = drop writable dat;
              rlen = length dat
          in if rlen \<le> writable
             then Inr (to_int32 (int rlen), None, b1\<lparr>write_index := write_index b1 + rlen\<rparr>)
             else rbind (Append (b1\<lparr>write_index := length (storage b1)\<rparr>)
                                (take (rlen - writable) extra))
                        (\<lambda>b2. Inr (to_int32 (int rlen), None, b2)))"

section \<open>Invariant and abstraction\<close>

definition buffer_inv :: "buffer \<Rightarrow> bool" where
  "buffer_inv b \<longleftrightarrow> read_index b \<le> write_index b \<and> write_index b \<le> length (storage b)"

definition contents :: "buffer \<Rightarrow> byte list" where
  "contents b = take (ReadableBytes b) (drop (read_index b) (storage b))"

named_theorems buffer_defs \<open>the private parts of the buffer class\<close>

lemmas [buffer_defs] =
  buffer_inv_def contents_def ReadableBytes_def WritableBytes_def Peek_def BeginWrite_def
  RetrieveAll_def peek_bytes_def

lemma length_contents [simp]: "buffer_inv b \<Longrightarrow> length (contents b) = ReadableBytes b"
  by (auto simp: buffer_defs)

lemma contents_take_drop: "contents b = drop (read_index b) (take (write_index b) (storage b))"
  by (simp add: buffer_defs drop_take)

lemma ctor_inv: "buffer_inv Buffer_ctor" "contents Buffer_ctor = []"
  by (simp_all add: buffer_defs Buffer_ctor_def)

lemma peek_bytes_contents: "n \<le> ReadableBytes b \<Longrightarrow> peek_bytes b n = take n (contents b)"
  by (simp add: buffer_defs min_def)

lemma Retrieve_ok:
  assumes "buffer_inv b" "n \<le> ReadableBytes b"
  shows "succeeds (Retrieve b n) (\<lambda>b'. buffer_inv b' \<and> contents b' = drop n (contents b)
           \<and> storage b' = storage b)"
  using assms by (auto simp: Retrieve_def buffer_defs drop_take add.commute)

lemma MakeSpace_ok:
  assumes "buffer_inv b" and "WritableBytes b < n"
  shows "succeeds (MakeSpace b n) (\<lambda>b'. buffer_inv b' \<and> contents b' = contents b
           \<and> n \<le> WritableBytes b')"
proof (cases "WritableBytes b + read_index b < n")
  case True
  with assms show ?thesis
    by (auto simp: MakeSpace_def buffer_defs take_vec_resize contents_take_drop vec_resize_def drop_take)
next
  case False
  with assms show ?thesis
    by (auto simp: MakeSpace_def buffer_defs copy_backward_def overwrite_def Let_def)
qed

lemma EnsureWritableBytes_ok:
  assumes "buffer_inv b"
  shows "succeeds (EnsureWritableBytes b n) (\<lambda>b'. buffer_inv b' \<and> contents b' = contents b
           \<and> n \<le> WritableBytes b')"
  using MakeSpace_ok [OF assms, of n] assms
  by (auto simp: EnsureWritableBytes_def elim: succeeds_mono)

lemma write_ok:
  assumes "buffer_inv b" and "length xs \<le> WritableBytes b"
  shows "buffer_inv (b\<lparr>storage := overwrite (write_index b) xs (storage b),
                       write_index := write_index b + length xs\<rparr>)"
    and "contents (b\<lparr>storage := overwrite (write_index b) xs (storage b),
                     write_index := write_index b + length xs\<rparr>) = contents b @ xs"
  using assms by (auto simp: contents_take_drop take_overwrite_end buffer_inv_def WritableBytes_def)

lemma Append_ok:
  assumes "buffer_inv b"
  shows "succeeds (Append b xs) (\<lambda>b'. buffer_inv b' \<and> contents b' = contents b @ xs)"
  unfolding Append_def succeeds_rbind
proof (rule succeeds_mono [OF EnsureWritableBytes_ok [OF assms, of "length xs"]])
  fix b1 assume b1: "buffer_inv b1 \<and> contents b1 = contents b \<and> length xs \<le> WritableBytes b1"
  then have "length (overwrite (write_index b1) xs (storage b1)) = length (storage b1)"
    by (auto simp: buffer_inv_def WritableBytes_def)
  with b1 write_ok [of b1 xs]
  show "succeeds (HasWritten (b1\<lparr>storage := overwrite (BeginWrite b1) xs (storage b1)\<rparr>) (length xs))
          (\<lambda>b'. buffer_inv b' \<and> contents b' = contents b @ xs)"
    by (simp add: HasWritten_def BeginWrite_def WritableBytes_def)
qed


section \<open>A queue of bytes\<close>

datatype queue_op = Put "byte list" | Take nat

text \<open>The abstract queue, a byte list: \<open>Take\<close> of more bytes than there are is an error.\<close>

fun spec_run :: "queue_op list \<Rightarrow> byte list \<Rightarrow> (byte list \<times> byte list) outcome" where
  "spec_run [] q = Inr ([], q)"
| "spec_run (Put xs # ops) q = spec_run ops (q @ xs)"
| "spec_run (Take n # ops) q =
     (if n \<le> length q
      then rbind (spec_run ops (drop n q)) (\<lambda>(out, q'). Inr (take n q @ out, q'))
      else Inl AssertionFailed)"

fun puts :: "queue_op list \<Rightarrow> byte list" where
  "puts [] = []"
| "puts (Put xs # ops) = xs @ puts ops"
| "puts (Take n # ops) = puts ops"

lemma spec_run_fifo: "spec_run ops q = Inr (out, q') \<Longrightarrow> out @ q' = q @ puts ops"
  by (induction ops q arbitrary: out q' rule: spec_run.induct)
     (auto simp: rbind_Inr_conv split: if_splits)

fun queue_run :: "('b \<Rightarrow> byte list \<Rightarrow> 'b outcome) \<Rightarrow> ('b \<Rightarrow> nat \<Rightarrow> (byte list \<times> 'b) outcome) \<Rightarrow>
    queue_op list \<Rightarrow> 'b \<Rightarrow> (byte list \<times> 'b) outcome" where
  "queue_run put get [] b = Inr ([], b)"
| "queue_run put get (Put xs # ops) b = rbind (put b xs) (queue_run put get ops)"
| "queue_run put get (Take n # ops) b =
     rbind (get b n) (\<lambda>(xs, b1).
     rbind (queue_run put get ops b1) (\<lambda>(out, b2). Inr (xs @ out, b2)))"

locale byte_queue =
  fixes inv :: "'b \<Rightarrow> bool"
    and cont :: "'b \<Rightarrow> byte list"
    and put :: "'b \<Rightarrow> byte list \<Rightarrow> 'b outcome"
    and get :: "'b \<Rightarrow> nat \<Rightarrow> (byte list \<times> 'b) outcome"
  assumes put_ok: "inv b \<Longrightarrow> succeeds (put b xs) (\<lambda>b'. inv b' \<and> cont b' = cont b @ xs)"
    and get_ok: "inv b \<Longrightarrow> n \<le> length (cont b) \<Longrightarrow>
      succeeds (get b n) (\<lambda>(xs, b'). inv b' \<and> xs = take n (cont b) \<and> cont b' = drop n (cont b))"
    and get_err: "inv b \<Longrightarrow> length (cont b) < n \<Longrightarrow> get b n = Inl AssertionFailed"
begin

text \<open>Simulation: the implementation returns what the abstract queue returns, errors included.\<close>

lemma run_refines:
  "inv b \<Longrightarrow>
     spec_run ops (cont b) = map_sum id (map_prod id cont) (queue_run put get ops b) \<and>
     (\<forall>out b'. queue_run put get ops b = Inr (out, b') \<longrightarrow> inv b')"
proof (induction ops arbitrary: b)
  case Nil
  then show ?case by simp
next
  case (Cons op ops)
  show ?case
  proof (cases op)
    case (Put xs)
    from put_ok [OF Cons.prems, of xs] obtain b1 where
      b1: "put b xs = Inr b1" "inv b1" "cont b1 = cont b @ xs" by (elim succeedsE) auto
    with Put Cons.IH [OF b1(2)] show ?thesis by simp
  next
    case (Take n)
    show ?thesis
    proof (cases "n \<le> length (cont b)")
      case True
      from get_ok [OF Cons.prems True] obtain b1 where
        b1: "get b n = Inr (take n (cont b), b1)" "inv b1" "cont b1 = drop n (cont b)"
        by (elim succeedsE) auto
      with Take True Cons.IH [OF b1(2)] show ?thesis
        by (cases "queue_run put get ops b1") (auto simp: rbind_def)
    next
      case False
      with Take get_err [OF Cons.prems] show ?thesis by simp
    qed
  qed
qed

lemma run_fifo:
  assumes "inv b" and "queue_run put get ops b = Inr (out, b')"
  shows "inv b' \<and> out @ cont b' = cont b @ puts ops"
proof -
  from run_refines [OF assms(1), of ops] assms(2)
  have "inv b'" and "spec_run ops (cont b) = Inr (out, cont b')" by auto
  with spec_run_fifo show ?thesis by blast
qed

end

lemma RetrieveAsString_ok:
  assumes "buffer_inv b" and "n \<le> length (contents b)"
  shows "succeeds (RetrieveAsString b n) (\<lambda>(xs, b'). buffer_inv b' \<and> xs = take n (contents b) \<and>
           contents b' = drop n (contents b))"
  using assms Retrieve_ok [of b n]
  by (auto simp: RetrieveAsString_def peek_bytes_contents Let_def elim: succeeds_mono)

interpretation buf: byte_queue buffer_inv contents Append RetrieveAsString
proof unfold_locales
  show "RetrieveAsString b n = Inl AssertionFailed"
    if "buffer_inv b" "length (contents b) < n" for b n
    using that by (simp add: RetrieveAsString_def assert_that_def)
qed (use Append_ok RetrieveAsString_ok in auto)

section \<open>Integers\<close>

lemma peek_appended:
  assumes "buffer_inv b" and "contents b = xs @ ys"
  shows "length xs \<le> ReadableBytes b" and "peek_bytes b (length xs) = xs"
proof -
  from assms length_contents [OF assms(1)] show l: "length xs \<le> ReadableBytes b" by simp
  from l show "peek_bytes b (length xs) = xs" by (simp add: peek_bytes_contents assms(2))
qed

lemma Retrieve_appended:
  assumes "buffer_inv b" and "contents b = xs @ ys"
  shows "succeeds (Retrieve b (length xs)) (\<lambda>b'. buffer_inv b' \<and> contents b' = ys)"
  using Retrieve_ok [OF assms(1) peek_appended(1) [OF assms]] assms(2)
  by (auto elim: succeeds_mono)

lemmas read_int_defs =
  ReadInt64_def PeekInt64_def ReadInt32_def PeekInt32_def
  ReadInt16_def PeekInt16_def ReadInt8_def PeekInt8_def
  RetrieveInt64_def RetrieveInt32_def RetrieveInt16_def RetrieveInt8_def

lemmas append_int_defs = AppendInt64_def AppendInt32_def AppendInt16_def AppendInt8_def

lemma AppendInt_ok:
  assumes "buffer_inv b"
  shows "succeeds (AppendInt64 b v64) (\<lambda>b'. buffer_inv b' \<and> contents b' = contents b @ be_bytes 8 v64)"
    and "succeeds (AppendInt32 b v32) (\<lambda>b'. buffer_inv b' \<and> contents b' = contents b @ be_bytes 4 v32)"
    and "succeeds (AppendInt16 b v16) (\<lambda>b'. buffer_inv b' \<and> contents b' = contents b @ be_bytes 2 v16)"
    and "succeeds (AppendInt8 b v8) (\<lambda>b'. buffer_inv b' \<and> contents b' = contents b @ be_bytes 1 v8)"
  using Append_ok [OF assms]
  by (simp_all add: append_int_defs bytes_le_htobe be_bytes_def bytes_le_1_rev)

lemma be_bytes_front:
  assumes "buffer_inv b" and "contents b = be_bytes n w @ rest"
  shows "n \<le> ReadableBytes b" and "peek_bytes b n = be_bytes n w"
    and "succeeds (Retrieve b n) (\<lambda>b'. buffer_inv b' \<and> contents b' = rest)"
  using peek_appended [OF assms] Retrieve_appended [OF assms] by simp_all

lemma word_le_be_bytes_1: "word_le (be_bytes (Suc 0) w) = (w :: 8 word)"
  using word_le_bytes_le [where n = 1 and w = w] by (simp add: be_bytes_def bytes_le_1_rev)

lemma ReadInt_ok:
  assumes "buffer_inv b"
  shows "contents b = be_bytes 8 v64 @ rest \<Longrightarrow>
           succeeds (ReadInt64 b) (\<lambda>(v, b'). v = v64 \<and> buffer_inv b' \<and> contents b' = rest)"
    and "contents b = be_bytes 4 v32 @ rest \<Longrightarrow>
           succeeds (ReadInt32 b) (\<lambda>(v, b'). v = v32 \<and> buffer_inv b' \<and> contents b' = rest)"
    and "contents b = be_bytes 2 v16 @ rest \<Longrightarrow>
           succeeds (ReadInt16 b) (\<lambda>(v, b'). v = v16 \<and> buffer_inv b' \<and> contents b' = rest)"
    and "contents b = be_bytes 1 v8 @ rest \<Longrightarrow>
           succeeds (ReadInt8 b) (\<lambda>(v, b'). v = v8 \<and> buffer_inv b' \<and> contents b' = rest)"
  using be_bytes_front [OF assms, of 8 v64 rest] be_bytes_front [OF assms, of 4 v32 rest]
    be_bytes_front [OF assms, of 2 v16 rest] be_bytes_front [OF assms, of 1 v8 rest]
  by (simp_all add: read_int_defs betoh_be_bytes word_le_be_bytes_1)

section \<open>Searching\<close>

lemma std_search_spec:
  assumes "i = std_search xs first end_pos pat" and "first \<le> end_pos" and "pat \<noteq> []"
  shows "i = end_pos \<and> (\<forall>j. first \<le> j \<longrightarrow> j + length pat \<le> end_pos \<longrightarrow> take (length pat) (drop j xs) \<noteq> pat)
    \<or> first \<le> i \<and> i + length pat \<le> end_pos \<and> take (length pat) (drop i xs) = pat \<and>
      (\<forall>j. first \<le> j \<longrightarrow> j < i \<longrightarrow> take (length pat) (drop j xs) \<noteq> pat)"
  using assms
proof (induction xs first end_pos pat rule: std_search.induct)
  case (1 xs first end_pos pat)
  note unf = std_search.simps [of xs first end_pos pat]
  consider "end_pos < first + length pat"
    | "first + length pat \<le> end_pos" "take (length pat) (drop first xs) = pat"
    | "first + length pat \<le> end_pos" "take (length pat) (drop first xs) \<noteq> pat" by linarith
  then show ?case
  proof cases
    case 1
    with "1.prems" unf show ?thesis by auto
  next
    case 2
    with "1.prems" unf show ?thesis by auto
  next
    case 3
    from "1.prems"(3) 3(1) have "Suc first \<le> end_pos" by (cases pat) auto
    with 3 "1.prems" unf "1.IH" have
      "i = end_pos \<and> (\<forall>j. Suc first \<le> j \<longrightarrow> j + length pat \<le> end_pos \<longrightarrow> take (length pat) (drop j xs) \<noteq> pat)
       \<or> Suc first \<le> i \<and> i + length pat \<le> end_pos \<and> take (length pat) (drop i xs) = pat \<and>
         (\<forall>j. Suc first \<le> j \<longrightarrow> j < i \<longrightarrow> take (length pat) (drop j xs) \<noteq> pat)"
      by simp
    with 3(2) show ?thesis by (metis Suc_leD Suc_leI le_neq_implies_less)
  qed
qed

definition crlf_at :: "byte list \<Rightarrow> nat \<Rightarrow> bool" where
  "crlf_at xs i \<longleftrightarrow> Suc i < length xs \<and> xs ! i = 13 \<and> xs ! Suc i = 10"

lemma take2_drop: "Suc j < length xs \<Longrightarrow> take 2 (drop j xs) = [xs ! j, xs ! Suc j]"
  by (simp add: numeral_2_eq_2 take_Suc_conv_app_nth Cons_nth_drop_Suc [symmetric])


lemma crlf_at_contents:
  assumes "buffer_inv b"
  shows "crlf_at (contents b) j \<longleftrightarrow>
    Peek b + j + 2 \<le> BeginWrite b \<and> take 2 (drop (Peek b + j) (storage b)) = kCRLF"
  using assms length_contents [OF assms] take2_drop [of "Peek b + j" "storage b"]
  by (auto simp: crlf_at_def kCRLF_def buffer_defs add.commute)

lemma find_crlf_spec:
  assumes "buffer_inv b" and "Peek b \<le> start" and "start \<le> BeginWrite b"
    and i: "i = std_search (storage b) start (BeginWrite b) kCRLF"
  shows "i = BeginWrite b \<Longrightarrow> start - Peek b \<le> j \<Longrightarrow> \<not> crlf_at (contents b) j"
    and "i \<noteq> BeginWrite b \<Longrightarrow> start \<le> i \<and> crlf_at (contents b) (i - Peek b)"
    and "i \<noteq> BeginWrite b \<Longrightarrow> start - Peek b \<le> j \<Longrightarrow> j < i - Peek b \<Longrightarrow> \<not> crlf_at (contents b) j"
proof -
  have len: "length kCRLF = 2" by (simp add: kCRLF_def)
  have ne: "kCRLF \<noteq> []" by (simp add: kCRLF_def)
  note spec = std_search_spec [OF i assms(3) ne, unfolded len]
  note at = crlf_at_contents [OF assms(1)]
  show "\<not> crlf_at (contents b) j" if "i = BeginWrite b" "start - Peek b \<le> j"
  proof -
    have "start \<le> Peek b + j" using that(2) by linarith
    then show ?thesis using spec that(1) by (auto simp: at)
  qed
  show "start \<le> i \<and> crlf_at (contents b) (i - Peek b)" if "i \<noteq> BeginWrite b"
    using spec that assms(2) by (auto simp: at)
  show "\<not> crlf_at (contents b) j" if "i \<noteq> BeginWrite b" "start - Peek b \<le> j" "j < i - Peek b"
  proof -
    have "start \<le> Peek b + j" "Peek b + j < i" using that(2,3) by linarith+
    then show ?thesis using spec that(1) by (auto simp: at)
  qed
qed

section \<open>Reading from a descriptor\<close>

lemma to_int32_id: "- (2 ^ 31) \<le> i \<Longrightarrow> i < 2 ^ 31 \<Longrightarrow> to_int32 i = i"
  by (simp add: to_int32_def sint_sbintrunc' signed_take_bit_int_eq_self)

lemma ReadFd_data:
  assumes "buffer_inv b"
  shows "succeeds (ReadFd b (Inr dat)) (\<lambda>(r, e, b'). r = to_int32 (int (length dat)) \<and> e = None \<and>
           buffer_inv b' \<and> contents b' = contents b @ dat)"
proof (cases "length dat \<le> WritableBytes b")
  case True
  with write_ok [OF assms True] show ?thesis by (simp add: ReadFd_def Let_def)
next
  case False
  let ?w = "WritableBytes b"
  let ?b1 = "b\<lparr>storage := overwrite (write_index b) (take ?w dat) (storage b),
              write_index := write_index b + length (take ?w dat)\<rparr>"
  have len: "length (overwrite (write_index b) (take ?w dat) (storage b)) = length (storage b)"
    using assms by (intro length_overwrite) (auto simp: buffer_inv_def WritableBytes_def)
  have b1: "buffer_inv ?b1" "contents ?b1 = contents b @ take ?w dat"
    using write_ok [OF assms, of "take ?w dat"] by simp_all
  have "write_index b + length (take ?w dat) = length (storage b)"
    using False assms by (auto simp: buffer_inv_def WritableBytes_def)
  then have "ReadFd b (Inr dat) =
      rbind (Append ?b1 (drop ?w dat)) (\<lambda>b2. Inr (to_int32 (int (length dat)), None, b2))"
    using False len by (simp add: ReadFd_def Let_def)
  then show ?thesis using Append_ok [OF b1(1), of "drop ?w dat"] b1(2)
    by (auto elim: succeeds_mono)
qed

section \<open>The relocating copy\<close>

lemma copy_backward_loop_done: "last_pos \<le> first \<Longrightarrow> copy_backward_loop first last_pos d_last xs = xs"
  by (subst copy_backward_loop.simps) simp

lemma copy_backward_loop_nth:
  assumes "first \<le> last_pos" and "last_pos - first \<le> d_last" and "last_pos \<le> length xs"
    and "d_last \<le> length xs" and "d_last \<le> first \<or> last_pos \<le> d_last"
  shows "length (copy_backward_loop first last_pos d_last xs) = length xs \<and>
    (\<forall>k < length xs. copy_backward_loop first last_pos d_last xs ! k =
      (if d_last - (last_pos - first) \<le> k \<and> k < d_last
       then xs ! (first + (k - (d_last - (last_pos - first)))) else xs ! k))"
  using assms
proof (induction first last_pos d_last xs rule: copy_backward_loop.induct)
  case (1 first last_pos d_last xs)
  show ?case
  proof (cases "last_pos \<le> first")
    case True
    with 1(2-) show ?thesis by (auto simp: copy_backward_loop_done)
  next
    case False
    let ?ys = "xs[d_last - 1 := xs ! (last_pos - 1)]"
    define D where "D = d_last - (last_pos - first)"
    have D: "d_last - 1 - (last_pos - 1 - first) = D" "first + (d_last - 1 - D) = last_pos - 1" "D \<le> d_last - 1"
      "d_last - 1 < length xs" "0 < d_last"
      using False 1(2-) by (auto simp: D_def)
    have "length (copy_backward_loop first (last_pos - 1) (d_last - 1) ?ys) = length ?ys \<and>
      (\<forall>k < length ?ys. copy_backward_loop first (last_pos - 1) (d_last - 1) ?ys ! k =
        (if d_last - 1 - (last_pos - 1 - first) \<le> k \<and> k < d_last - 1
         then ?ys ! (first + (k - (d_last - 1 - (last_pos - 1 - first)))) else ?ys ! k))"
      using False 1(2-) by (intro "1.IH") auto
    then have ih: "length (copy_backward_loop first (last_pos - 1) (d_last - 1) ?ys) = length xs \<and>
      (\<forall>k < length xs. copy_backward_loop first (last_pos - 1) (d_last - 1) ?ys ! k =
        (if D \<le> k \<and> k < d_last - 1 then ?ys ! (first + (k - D)) else ?ys ! k))"
      unfolding D(1) length_list_update .
    have ne: "first + (k - D) \<noteq> d_last - 1" if "D \<le> k" "k < d_last - 1" for k
      using that False 1(2-) by (auto simp: D_def)
    have "(if D \<le> k \<and> k < d_last - 1 then ?ys ! (first + (k - D)) else ?ys ! k) =
        (if D \<le> k \<and> k < d_last then xs ! (first + (k - D)) else xs ! k)" if "k < length xs" for k
    proof (cases "k = d_last - 1")
      case True
      then show ?thesis using D by simp
    next
      case False
      then have "k < d_last - 1 \<longleftrightarrow> k < d_last" using D(5) by auto
      then show ?thesis using False ne [of k] by auto
    qed
    moreover have "copy_backward_loop first last_pos d_last xs =
        copy_backward_loop first (last_pos - 1) (d_last - 1) ?ys"
      using False by (simp add: copy_backward_loop.simps [of first last_pos d_last xs])
    ultimately show ?thesis using ih by (simp add: D_def [symmetric])
  qed
qed

lemma copy_backward_loop_eq:
  assumes "first \<le> last_pos" and "last_pos - first \<le> d_last" and "last_pos \<le> length xs"
    and "d_last \<le> length xs" and "d_last \<le> first \<or> last_pos \<le> d_last"
  shows "copy_backward_loop first last_pos d_last xs = copy_backward first last_pos d_last xs"
proof (rule nth_equalityI)
  have l: "length (copy_backward first last_pos d_last xs) = length xs"
    using assms by (simp add: copy_backward_def overwrite_def)
  show "length (copy_backward_loop first last_pos d_last xs) = length (copy_backward first last_pos d_last xs)"
    using copy_backward_loop_nth [OF assms] l by simp
  show "copy_backward_loop first last_pos d_last xs ! k = copy_backward first last_pos d_last xs ! k"
    if "k < length (copy_backward_loop first last_pos d_last xs)" for k
    using copy_backward_loop_nth [OF assms] that assms
    by (auto simp: copy_backward_def overwrite_def nth_append min_def)
qed


section \<open>Properties\<close>

text \<open>C1: for every sequence of \<^verbatim>\<open>Append\<close> and \<^verbatim>\<open>RetrieveAsString\<close> calls, the buffer returns exactly
  the bytes an abstract first-in first-out queue returns, ends with the same contents, and
  fails (by its assertion) exactly when more bytes are asked for than are readable; no
  internal assertion of the buffer ever fails on the way.\<close>

theorem buffer_refines_queue:
  assumes "buffer_inv b"
  shows "map_sum id (map_prod id contents) (queue_run Append RetrieveAsString ops b)
           = spec_run ops (contents b)"
  using buf.run_refines [OF assms] by simp

theorem buffer_refines_queue_witness:
  "map_sum id (map_prod id contents) (queue_run Append RetrieveAsString
      [Put [1, 2], Take 1, Put [3], Take 2] Buffer_ctor) = Inr ([1, 2, 3], [])"
  using buffer_refines_queue [OF ctor_inv(1), of "[Put [1, 2], Take 1, Put [3], Take 2]"]
  by (simp add: ctor_inv)

text \<open>\<^verbatim>\<open>Append\<close> never fails; it keeps the index invariant and adds the data behind what was
  readable, whether it writes in place, moves the readable bytes to the front or reallocates.
  The vector is reallocated only when the free space before and behind the readable bytes
  together is too small, and then to exactly the needed size.\<close>

theorem Append_contents:
  assumes "buffer_inv b"
  shows "succeeds (Append b dat) (\<lambda>b'. buffer_inv b' \<and> contents b' = contents b @ dat \<and>
           length (storage b') = (if WritableBytes b + read_index b < length dat
             then write_index b + length dat else length (storage b)))"
proof -
  have grow: "length (storage b') = (if WritableBytes b + read_index b < length dat
             then write_index b + length dat else length (storage b))"
    if "Append b dat = Inr b'" for b'
    using that assms
    by (auto simp: Append_def EnsureWritableBytes_def MakeSpace_def HasWritten_def buffer_defs
        assert_that_def copy_backward_def Let_def rbind_Inr_conv split: if_splits)
  from Append_ok [OF assms, of dat] obtain b' where "Append b dat = Inr b'"
    and "buffer_inv b'" "contents b' = contents b @ dat" by (elim succeedsE) auto
  with grow show ?thesis by simp
qed

theorem Append_contents_witness:
  "succeeds (Append Buffer_ctor [7, 8]) (\<lambda>b'. contents b' = [7, 8] \<and> length (storage b') = 1024)"
  using Append_contents [OF ctor_inv(1), of "[7, 8]"]
  unfolding ctor_inv
  by (rule succeeds_mono) (simp add: Buffer_ctor_def WritableBytes_def kInitialSize_def)

text \<open>C26: the integers survive the round trip. Four integers of the four widths written one after
  the other to an empty buffer lie there in network byte order (most significant byte first),
  and reading them back in the same order returns the same values and empties the buffer.\<close>

theorem int_roundtrip:
  assumes "buffer_inv b" and "contents b = []"
  shows "succeeds
     (rbind (AppendInt64 b v64) (\<lambda>b. rbind (AppendInt32 b v32) (\<lambda>b.
      rbind (AppendInt16 b v16) (\<lambda>b. rbind (AppendInt8 b v8) (\<lambda>b. Inr b)))))
     (\<lambda>b. contents b = be_bytes 8 v64 @ be_bytes 4 v32 @ be_bytes 2 v16 @ be_bytes 1 v8 \<and>
       succeeds
         (rbind (ReadInt64 b) (\<lambda>(x64, b). rbind (ReadInt32 b) (\<lambda>(x32, b).
          rbind (ReadInt16 b) (\<lambda>(x16, b). rbind (ReadInt8 b) (\<lambda>(x8, b).
            Inr (x64, x32, x16, x8, b))))))
         (\<lambda>(x64, x32, x16, x8, b). (x64, x32, x16, x8) = (v64, v32, v16, v8) \<and> contents b = []))"
proof -
  from AppendInt_ok(1) [OF assms(1), of v64] obtain b1 where
    b1: "AppendInt64 b v64 = Inr b1" "buffer_inv b1" "contents b1 = be_bytes 8 v64"
    by (elim succeedsE) (auto simp: assms(2))
  from AppendInt_ok(2) [OF b1(2), of v32] obtain b2 where
    b2: "AppendInt32 b1 v32 = Inr b2" "buffer_inv b2" "contents b2 = be_bytes 8 v64 @ be_bytes 4 v32"
    by (elim succeedsE) (auto simp: b1)
  from AppendInt_ok(3) [OF b2(2), of v16] obtain b3 where
    b3: "AppendInt16 b2 v16 = Inr b3" "buffer_inv b3"
      "contents b3 = be_bytes 8 v64 @ be_bytes 4 v32 @ be_bytes 2 v16"
    by (elim succeedsE) (auto simp: b2)
  from AppendInt_ok(4) [OF b3(2), of v8] obtain b4 where
    b4: "AppendInt8 b3 v8 = Inr b4" "buffer_inv b4"
      "contents b4 = be_bytes 8 v64 @ be_bytes 4 v32 @ be_bytes 2 v16 @ be_bytes 1 v8"
    by (elim succeedsE) (auto simp: b3)
  from ReadInt_ok(1) [OF b4(2) b4(3)] obtain c1 where
    c1: "ReadInt64 b4 = Inr (v64, c1)" "buffer_inv c1"
      "contents c1 = be_bytes 4 v32 @ be_bytes 2 v16 @ be_bytes 1 v8"
    by (elim succeedsE) auto
  from ReadInt_ok(2) [OF c1(2) c1(3)] obtain c2 where
    c2: "ReadInt32 c1 = Inr (v32, c2)" "buffer_inv c2" "contents c2 = be_bytes 2 v16 @ be_bytes 1 v8"
    by (elim succeedsE) auto
  from ReadInt_ok(3) [OF c2(2) c2(3)] obtain c3 where
    c3: "ReadInt16 c2 = Inr (v16, c3)" "buffer_inv c3" "contents c3 = be_bytes 1 v8 @ []"
    by (elim succeedsE) auto
  from ReadInt_ok(4) [OF c3(2) c3(3)] obtain c4 where
    c4: "ReadInt8 c3 = Inr (v8, c4)" "contents c4 = []"
    by (elim succeedsE) auto
  show ?thesis by (simp add: b1(1) b2(1) b3(1) b4(1,3) c1(1) c2(1) c3(1) c4)
qed

theorem int_roundtrip_witness:
  "succeeds
     (rbind (AppendInt64 Buffer_ctor 1) (\<lambda>b. rbind (AppendInt32 b 2) (\<lambda>b.
      rbind (AppendInt16 b 3) (\<lambda>b. rbind (AppendInt8 b 4) (\<lambda>b. Inr b)))))
     (\<lambda>b. contents b = be_bytes 8 (1 :: 64 word) @ be_bytes 4 (2 :: 32 word) @
            be_bytes 2 (3 :: 16 word) @ be_bytes 1 (4 :: 8 word))"
  by (rule succeeds_mono [OF int_roundtrip [OF ctor_inv, of 1 2 3 4]]) simp

text \<open>\<^verbatim>\<open>FindCRLF\<close> returns the position of the first carriage return that is followed by a line
  feed within the readable bytes, and null exactly when there is none; \<^verbatim>\<open>FindCRLF(start)\<close>
  does the same for the readable bytes from \<open>start\<close> on.\<close>

theorem FindCRLF_first:
  assumes "buffer_inv b" and "Peek b \<le> start"
  shows "(case FindCRLF_from b start of
            None \<Rightarrow> (\<forall>j \<ge> start - Peek b. \<not> crlf_at (contents b) j)
          | Some i \<Rightarrow> start \<le> i \<and> crlf_at (contents b) (i - Peek b) \<and>
                      (\<forall>j. start - Peek b \<le> j \<and> j < i - Peek b \<longrightarrow> \<not> crlf_at (contents b) j)) \<and>
         (case FindCRLF b of
            None \<Rightarrow> (\<forall>j. \<not> crlf_at (contents b) j)
          | Some i \<Rightarrow> Peek b \<le> i \<and> crlf_at (contents b) (i - Peek b) \<and>
                      (\<forall>j < i - Peek b. \<not> crlf_at (contents b) j))"
proof -
  have le: "Peek b \<le> BeginWrite b" using assms(1) by (simp add: buffer_defs)
  have past: "\<not> crlf_at (contents b) j" if "BeginWrite b - Peek b \<le> j" for j
    using that length_contents [OF assms(1)] by (simp add: crlf_at_def buffer_defs)
  show ?thesis
    using find_crlf_spec [OF assms(1,2) _ refl] find_crlf_spec [OF assms(1) order_refl le refl] past
    by (auto simp: FindCRLF_from_def FindCRLF_def Let_def)
qed


definition sample_buffer :: buffer where
  "sample_buffer = \<lparr>read_index = 1, write_index = 5, storage = [0, 65, 13, 10, 66, 0]\<rparr>"

lemma sample_buffer_inv: "buffer_inv sample_buffer"
  by (simp add: sample_buffer_def buffer_inv_def)

theorem FindCRLF_first_witness:
  "FindCRLF sample_buffer = Some 2 \<and> crlf_at (contents sample_buffer) 1 \<and>
   \<not> crlf_at (contents sample_buffer) 0"
proof -
  have f: "FindCRLF sample_buffer = Some 2" "Peek sample_buffer = 1"
    by (simp_all add: FindCRLF_def sample_buffer_def buffer_defs kCRLF_def std_search.simps)
  then show ?thesis
    using FindCRLF_first [OF sample_buffer_inv, of 1] by simp
qed

text \<open>\<^verbatim>\<open>ReadFd\<close> loses and reorders nothing: whatever \<^verbatim>\<open>readv\<close> delivers, all in the writable space
  or spilling into the extra buffer, is appended to the readable bytes, and the number of
  bytes is returned; on an error the buffer is unchanged, -1 is returned and the error number
  is saved.\<close>

theorem ReadFd_appends:
  assumes "buffer_inv b" and "length dat \<le> WritableBytes b + extra_buf_size"
    and "WritableBytes b + extra_buf_size < 2 ^ 31"
  shows "succeeds (ReadFd b (Inr dat)) (\<lambda>(r, e, b'). r = int (length dat) \<and> e = None \<and>
           buffer_inv b' \<and> contents b' = contents b @ dat) \<and>
         ReadFd b (Inl err) = Inr (-1, Some err, b)"
proof
  have "to_int32 (int (length dat)) = int (length dat)"
    using assms(2,3) by (intro to_int32_id) simp_all
  with ReadFd_data [OF assms(1), of dat]
  show "succeeds (ReadFd b (Inr dat)) (\<lambda>(r, e, b'). r = int (length dat) \<and> e = None \<and>
           buffer_inv b' \<and> contents b' = contents b @ dat)"
    by (auto elim: succeeds_mono)
  show "ReadFd b (Inl err) = Inr (-1, Some err, b)"
    by (simp add: ReadFd_def to_int32_def)
qed

theorem ReadFd_appends_witness:
  "succeeds (ReadFd sample_buffer (Inr [1, 2, 3])) (\<lambda>(r, e, b').
     r = 3 \<and> contents b' = [65, 13, 10, 66, 1, 2, 3])"
proof -
  have "WritableBytes sample_buffer = 1" "contents sample_buffer = [65, 13, 10, 66]"
    by (simp_all add: sample_buffer_def buffer_defs)
  then show ?thesis
    using ReadFd_appends [OF sample_buffer_inv, of "[1, 2, 3]" 0]
    by (auto simp: extra_buf_size_def elim: succeeds_mono)
qed

text \<open>\<^verbatim>\<open>MakeSpace\<close> moves the readable bytes towards the front with \<^verbatim>\<open>std::copy_backward\<close>, whose
  requirement is that the end of the destination lies outside the source range. Where the
  readable bytes are not longer than the consumed prefix the requirement holds and the
  standard's element-wise copy gives the same vector as the \<^verbatim>\<open>memmove\<close> of the GNU library; where
  they are longer the requirement is violated, and there are buffers on which the element-wise
  copy destroys the readable bytes.\<close>

theorem MakeSpace_copy_requirement:
  "(\<forall>b. buffer_inv b \<longrightarrow>
      (if ReadableBytes b \<le> read_index b
       then copy_backward_loop (read_index b) (write_index b) (ReadableBytes b) (storage b)
              = copy_backward (read_index b) (write_index b) (ReadableBytes b) (storage b)
       else ReadableBytes b \<in> {read_index b <.. write_index b})) \<and>
   (\<exists>b. buffer_inv b \<and> WritableBytes b < 1 \<and> 1 \<le> WritableBytes b + read_index b \<and>
      take (ReadableBytes b)
        (copy_backward_loop (read_index b) (write_index b) (ReadableBytes b) (storage b))
        \<noteq> contents b)"
proof (intro conjI allI impI)
  fix b assume "buffer_inv b"
  then show "if ReadableBytes b \<le> read_index b
       then copy_backward_loop (read_index b) (write_index b) (ReadableBytes b) (storage b)
              = copy_backward (read_index b) (write_index b) (ReadableBytes b) (storage b)
       else ReadableBytes b \<in> {read_index b <.. write_index b}"
    using copy_backward_loop_eq [of "read_index b" "write_index b" "ReadableBytes b" "storage b"]
    by (auto simp: buffer_inv_def ReadableBytes_def)
next
  let ?b = "\<lparr>read_index = 1, write_index = 4, storage = [1, 2, 3, 4]\<rparr>"
  have "copy_backward_loop 1 4 3 [1, 2, 3, 4 :: byte] = [4, 4, 4, 4]"
    by (simp add: copy_backward_loop.simps numeral_eq_Suc)
  then have "buffer_inv ?b \<and> WritableBytes ?b < 1 \<and> 1 \<le> WritableBytes ?b + read_index ?b \<and>
      take (ReadableBytes ?b)
        (copy_backward_loop (read_index ?b) (write_index ?b) (ReadableBytes ?b) (storage ?b))
        \<noteq> contents ?b"
    by (simp add: buffer_defs numeral_eq_Suc)
  then show "\<exists>b. buffer_inv b \<and> WritableBytes b < 1 \<and> 1 \<le> WritableBytes b + read_index b \<and>
      take (ReadableBytes b)
        (copy_backward_loop (read_index b) (write_index b) (ReadableBytes b) (storage b))
        \<noteq> contents b" by blast
qed

theorem MakeSpace_copy_requirement_witness:
  "buffer_inv Buffer_ctor \<and>
   copy_backward_loop 0 0 0 (storage Buffer_ctor) = copy_backward 0 0 0 (storage Buffer_ctor)"
  using MakeSpace_copy_requirement ctor_inv(1)
  by (auto dest!: spec [where x = Buffer_ctor] simp: Buffer_ctor_def ReadableBytes_def)

end
