(* ===== verification/Channel.thy ===== *)
theory Channel
  imports Prelude
begin

unbundle bit_operations_syntax

text \<open>
  The data of \<^verbatim>\<open>src/channel.h\<close> and \<^verbatim>\<open>src/channel.cc\<close>: one file descriptor with the events its
  owner is interested in, the events the poller reported, and its registration status. The
  methods that change the registration are in theory \<open>Epoller\<close>, because they work through
  the event loop on the poller that holds the channel.
\<close>

section \<open>Event bits\<close>

type_synonym events = "32 word"

definition EPOLLIN :: events where "EPOLLIN = 1"
definition EPOLLPRI :: events where "EPOLLPRI = 2"
definition EPOLLOUT :: events where "EPOLLOUT = 4"
definition EPOLLERR :: events where "EPOLLERR = 8"
definition EPOLLHUP :: events where "EPOLLHUP = 16"
definition EPOLLRDHUP :: events where "EPOLLRDHUP = 8192"

lemmas epoll_bits =
  EPOLLIN_def EPOLLPRI_def EPOLLOUT_def EPOLLERR_def EPOLLHUP_def EPOLLRDHUP_def

definition kNoneEvent :: events where "kNoneEvent = 0"
definition kReadEvent :: events where "kReadEvent = EPOLLIN OR EPOLLPRI"
definition kWriteEvent :: events where "kWriteEvent = EPOLLOUT"

lemmas event_masks = kNoneEvent_def kReadEvent_def kWriteEvent_def epoll_bits

text \<open>The test \<^verbatim>\<open>if(mask & events)\<close>.\<close>

definition has_event :: "events \<Rightarrow> events \<Rightarrow> bool" where
  "has_event ev bits \<longleftrightarrow> ev AND bits \<noteq> 0"

section \<open>The channel object\<close>

definition kNew :: int where "kNew = 1"
definition kAdded :: int where "kAdded = 2"
definition kDel :: int where "kDel = 3"

lemmas status_defs = kNew_def kAdded_def kDel_def

record channel =
  ch_loop :: "addr option"
  ch_name :: string
  ch_fd :: int
  ch_events :: events
  ch_revents :: events
  ch_status :: int
  ch_handling :: bool
  ch_tied :: bool
  ch_tie :: "addr option"
  ch_has_read :: bool
  ch_has_write :: bool
  ch_has_close :: bool
  ch_has_error :: bool

definition Channel_ctor :: "addr option \<Rightarrow> int \<Rightarrow> string \<Rightarrow> channel" where
  "Channel_ctor event_loop fd name =
     \<lparr>ch_loop = event_loop, ch_name = name, ch_fd = fd, ch_events = kNoneEvent,
      ch_revents = kNoneEvent, ch_status = 1, ch_handling = False, ch_tied = False,
      ch_tie = None, ch_has_read = False, ch_has_write = False, ch_has_close = False,
      ch_has_error = False\<rparr>"

definition Channel_Tie :: "addr \<Rightarrow> channel \<Rightarrow> channel" where
  "Channel_Tie owner c = c\<lparr>ch_tie := Some owner, ch_tied := True\<rparr>"

definition IsWriting :: "channel \<Rightarrow> bool" where
  "IsWriting c \<longleftrightarrow> has_event (ch_events c) kWriteEvent"

definition IsNoneEvent :: "channel \<Rightarrow> bool" where
  "IsNoneEvent c \<longleftrightarrow> ch_events c = kNoneEvent"

definition EventsToString :: "events \<Rightarrow> string" where
  "EventsToString ev =
     ''<'' @
     (if has_event ev EPOLLIN then ''IN '' else []) @
     (if has_event ev EPOLLPRI then ''PRI '' else []) @
     (if has_event ev EPOLLOUT then ''OUT '' else []) @
     (if has_event ev EPOLLHUP then ''HUP '' else []) @
     (if has_event ev EPOLLRDHUP then ''RDHUP '' else []) @
     (if has_event ev EPOLLERR then ''ERR '' else []) @
     ''>''"

section \<open>Facts on event masks\<close>

lemma has_event_or: "has_event (a OR b) m \<longleftrightarrow> has_event a m \<or> has_event b m"
  by (auto simp: has_event_def bit_eq_iff bit_simps)

lemma has_event_mask_or: "has_event a (m OR n) \<longleftrightarrow> has_event a m \<or> has_event a n"
  by (auto simp: has_event_def bit_eq_iff bit_simps)

lemma has_event_zero [simp]: "\<not> has_event 0 m"
  by (simp add: has_event_def)

lemma has_event_disable: "has_event (a AND NOT m) n \<longleftrightarrow> has_event a (n AND NOT m)"
  by (auto simp: has_event_def bit_eq_iff bit_simps)

lemma enable_write_nonzero: "ev OR kWriteEvent \<noteq> kNoneEvent"
proof
  assume "ev OR kWriteEvent = kNoneEvent"
  then have "has_event (ev OR kWriteEvent) kWriteEvent = has_event kNoneEvent kWriteEvent" by simp
  then show False by (simp add: has_event_or) (simp add: has_event_def event_masks)
qed

lemma enable_read_nonzero: "ev OR kReadEvent \<noteq> kNoneEvent"
proof
  assume "ev OR kReadEvent = kNoneEvent"
  then have "has_event (ev OR kReadEvent) kReadEvent = has_event kNoneEvent kReadEvent" by simp
  then show False by (simp add: has_event_or) (simp add: has_event_def event_masks)
qed

lemma IsWriting_masks:
  "has_event (ev OR kReadEvent) kWriteEvent \<longleftrightarrow> has_event ev kWriteEvent"
  "has_event (ev OR kWriteEvent) kWriteEvent"
  "\<not> has_event (ev AND NOT kWriteEvent) kWriteEvent"
  "has_event (ev AND NOT kReadEvent) kWriteEvent \<longleftrightarrow> has_event ev kWriteEvent"
  by (simp_all add: has_event_or has_event_disable) (simp_all add: has_event_def event_masks)

end
