(* ===== verification/Epoller.thy ===== *)
theory Epoller
  imports Channel
begin

unbundle bit_operations_syntax

text \<open>
  The poller (\<^verbatim>\<open>src/poller.h\<close>, \<^verbatim>\<open>src/poller.cc\<close>, \<^verbatim>\<open>src/epoller.h\<close>, \<^verbatim>\<open>src/epoller.cc\<close>) and the channel
  methods that go through the event loop to it (\<^verbatim>\<open>src/channel.cc\<close>, the last functions of
  \<^verbatim>\<open>src/event_loop.cc\<close>). The state is the poller object together with the channel objects it
  points to and the interest list that the kernel keeps for the epoll descriptor. The kernel's
  decisions are parameters: whether \<^verbatim>\<open>epoll_ctl\<close> succeeds, and what \<^verbatim>\<open>epoll_wait\<close> reports.
\<close>

section \<open>State\<close>

datatype epoll_op = EPOLL_CTL_ADD | EPOLL_CTL_MOD | EPOLL_CTL_DEL

type_synonym interest_list = "int \<Rightarrow> (events \<times> addr) option"

text \<open>
  Parameters of a run: \<open>ndebug\<close> tells a \<^verbatim>\<open>Release\<close> build (\<^verbatim>\<open>-DNDEBUG\<close>, no assertions, no
  \<^verbatim>\<open>DumpChannels\<close>) from the default \<^verbatim>\<open>Debug\<close> build; \<open>ctl_ok\<close> says whether the kernel accepts a
  change of its interest list.
\<close>

record poller_env =
  ndebug :: bool
  ctl_ok :: "epoll_op \<Rightarrow> int \<Rightarrow> interest_list \<Rightarrow> bool"

record poller =
  heap :: "addr \<Rightarrow> channel option"
  channels :: "addr option list"
  active_channels :: "addr option list"
  channel_nums :: nat
  cur_max_fd :: int
  egen :: nat
  event_list :: "(events \<times> addr) list"
  interest :: interest_list
  loop_self :: addr
  loop_tid :: int
  current_tid :: int
  efd :: int
  loop_fds :: "int list"

text \<open>
  \<open>efd\<close> is the epoll descriptor. \<open>loop_fds\<close> are the descriptors that the loop of the poller has opened for itself
  and not closed: the poller's own and those of the loop's wakeup, timer and signal channels.
\<close>

definition dassert :: "poller_env \<Rightarrow> bool \<Rightarrow> unit outcome" where
  "dassert E b = (if b \<or> ndebug E then Inr () else Inl AssertionFailed)"

definition deref :: "addr \<Rightarrow> 'z poller_scheme \<Rightarrow> channel outcome" where
  "deref p s = (case heap s p of None \<Rightarrow> Inl UseAfterFree | Some c \<Rightarrow> Inr c)"

definition modify :: "addr \<Rightarrow> (channel \<Rightarrow> channel) \<Rightarrow> 'z poller_scheme \<Rightarrow> 'z poller_scheme outcome" where
  "modify p f s = rbind (deref p s) (\<lambda>c. Inr (s\<lparr>heap := (heap s)(p \<mapsto> f c)\<rparr>))"

definition IsInLoopThread :: "'z poller_scheme \<Rightarrow> bool" where
  "IsInLoopThread s \<longleftrightarrow> loop_tid s = current_tid s"

definition AssertInLoopThread :: "poller_env \<Rightarrow> 'z poller_scheme \<Rightarrow> unit outcome" where
  "AssertInLoopThread E s = dassert E (IsInLoopThread s)"

section \<open>Poller and Epoller\<close>

definition kInitActiveChannelSize :: nat where "kInitActiveChannelSize = 512"
definition kInitTotalChannelSize :: nat where "kInitTotalChannelSize = 1024 * 1024"

text \<open>\<open>ke\<close> is the descriptor that \<^verbatim>\<open>epoll_create1\<close> gives.\<close>

definition Epoller_ctor :: "int \<Rightarrow> addr \<Rightarrow> int \<Rightarrow> (addr \<Rightarrow> channel option) \<Rightarrow> poller" where
  "Epoller_ctor ke self tid h =
     \<lparr>heap = h, channels = replicate kInitTotalChannelSize None,
      active_channels = replicate kInitActiveChannelSize None, channel_nums = 0, cur_max_fd = 0,
      egen = 0, event_list = replicate kInitActiveChannelSize (0, 0), interest = Map.empty,
      loop_self = self, loop_tid = tid, current_tid = tid, efd = ke, loop_fds = [ke]\<rparr>"

text \<open>\<^verbatim>\<open>close\<close> of one of the loop's own descriptors.\<close>

definition loop_close :: "int \<Rightarrow> 'z poller_scheme \<Rightarrow> 'z poller_scheme outcome" where
  "loop_close fd s =
     (if fd \<in> set (loop_fds s) then Inr (s\<lparr>loop_fds := remove1 fd (loop_fds s)\<rparr>) else Inl BadDescriptor)"

definition Epoller_dtor :: "poller_env \<Rightarrow> 'z poller_scheme \<Rightarrow> 'z poller_scheme outcome" where
  "Epoller_dtor E s = rbind (dassert E (channel_nums s = 0)) (\<lambda>_. loop_close (efd s) s)"

definition HasChannel :: "poller_env \<Rightarrow> addr \<Rightarrow> 'z poller_scheme \<Rightarrow> bool outcome" where
  "HasChannel E p s =
     rbind (AssertInLoopThread E s) (\<lambda>_.
     rbind (deref p s) (\<lambda>c.
       let fd = ch_fd c in
       if fd \<ge> int (length (channels s)) then rbind (dassert E False) (\<lambda>_. Inr False)
       else rbind (vec_get (channels s) fd) (\<lambda>slot.
         case slot of
           None \<Rightarrow> Inr False
         | Some q \<Rightarrow> rbind (dassert E (q = p)) (\<lambda>_. Inr True))))"

fun Dump_loop :: "poller_env \<Rightarrow> 'z poller_scheme \<Rightarrow> nat list \<Rightarrow> nat \<Rightarrow> nat outcome" where
  "Dump_loop E s [] count = Inr count"
| "Dump_loop E s (i # is) count =
     rbind (vec_get (channels s) (int i)) (\<lambda>slot.
       case slot of
         None \<Rightarrow> Dump_loop E s is count
       | Some p \<Rightarrow>
           rbind (deref p s) (\<lambda>c.
           rbind (dassert E (ch_fd c = int i)) (\<lambda>_. Dump_loop E s is (count + 1))))"

definition DumpChannels :: "poller_env \<Rightarrow> 'z poller_scheme \<Rightarrow> unit outcome" where
  "DumpChannels E s =
     rbind (AssertInLoopThread E s) (\<lambda>_.
     rbind (dassert E (nat (cur_max_fd s) < length (channels s))) (\<lambda>_.
     rbind (Dump_loop E s [0..<nat (cur_max_fd s + 1)] 0) (\<lambda>count.
       dassert E (count = channel_nums s))))"

definition ctl_apply :: "epoll_op \<Rightarrow> int \<Rightarrow> (events \<times> addr) \<Rightarrow> interest_list \<Rightarrow> interest_list" where
  "ctl_apply op fd ev I = (case op of EPOLL_CTL_DEL \<Rightarrow> I(fd := None) | _ \<Rightarrow> I(fd := Some ev))"

definition Epoller_Update ::
    "poller_env \<Rightarrow> epoll_op \<Rightarrow> addr \<Rightarrow> 'z poller_scheme \<Rightarrow> (bool \<times> 'z poller_scheme) outcome" where
  "Epoller_Update E op p s =
     rbind (deref p s) (\<lambda>c.
       if ctl_ok E op (ch_fd c) (interest s)
       then Inr (True, s\<lparr>interest := ctl_apply op (ch_fd c) (ch_events c, p) (interest s)\<rparr>)
       else rbind (dassert E False) (\<lambda>_. Inr (False, s)))"

definition debug_dump :: "poller_env \<Rightarrow> 'z poller_scheme \<Rightarrow> 'z poller_scheme outcome" where
  "debug_dump E s = (if ndebug E then Inr s else rbind (DumpChannels E s) (\<lambda>_. Inr s))"

definition AddChannelListItem :: "poller_env \<Rightarrow> addr \<Rightarrow> 'z poller_scheme \<Rightarrow> 'z poller_scheme outcome" where
  "AddChannelListItem E p s =
     rbind (deref p s) (\<lambda>c.
     rbind (vec_set (channels s) (ch_fd c) (Some p)) (\<lambda>chs.
       debug_dump E (s\<lparr>channels := chs, channel_nums := channel_nums s + 1,
         cur_max_fd := (if cur_max_fd s < ch_fd c then ch_fd c else cur_max_fd s)\<rparr>)))"

text \<open>The downward search for the last used slot, \<^verbatim>\<open>for(; i>0; i--)\<close>.\<close>

lemma rbind_cong [fundef_cong]:
  "m = n \<Longrightarrow> (\<And>x. n = Inr x \<Longrightarrow> f x = g x) \<Longrightarrow> rbind m f = rbind n g"
  by (cases n) simp_all

function scan_down :: "addr option list \<Rightarrow> int \<Rightarrow> int outcome" where
  "scan_down chs i =
     (if i > 0 then rbind (vec_get chs i) (\<lambda>slot. if slot = None then scan_down chs (i - 1) else Inr i)
      else Inr i)"
  by pat_completeness auto
termination
  by (relation "measure (\<lambda>(chs, i). nat i)") auto

declare scan_down.simps [simp del]

text \<open>\<^verbatim>\<open>size_t\<close> decrement.\<close>

definition size_dec :: "nat \<Rightarrow> nat" where
  "size_dec n = (if n = 0 then 2 ^ 64 - 1 else n - 1)"

definition DelChannelListItem :: "poller_env \<Rightarrow> addr \<Rightarrow> 'z poller_scheme \<Rightarrow> 'z poller_scheme outcome" where
  "DelChannelListItem E p s =
     rbind (deref p s) (\<lambda>c.
     rbind (vec_set (channels s) (ch_fd c) None) (\<lambda>chs.
     rbind (if cur_max_fd s = ch_fd c then scan_down chs (ch_fd c - 1) else Inr (cur_max_fd s)) (\<lambda>m.
       debug_dump E (s\<lparr>channels := chs, channel_nums := size_dec (channel_nums s),
         cur_max_fd := m\<rparr>))))"

definition set_status :: "addr \<Rightarrow> int \<Rightarrow> 'z poller_scheme \<Rightarrow> 'z poller_scheme outcome" where
  "set_status p st s = modify p (\<lambda>c. c\<lparr>ch_status := st\<rparr>) s"

definition Epoller_UpdateChannel ::
    "poller_env \<Rightarrow> addr \<Rightarrow> 'z poller_scheme \<Rightarrow> 'z poller_scheme outcome" where
  "Epoller_UpdateChannel E p s =
     rbind (AssertInLoopThread E s) (\<lambda>_.
     rbind (deref p s) (\<lambda>c.
     let fd = ch_fd c; status = ch_status c in
     if status = kNew then
       rbind (vec_get (channels s) fd) (\<lambda>slot.
         if slot \<noteq> None then rbind (dassert E False) (\<lambda>_. Inr s)
         else if \<not> IsNoneEvent c then
           rbind (Epoller_Update E EPOLL_CTL_ADD p s) (\<lambda>(ok, s1).
             if \<not> ok then Inr s1
             else rbind (set_status p kAdded s1) (AddChannelListItem E p))
         else rbind (set_status p kDel s) (AddChannelListItem E p))
     else if status = kAdded then
       rbind (vec_get (channels s) fd) (\<lambda>slot.
         if slot \<noteq> Some p then rbind (dassert E False) (\<lambda>_. Inr s)
         else if \<not> IsNoneEvent c then
           rbind (Epoller_Update E EPOLL_CTL_MOD p s) (\<lambda>(ok, s1). Inr s1)
         else
           rbind (Epoller_Update E EPOLL_CTL_DEL p s) (\<lambda>(ok, s1).
             if \<not> ok then Inr s1 else set_status p kDel s1))
     else if status = kDel then
       rbind (vec_get (channels s) fd) (\<lambda>slot.
         if slot \<noteq> Some p then rbind (dassert E False) (\<lambda>_. Inr s)
         else if \<not> IsNoneEvent c then
           rbind (Epoller_Update E EPOLL_CTL_ADD p s) (\<lambda>(ok, s1).
             if \<not> ok then Inr s1 else set_status p kAdded s1)
         else Inr s)
     else rbind (dassert E False) (\<lambda>_. Inr s)))"

definition Epoller_RemoveChannel ::
    "poller_env \<Rightarrow> addr \<Rightarrow> 'z poller_scheme \<Rightarrow> 'z poller_scheme outcome" where
  "Epoller_RemoveChannel E p s =
     rbind (AssertInLoopThread E s) (\<lambda>_.
     rbind (deref p s) (\<lambda>c.
     let fd = ch_fd c; status = ch_status c in
     if kNew \<noteq> status then
       rbind (vec_get (channels s) fd) (\<lambda>slot.
       rbind (dassert E (slot = Some p)) (\<lambda>_.
       if \<not> IsNoneEvent c then
         rbind (dassert E (kAdded = status)) (\<lambda>_.
         rbind (Epoller_Update E EPOLL_CTL_DEL p s) (\<lambda>(ok, s1).
           if \<not> ok then Inr s1
           else rbind (set_status p kNew s1) (DelChannelListItem E p)))
       else
         rbind (dassert E (kDel = status)) (\<lambda>_.
           rbind (set_status p kNew s) (DelChannelListItem E p))))
     else Inr s))"

text \<open>The loop of \<^verbatim>\<open>FillActiveChannel\<close> from index \<open>i\<close> on, with the terminating null store.\<close>

fun Fill_loop :: "(events \<times> addr) list \<Rightarrow> nat \<Rightarrow> 'z poller_scheme \<Rightarrow> 'z poller_scheme outcome" where
  "Fill_loop [] i s =
     rbind (vec_set (active_channels s) (int i) None) (\<lambda>a. Inr (s\<lparr>active_channels := a\<rparr>))"
| "Fill_loop ((ev, p) # evs) i s =
     rbind (deref p s) (\<lambda>c.
       if \<not> IsNoneEvent c then
         rbind (modify p (\<lambda>c. c\<lparr>ch_revents := ev\<rparr>) s) (\<lambda>s1.
         rbind (vec_set (active_channels s1) (int i) (Some p)) (\<lambda>a.
           Fill_loop evs (Suc i) (s1\<lparr>active_channels := a\<rparr>)))
       else Fill_loop evs (Suc i) (s\<lparr>egen := egen s + 1\<rparr>))"

definition FillActiveChannel :: "nat \<Rightarrow> 'z poller_scheme \<Rightarrow> 'z poller_scheme outcome" where
  "FillActiveChannel active_nums s = Fill_loop (take active_nums (event_list s)) 0 s"

text \<open>
  \<^verbatim>\<open>Epoller::Poll\<close>: \<open>answer\<close> is what \<^verbatim>\<open>epoll_wait\<close> returns, an error number or the events it
  wrote to the front of \<^verbatim>\<open>event_list_\<close>.
\<close>

definition Epoller_Poll ::
    "poller_env \<Rightarrow> (int, (events \<times> addr) list) sum \<Rightarrow> 'z poller_scheme \<Rightarrow> 'z poller_scheme outcome" where
  "Epoller_Poll E answer s =
     rbind (AssertInLoopThread E s) (\<lambda>_.
     rbind (vec_set (active_channels s) 0 None) (\<lambda>a.
     let s1 = s\<lparr>active_channels := a\<rparr> in
     case answer of
       Inl err \<Rightarrow> Inr s1
     | Inr evs \<Rightarrow>
         let nums = length evs;
             s2 = s1\<lparr>event_list := overwrite 0 evs (event_list s1)\<rparr>
         in if 0 < nums then
              let size = length (event_list s2);
                  s3 = (if nums = size
                        then s2\<lparr>event_list := vec_resize (0, 0) (event_list s2) (size * 2),
                                active_channels := replicate (size * 2) None\<rparr>
                        else s2)
              in FillActiveChannel nums s3
            else Inr s2))"

section \<open>Channel methods that go through the event loop\<close>

definition EventLoop_UpdateChannel ::
    "poller_env \<Rightarrow> addr \<Rightarrow> 'z poller_scheme \<Rightarrow> 'z poller_scheme outcome" where
  "EventLoop_UpdateChannel E p s =
     rbind (AssertInLoopThread E s) (\<lambda>_.
     rbind (deref p s) (\<lambda>c.
     rbind (dassert E (ch_loop c = Some (loop_self s))) (\<lambda>_.
       Epoller_UpdateChannel E p s)))"

definition EventLoop_RemoveChannel ::
    "poller_env \<Rightarrow> addr \<Rightarrow> 'z poller_scheme \<Rightarrow> 'z poller_scheme outcome" where
  "EventLoop_RemoveChannel E p s =
     rbind (AssertInLoopThread E s) (\<lambda>_.
     rbind (deref p s) (\<lambda>c.
     rbind (dassert E (ch_loop c = Some (loop_self s))) (\<lambda>_.
       Epoller_RemoveChannel E p s)))"

definition EventLoop_HasChannel :: "poller_env \<Rightarrow> addr \<Rightarrow> 'z poller_scheme \<Rightarrow> bool outcome" where
  "EventLoop_HasChannel E p s =
     rbind (AssertInLoopThread E s) (\<lambda>_.
     rbind (deref p s) (\<lambda>c.
     rbind (dassert E (ch_loop c = Some (loop_self s))) (\<lambda>_. HasChannel E p s)))"

definition set_events :: "poller_env \<Rightarrow> (events \<Rightarrow> events) \<Rightarrow> addr \<Rightarrow> 'z poller_scheme \<Rightarrow> 'z poller_scheme outcome" where
  "set_events E f p s =
     rbind (modify p (\<lambda>c. c\<lparr>ch_events := f (ch_events c)\<rparr>) s) (EventLoop_UpdateChannel E p)"

definition EnableReading :: "poller_env \<Rightarrow> addr \<Rightarrow> 'z poller_scheme \<Rightarrow> 'z poller_scheme outcome" where
  "EnableReading E = set_events E (\<lambda>ev. ev OR kReadEvent)"

definition DisableReading :: "poller_env \<Rightarrow> addr \<Rightarrow> 'z poller_scheme \<Rightarrow> 'z poller_scheme outcome" where
  "DisableReading E = set_events E (\<lambda>ev. ev AND NOT kReadEvent)"

definition EnableWriting :: "poller_env \<Rightarrow> addr \<Rightarrow> 'z poller_scheme \<Rightarrow> 'z poller_scheme outcome" where
  "EnableWriting E = set_events E (\<lambda>ev. ev OR kWriteEvent)"

definition DisableWriting :: "poller_env \<Rightarrow> addr \<Rightarrow> 'z poller_scheme \<Rightarrow> 'z poller_scheme outcome" where
  "DisableWriting E = set_events E (\<lambda>ev. ev AND NOT kWriteEvent)"

definition DisableAll :: "poller_env \<Rightarrow> addr \<Rightarrow> 'z poller_scheme \<Rightarrow> 'z poller_scheme outcome" where
  "DisableAll E = set_events E (\<lambda>ev. kNoneEvent)"

definition Channel_Remove :: "poller_env \<Rightarrow> addr \<Rightarrow> 'z poller_scheme \<Rightarrow> 'z poller_scheme outcome" where
  "Channel_Remove E = EventLoop_RemoveChannel E"

definition new_Channel ::
    "poller_env \<Rightarrow> addr \<Rightarrow> int \<Rightarrow> string \<Rightarrow> 'z poller_scheme \<Rightarrow> 'z poller_scheme outcome" where
  "new_Channel E p fd name s =
     rbind (dassert E (0 < fd)) (\<lambda>_.
       Inr (s\<lparr>heap := (heap s)(p \<mapsto> Channel_ctor (Some (loop_self s)) fd name)\<rparr>))"

definition delete_Channel :: "poller_env \<Rightarrow> addr \<Rightarrow> 'z poller_scheme \<Rightarrow> 'z poller_scheme outcome" where
  "delete_Channel E p s =
     rbind (deref p s) (\<lambda>c.
     rbind (dassert E (\<not> ch_handling c)) (\<lambda>_. Inr (s\<lparr>heap := (heap s)(p := None)\<rparr>)))"

text \<open>
  \<^verbatim>\<open>Channel::HandleEvent_\<close>. \<open>call\<close> runs a callback of the channel's owner; it may change the
  whole state, the channel included.
\<close>

datatype callback = ReadCb | WriteCb | CloseCb | ErrorCb

definition has_cb :: "callback \<Rightarrow> channel \<Rightarrow> bool" where
  "has_cb k c = (case k of ReadCb \<Rightarrow> ch_has_read c | WriteCb \<Rightarrow> ch_has_write c
                 | CloseCb \<Rightarrow> ch_has_close c | ErrorCb \<Rightarrow> ch_has_error c)"

definition fire :: "(callback \<Rightarrow> 'z poller_scheme \<Rightarrow> 'z poller_scheme outcome) \<Rightarrow>
    callback \<Rightarrow> events \<Rightarrow> addr \<Rightarrow> 'z poller_scheme \<Rightarrow> 'z poller_scheme outcome" where
  "fire call k bits p s =
     rbind (deref p s) (\<lambda>c.
       if has_event (ch_revents c) bits \<and> has_cb k c then call k s else Inr s)"

definition HandleEvent_impl :: "(callback \<Rightarrow> 'z poller_scheme \<Rightarrow> 'z poller_scheme outcome) \<Rightarrow>
    addr \<Rightarrow> 'z poller_scheme \<Rightarrow> 'z poller_scheme outcome" where
  "HandleEvent_impl call p s =
     rbind (modify p (\<lambda>c. c\<lparr>ch_handling := True\<rparr>) s) (\<lambda>s1.
     rbind (deref p s1) (\<lambda>c.
     rbind
       (if has_event (ch_revents c) (EPOLLHUP OR EPOLLRDHUP)
        then fire call CloseCb (EPOLLHUP OR EPOLLRDHUP) p s1
        else if has_event (ch_revents c) EPOLLERR
        then fire call ErrorCb EPOLLERR p s1
        else rbind (fire call ReadCb (EPOLLIN OR EPOLLPRI) p s1)
                   (fire call WriteCb EPOLLOUT p))
       (modify p (\<lambda>c. c\<lparr>ch_handling := False\<rparr>))))"

text \<open>\<^verbatim>\<open>Channel::HandleEvent\<close>: \<open>owner_alive\<close> is what \<^verbatim>\<open>tie_.lock()\<close> finds.\<close>

definition HandleEvent :: "(addr \<Rightarrow> 'z poller_scheme \<Rightarrow> bool) \<Rightarrow>
    (callback \<Rightarrow> 'z poller_scheme \<Rightarrow> 'z poller_scheme outcome) \<Rightarrow>
    addr \<Rightarrow> 'z poller_scheme \<Rightarrow> 'z poller_scheme outcome" where
  "HandleEvent owner_alive call p s =
     rbind (deref p s) (\<lambda>c.
       if ch_tied c
       then (case ch_tie c of
               None \<Rightarrow> Inr s
             | Some ow \<Rightarrow> if owner_alive ow s then HandleEvent_impl call p s else Inr s)
       else HandleEvent_impl call p s)"

section \<open>Basic rules\<close>

named_theorems poller_simps \<open>the elementary operations of the poller on known states\<close>

lemma dassert_True [simp, poller_simps]: "b \<Longrightarrow> dassert E b = Inr ()"
  by (simp add: dassert_def)

lemma deref_Some [simp, poller_simps]: "heap s p = Some c \<Longrightarrow> deref p s = Inr c"
  by (simp add: deref_def)

lemma modify_Some [simp, poller_simps]:
  "heap s p = Some c \<Longrightarrow> modify p f s = Inr (s\<lparr>heap := (heap s)(p \<mapsto> f c)\<rparr>)"
  by (simp add: modify_def)

lemma set_status_Some [simp, poller_simps]:
  "heap s p = Some c \<Longrightarrow> set_status p st s = Inr (s\<lparr>heap := (heap s)(p \<mapsto> c\<lparr>ch_status := st\<rparr>)\<rparr>)"
  by (simp add: set_status_def)

lemma vec_get_in [simp, poller_simps]: "0 \<le> i \<Longrightarrow> nat i < length xs \<Longrightarrow> vec_get xs i = Inr (xs ! nat i)"
  by (simp add: vec_get_def)

lemma vec_set_in [simp, poller_simps]:
  "0 \<le> i \<Longrightarrow> nat i < length xs \<Longrightarrow> vec_set xs i x = Inr (xs[nat i := x])"
  by (simp add: vec_set_def)

section \<open>Invariant\<close>

text \<open>The documented behaviour of \<^verbatim>\<open>epoll_ctl\<close> on descriptors that are open: \<open>ADD\<close> works on a
  descriptor that is not registered, \<open>MOD\<close> and \<open>DEL\<close> on one that is.\<close>

definition env_ok :: "poller_env \<Rightarrow> bool" where
  "env_ok E \<longleftrightarrow>
     (\<forall>fd I. (I fd = None \<longrightarrow> ctl_ok E EPOLL_CTL_ADD fd I) \<and>
             (I fd \<noteq> None \<longrightarrow> ctl_ok E EPOLL_CTL_MOD fd I \<and> ctl_ok E EPOLL_CTL_DEL fd I))"

definition linux_env :: poller_env where
  "linux_env = \<lparr>ndebug = False, ctl_ok = (\<lambda>op fd I. (op = EPOLL_CTL_ADD) = (I fd = None))\<rparr>"

lemma linux_env_ok: "env_ok linux_env"
  by (simp add: env_ok_def linux_env_def)

definition used :: "'z poller_scheme \<Rightarrow> nat set" where
  "used s = {i. i < length (channels s) \<and> channels s ! i \<noteq> None}"

definition expected_status :: "events \<Rightarrow> int" where
  "expected_status ev = (if ev = kNoneEvent then kDel else kAdded)"

definition expected_interest :: "events \<Rightarrow> addr \<Rightarrow> (events \<times> addr) option" where
  "expected_interest ev p = (if ev = kNoneEvent then None else Some (ev, p))"

text \<open>A used slot: its channel is alive, carries the slot's descriptor, and status, interest in
  the kernel and events agree.\<close>

definition slot_ok :: "'z poller_scheme \<Rightarrow> nat \<Rightarrow> addr \<Rightarrow> bool" where
  "slot_ok s i p \<longleftrightarrow> (\<exists>c. heap s p = Some c \<and> ch_fd c = int i \<and>
     ch_status c = expected_status (ch_events c) \<and>
     interest s (int i) = expected_interest (ch_events c) p)"

text \<open>A live channel: it belongs to this loop, its descriptor fits the table, and it is either
  not registered or in its slot.\<close>

definition channel_ok :: "'z poller_scheme \<Rightarrow> addr \<Rightarrow> channel \<Rightarrow> bool" where
  "channel_ok s p c \<longleftrightarrow> ch_loop c = Some (loop_self s) \<and> 0 < ch_fd c \<and>
     nat (ch_fd c) < length (channels s) \<and>
     (ch_status c = kNew \<or> channels s ! nat (ch_fd c) = Some p)"

definition ep_inv :: "'z poller_scheme \<Rightarrow> bool" where
  "ep_inv s \<longleftrightarrow>
     IsInLoopThread s \<and>
     (\<forall>i p. i < length (channels s) \<longrightarrow> channels s ! i = Some p \<longrightarrow> slot_ok s i p) \<and>
     (\<forall>fd. \<not> (0 \<le> fd \<and> nat fd \<in> used s) \<longrightarrow> interest s fd = None) \<and>
     (\<forall>p c. heap s p = Some c \<longrightarrow> channel_ok s p c) \<and>
     channel_nums s = card (used s) \<and>
     cur_max_fd s = int (Max (insert 0 (used s))) \<and> channels s \<noteq> [] \<and>
     length (active_channels s) = length (event_list s) \<and> 0 < length (event_list s)"

lemma finite_used [simp]: "finite (used s)"
  by (simp add: used_def)

lemma used_update_Some: "nat fd < length (channels s) \<Longrightarrow>
    used (s\<lparr>channels := (channels s)[nat fd := Some p]\<rparr>) = insert (nat fd) (used s)"
  by (auto simp: used_def nth_list_update)

lemma used_update_None: "used (s\<lparr>channels := (channels s)[nat fd := None]\<rparr>) = used s - {nat fd}"
  by (auto simp: used_def nth_update_None)

lemma used_cong: "channels s = channels t \<Longrightarrow> used s = used t"
  by (simp add: used_def)

lemma ep_invD:
  assumes "ep_inv s"
  shows ep_inv_loop: "IsInLoopThread s"
    and ep_inv_slot: "i < length (channels s) \<Longrightarrow> channels s ! i = Some p \<Longrightarrow> slot_ok s i p"
    and ep_inv_interest: "\<not> (0 \<le> fd \<and> nat fd \<in> used s) \<Longrightarrow> interest s fd = None"
    and ep_inv_channel: "heap s p = Some c \<Longrightarrow> channel_ok s p c"
    and ep_inv_nums: "channel_nums s = card (used s)"
    and ep_inv_max: "cur_max_fd s = int (Max (insert 0 (used s)))"
  using assms by (simp_all add: ep_inv_def)

lemma AssertInLoopThread_ok [simp]: "ep_inv s \<Longrightarrow> AssertInLoopThread E s = Inr ()"
  by (simp add: AssertInLoopThread_def ep_inv_def)

lemma cur_max_bounds:
  assumes "ep_inv s"
  shows "0 \<le> cur_max_fd s" and "nat (cur_max_fd s) < length (channels s)"
    and "i \<in> used s \<Longrightarrow> int i \<le> cur_max_fd s"
proof -
  have m: "cur_max_fd s = int (Max (insert 0 (used s)))" using assms by (simp add: ep_inv_def)
  then show "0 \<le> cur_max_fd s" by simp
  have "Max (insert 0 (used s)) \<in> insert 0 (used s)" by (rule Max_in) simp_all
  then have "Max (insert 0 (used s)) < length (channels s)"
    using assms by (auto simp: used_def ep_inv_def)
  with m show "nat (cur_max_fd s) < length (channels s)" by simp
  show "int i \<le> cur_max_fd s" if "i \<in> used s" using that m by simp
qed

section \<open>DumpChannels\<close>

lemma Dump_loop_ok:
  assumes "\<forall>i \<in> set is. i < length (channels s)"
    and "\<forall>i p. i < length (channels s) \<longrightarrow> channels s ! i = Some p \<longrightarrow>
           (\<exists>c. heap s p = Some c \<and> ch_fd c = int i)"
  shows "Dump_loop E s is n = Inr (n + length (filter (\<lambda>i. channels s ! i \<noteq> None) is))"
  using assms(1)
proof (induction "is" arbitrary: n)
  case Nil
  then show ?case by simp
next
  case (Cons i "is")
  show ?case
  proof (cases "channels s ! i")
    case None
    with Cons show ?thesis by simp
  next
    case (Some p)
    with assms(2) Cons.prems obtain c where "heap s p = Some c" "ch_fd c = int i" by fastforce
    with Some Cons show ?thesis by simp
  qed
qed

lemma length_filter_used:
  assumes "\<forall>i \<in> used s. i < n" and "n \<le> length (channels s)"
  shows "length (filter (\<lambda>i. channels s ! i \<noteq> None) [0..<n]) = card (used s)"
proof -
  have "length (filter (\<lambda>i. channels s ! i \<noteq> None) [0..<n]) =
      card (set (filter (\<lambda>i. channels s ! i \<noteq> None) [0..<n]))"
    by (rule distinct_card [symmetric]) simp
  also have "set (filter (\<lambda>i. channels s ! i \<noteq> None) [0..<n]) = used s"
    using assms by (auto simp: used_def)
  finally show ?thesis .
qed

lemma DumpChannels_ok:
  assumes "ep_inv s"
  shows "DumpChannels E s = Inr ()"
proof -
  let ?n = "nat (cur_max_fd s + 1)"
  have n: "?n \<le> length (channels s)" and u: "\<forall>i \<in> used s. i < ?n"
    using cur_max_bounds [OF assms] by (auto simp: zless_nat_eq_int_zless)
  have "Dump_loop E s [0..<?n] 0 = Inr (0 + length (filter (\<lambda>i. channels s ! i \<noteq> None) [0..<?n]))"
    using n ep_inv_slot [OF assms] by (intro Dump_loop_ok) (fastforce simp: slot_ok_def)+
  with length_filter_used [OF u n] ep_inv_nums [OF assms] cur_max_bounds(2) [OF assms]
  show ?thesis by (simp add: DumpChannels_def assms)
qed

lemma debug_dump_ok: "ep_inv s \<Longrightarrow> debug_dump E s = Inr s"
  by (simp add: debug_dump_def DumpChannels_ok)


section \<open>Registering and removing\<close>

definition registered :: "addr \<Rightarrow> channel \<Rightarrow> events \<Rightarrow> 'z poller_scheme \<Rightarrow> 'z poller_scheme" where
  "registered p c ev s =
     s\<lparr>heap := (heap s)(p \<mapsto> c\<lparr>ch_events := ev, ch_status := expected_status ev\<rparr>),
       channels := (channels s)[nat (ch_fd c) := Some p],
       interest := (interest s)(ch_fd c := expected_interest ev p),
       channel_nums := channel_nums s + (if ch_status c = kNew then 1 else 0),
       cur_max_fd := max (cur_max_fd s) (ch_fd c)\<rparr>"

definition unregistered :: "addr \<Rightarrow> channel \<Rightarrow> 'z poller_scheme \<Rightarrow> 'z poller_scheme" where
  "unregistered p c s =
     s\<lparr>heap := (heap s)(p \<mapsto> c\<lparr>ch_status := kNew\<rparr>),
       channels := (channels s)[nat (ch_fd c) := None],
       interest := (interest s)(ch_fd c := None),
       channel_nums := channel_nums s - 1,
       cur_max_fd := int (Max (insert 0 (used s - {nat (ch_fd c)})))\<rparr>"

text \<open>A channel may be (re)registered: it is new and its slot is free, or it is in its slot.\<close>

definition updatable :: "addr \<Rightarrow> channel \<Rightarrow> 'z poller_scheme \<Rightarrow> bool" where
  "updatable p c s \<longleftrightarrow> heap s p = Some c \<and>
     (ch_status c = kNew \<longrightarrow> channels s ! nat (ch_fd c) = None)"

lemma used_registered:
  "nat (ch_fd c) < length (channels s) \<Longrightarrow> used (registered p c ev s) = insert (nat (ch_fd c)) (used s)"
  by (auto simp: used_def registered_def nth_list_update)

lemma used_unregistered: "used (unregistered p c s) = used s - {nat (ch_fd c)}"
  by (auto simp: used_def unregistered_def nth_update_None)

lemma slot_owner:
  assumes "ep_inv s" "i < length (channels s)" "channels s ! i = Some q"
    "j < length (channels s)" "channels s ! j = Some q"
  shows "i = j"
  using ep_inv_slot [OF assms(1-3)] ep_inv_slot [OF assms(1) assms(4,5)]
  by (auto simp: slot_ok_def)

lemma ep_inv_registered:
  assumes inv: "ep_inv s" and up: "updatable p c s"
  shows "ep_inv (registered p c ev s)"
proof -
  let ?t = "registered p c ev s" and ?i = "nat (ch_fd c)"
  have c: "heap s p = Some c" using up by (simp add: updatable_def)
  have ok: "channel_ok s p c" using ep_inv_channel [OF inv c] .
  then have fd: "0 < ch_fd c" "?i < length (channels s)" by (simp_all add: channel_ok_def)
  have used: "used ?t = insert ?i (used s)" using fd by (simp add: used_registered)
  have slot: "channels s ! ?i = None \<and> ch_status c = kNew \<or> channels s ! ?i = Some p \<and> ch_status c \<noteq> kNew"
    using up ok ep_inv_slot [OF inv fd(2)]
    by (auto simp: updatable_def channel_ok_def slot_ok_def expected_status_def status_defs c)
  have "slot_ok ?t i q" if "i < length (channels s)" "channels ?t ! i = Some q" for i q
  proof (cases "i = ?i")
    case True
    with that fd show ?thesis by (auto simp: registered_def slot_ok_def)
  next
    case False
    with that have "channels s ! i = Some q" by (simp add: registered_def)
    moreover from this slot have "q \<noteq> p"
      using False that fd slot_owner [OF inv that(1) _ fd(2)] ep_inv_slot [OF inv that(1)] c
      by (auto simp: slot_ok_def expected_status_def status_defs)
    ultimately show ?thesis
      using ep_inv_slot [OF inv that(1)] False by (auto simp: registered_def slot_ok_def)
  qed
  moreover have "interest ?t fd = None" if "\<not> (0 \<le> fd \<and> nat fd \<in> used ?t)" for fd
  proof -
    from that used have "fd \<noteq> ch_fd c" "\<not> (0 \<le> fd \<and> nat fd \<in> used s)" using fd by auto
    with ep_inv_interest [OF inv] show ?thesis by (simp add: registered_def)
  qed
  moreover have "channel_ok ?t q d" if "heap ?t q = Some d" for q d
  proof (cases "q = p")
    case True
    with that fd ok show ?thesis by (auto simp: registered_def channel_ok_def)
  next
    case False
    with that have "channel_ok s q d" using ep_inv_channel [OF inv] by (simp add: registered_def)
    with False slot fd show ?thesis
      by (auto simp: registered_def channel_ok_def nth_list_update)
  qed
  moreover have "channel_nums ?t = card (used ?t)"
    unfolding used using slot fd ep_inv_nums [OF inv]
    by (auto simp: registered_def used_def insert_absorb)
  moreover have "cur_max_fd ?t = int (Max (insert 0 (used ?t)))"
    unfolding used insert_commute [of 0] using ep_inv_max [OF inv] fd
    by (simp add: registered_def max.commute)
  ultimately show ?thesis
    using inv by (simp add: ep_inv_def registered_def IsInLoopThread_def)
qed


lemma registered_new:
  assumes inv: "ep_inv s" and up: "updatable p c s" and new: "ch_status c = kNew"
  shows "AddChannelListItem E p (s\<lparr>
           interest := (interest s)(ch_fd c := expected_interest ev p),
           heap := (heap s)(p \<mapsto> c\<lparr>ch_events := ev, ch_status := expected_status ev\<rparr>)\<rparr>)
         = Inr (registered p c ev s)"
proof -
  have "channel_ok s p c" using ep_inv_channel [OF inv] up by (simp add: updatable_def)
  then have fd: "0 < ch_fd c" "nat (ch_fd c) < length (channels s)" by (simp_all add: channel_ok_def)
  let ?s = "s\<lparr>interest := (interest s)(ch_fd c := expected_interest ev p),
                heap := (heap s)(p \<mapsto> c\<lparr>ch_events := ev, ch_status := expected_status ev\<rparr>)\<rparr>"
  have "?s\<lparr>channels := (channels s)[nat (ch_fd c) := Some p], channel_nums := channel_nums s + 1,
           cur_max_fd := (if cur_max_fd s < ch_fd c then ch_fd c else cur_max_fd s)\<rparr>
        = registered p c ev s"
    using new by (cases s) (simp add: registered_def)
  with fd debug_dump_ok [OF ep_inv_registered [OF inv up, of ev], of E] show ?thesis
    by (simp add: AddChannelListItem_def split del: if_split cong: if_cong)
qed

lemma Epoller_UpdateChannel_eq:
  assumes E: "env_ok E" and inv: "ep_inv s" and up: "updatable p c s"
  shows "Epoller_UpdateChannel E p (s\<lparr>heap := (heap s)(p \<mapsto> c\<lparr>ch_events := ev\<rparr>)\<rparr>)
           = Inr (registered p c ev s)"
proof -
  have c: "heap s p = Some c" using up by (simp add: updatable_def)
  have ok: "channel_ok s p c" using ep_inv_channel [OF inv c] .
  then have fd: "0 < ch_fd c" "nat (ch_fd c) < length (channels s)" by (simp_all add: channel_ok_def)
  have thread: "AssertInLoopThread E (s\<lparr>heap := h\<rparr>) = Inr ()" for h
    using ep_inv_loop [OF inv] by (simp add: AssertInLoopThread_def IsInLoopThread_def)
  consider (new) "ch_status c = kNew" "channels s ! nat (ch_fd c) = None" "interest s (ch_fd c) = None"
    | (old) "ch_status c = expected_status (ch_events c)" "channels s ! nat (ch_fd c) = Some p"
        "interest s (ch_fd c) = expected_interest (ch_events c) p" "max (cur_max_fd s) (ch_fd c) = cur_max_fd s"
  proof (cases "ch_status c = kNew")
    case True
    with up ep_inv_interest [OF inv, of "ch_fd c"] show ?thesis
      by (intro new) (auto simp: updatable_def used_def)
  next
    case False
    with ok have s: "channels s ! nat (ch_fd c) = Some p" by (simp add: channel_ok_def)
    with fd have "nat (ch_fd c) \<in> used s" by (simp add: used_def)
    then have "ch_fd c \<le> cur_max_fd s" using cur_max_bounds(3) [OF inv] fd by fastforce
    with s fd c ep_inv_slot [OF inv fd(2) s] show ?thesis
      by (intro old) (auto simp: slot_ok_def max_def)
  qed
  then show ?thesis
  proof cases
    case new
    then have "(interest s)(ch_fd c := None) = interest s" by (simp add: fun_upd_idem)
    with new E fd thread registered_new [OF inv up new(1), of E ev] show ?thesis
      by (auto simp: Epoller_UpdateChannel_def IsNoneEvent_def Epoller_Update_def env_ok_def
          ctl_apply_def expected_interest_def expected_status_def)
  next
    case old
    then have "ch_status c \<noteq> kNew" "ch_status c = kAdded \<or> ch_status c = kDel"
      by (simp_all add: expected_status_def status_defs)
    moreover have "(channels s)[nat (ch_fd c) := Some p] = channels s"
      using old(2) fd by (metis list_update_id)
    ultimately show ?thesis using old E fd thread
      by (auto simp: Epoller_UpdateChannel_def IsNoneEvent_def Epoller_Update_def env_ok_def
          ctl_apply_def expected_interest_def expected_status_def registered_def status_defs
          intro!: poller.equality channel.equality ext
          split: if_splits)
  qed
qed


lemma set_events_eq:
  assumes "env_ok E" and "ep_inv s" and "updatable p c s"
  shows "set_events E f p s = Inr (registered p c (f (ch_events c)) s)"
proof -
  have c: "heap s p = Some c" using assms(3) by (simp add: updatable_def)
  have "ch_loop c = Some (loop_self s)" "IsInLoopThread s"
    using ep_inv_channel [OF assms(2) c] ep_inv_loop [OF assms(2)] by (simp_all add: channel_ok_def)
  with c Epoller_UpdateChannel_eq [OF assms] show ?thesis
    by (simp add: set_events_def EventLoop_UpdateChannel_def AssertInLoopThread_def IsInLoopThread_def)
qed

lemma scan_down_Max:
  "i < length chs \<Longrightarrow> scan_down chs (int i) = Inr (int (Max (insert 0 {j. 0 < j \<and> j \<le> i \<and> chs ! j \<noteq> None})))"
proof (induction i)
  case 0
  have "insert 0 {j. 0 < j \<and> j \<le> 0 \<and> chs ! j \<noteq> None} = {0 :: nat}" by auto
  then show ?case by (simp only: Max_singleton) (simp add: scan_down.simps [of chs 0])
next
  case (Suc i)
  let ?A = "\<lambda>i. {j. 0 < j \<and> j \<le> i \<and> chs ! j \<noteq> None}"
  have fin: "finite (?A n)" for n by simp
  show ?case
  proof (cases "chs ! Suc i")
    case None
    then have "?A (Suc i) = ?A i" by (auto simp: le_Suc_eq)
    moreover have "scan_down chs (int (Suc i)) = scan_down chs (int i)"
      using None Suc.prems by (simp add: scan_down.simps [of chs "1 + int i"] nat_add_distrib)
    ultimately show ?thesis using Suc by simp
  next
    case (Some p)
    then have "Max (insert 0 (?A (Suc i))) = Suc i"
      by (intro Max_eqI) (auto simp: fin)
    moreover have "scan_down chs (int (Suc i)) = Inr (int (Suc i))"
      using Some Suc.prems by (simp add: scan_down.simps [of chs "1 + int i"] nat_add_distrib)
    ultimately show ?thesis by simp
  qed
qed

lemma Del_max:
  assumes inv: "ep_inv s" and fd: "0 < fd" "nat fd < length (channels s)"
    and chs: "chs = (channels s)[nat fd := None]"
  shows "(if cur_max_fd s = fd then scan_down chs (fd - 1) else Inr (cur_max_fd s))
           = Inr (int (Max (insert 0 (used s - {nat fd}))))"
proof (cases "cur_max_fd s = fd")
  case True
  have lt: "i < nat fd" if "i \<in> used s - {nat fd}" for i
    using that cur_max_bounds(3) [OF inv, of i] True by auto
  have "insert 0 {j. 0 < j \<and> j \<le> nat (fd - 1) \<and> chs ! j \<noteq> None} = insert 0 (used s - {nat fd})"
    using fd lt by (auto simp: chs used_def nth_list_update nat_diff_distrib)
      (metis Suc_pred le_less_trans less_Suc_eq_le not_less_eq zero_less_nat_eq)+
  moreover have "nat (fd - 1) < length chs" "int (nat (fd - 1)) = fd - 1" using fd by (auto simp: chs)
  ultimately show ?thesis using True scan_down_Max [of "nat (fd - 1)" chs] by simp
next
  case False
  have "Max (insert 0 (used s)) \<in> insert 0 (used s)" by (rule Max_in) simp_all
  then have "Max (insert 0 (used s - {nat fd})) = Max (insert 0 (used s))"
    using False ep_inv_max [OF inv] by (intro Max_eqI) (auto intro: Max_ge)
  with False ep_inv_max [OF inv] show ?thesis by simp
qed


lemma ep_inv_unregistered:
  assumes inv: "ep_inv s" and c: "heap s p = Some c" and reg: "ch_status c \<noteq> kNew"
  shows "ep_inv (unregistered p c s)"
proof -
  let ?t = "unregistered p c s" and ?i = "nat (ch_fd c)"
  have ok: "channel_ok s p c" using ep_inv_channel [OF inv c] .
  then have fd: "0 < ch_fd c" "?i < length (channels s)" and slot: "channels s ! ?i = Some p"
    using reg by (simp_all add: channel_ok_def)
  have used: "used ?t = used s - {?i}" by (rule used_unregistered)
  have "slot_ok ?t i q" if "i < length (channels s)" "channels ?t ! i = Some q" for i q
  proof -
    from that have i: "i \<noteq> ?i" "channels s ! i = Some q"
      by (simp_all add: unregistered_def nth_update_None)
    moreover have "q \<noteq> p" using slot_owner [OF inv that(1) _ fd(2) slot] i by auto
    ultimately show ?thesis
      using ep_inv_slot [OF inv that(1)] by (auto simp: unregistered_def slot_ok_def)
  qed
  moreover have "interest ?t fd = None" if "\<not> (0 \<le> fd \<and> nat fd \<in> used ?t)" for fd
    using that ep_inv_interest [OF inv, of fd] fd unfolding used by (auto simp: unregistered_def)
  moreover have "channel_ok ?t q d" if "heap ?t q = Some d" for q d
  proof (cases "q = p")
    case True
    with that fd ok show ?thesis by (auto simp: unregistered_def channel_ok_def)
  next
    case False
    with that have "channel_ok s q d" using ep_inv_channel [OF inv] by (simp add: unregistered_def)
    with False slot fd show ?thesis
      by (auto simp: unregistered_def channel_ok_def nth_list_update)
  qed
  moreover have "channel_nums ?t = card (used ?t)"
    unfolding used using slot fd ep_inv_nums [OF inv]
    by (auto simp: unregistered_def used_def card_Diff_singleton_if)
  moreover have "cur_max_fd ?t = int (Max (insert 0 (used ?t)))"
    unfolding used by (simp add: unregistered_def)
  ultimately show ?thesis
    using inv by (simp add: ep_inv_def unregistered_def IsInLoopThread_def)
qed

lemma DelChannelListItem_eq:
  assumes inv: "ep_inv s" and c: "heap s p = Some c" and reg: "ch_status c \<noteq> kNew"
  shows "DelChannelListItem E p (s\<lparr>interest := (interest s)(ch_fd c := None),
           heap := (heap s)(p \<mapsto> c\<lparr>ch_status := kNew\<rparr>)\<rparr>) = Inr (unregistered p c s)"
proof -
  let ?s = "s\<lparr>interest := (interest s)(ch_fd c := None), heap := (heap s)(p \<mapsto> c\<lparr>ch_status := kNew\<rparr>)\<rparr>"
  have ok: "channel_ok s p c" using ep_inv_channel [OF inv c] .
  then have fd: "0 < ch_fd c" "nat (ch_fd c) < length (channels s)"
    and slot: "channels s ! nat (ch_fd c) = Some p" using reg by (simp_all add: channel_ok_def)
  have "channel_nums s \<noteq> 0" using slot fd ep_inv_nums [OF inv] by (auto simp: used_def)
  then have "?s\<lparr>channels := (channels s)[nat (ch_fd c) := None],
        channel_nums := size_dec (channel_nums s),
        cur_max_fd := int (Max (insert 0 (used s - {nat (ch_fd c)})))\<rparr> = unregistered p c s"
    by (cases s) (simp add: unregistered_def size_dec_def)
  with fd Del_max [OF inv fd refl] debug_dump_ok [OF ep_inv_unregistered [OF inv c reg], of E]
  show ?thesis by (simp add: DelChannelListItem_def split del: if_split cong: if_cong)
qed

lemma Epoller_RemoveChannel_eq:
  assumes E: "env_ok E" and inv: "ep_inv s" and c: "heap s p = Some c"
  shows "Epoller_RemoveChannel E p s =
           Inr (if ch_status c = kNew then s else unregistered p c s)"
proof (cases "ch_status c = kNew")
  case True
  with inv c show ?thesis by (simp add: Epoller_RemoveChannel_def)
next
  case False
  have ok: "channel_ok s p c" using ep_inv_channel [OF inv c] .
  then have fd: "0 < ch_fd c" "nat (ch_fd c) < length (channels s)"
    and slot: "channels s ! nat (ch_fd c) = Some p" using False by (simp_all add: channel_ok_def)
  have st: "ch_status c = expected_status (ch_events c)"
    "interest s (ch_fd c) = expected_interest (ch_events c) p"
    using ep_inv_slot [OF inv fd(2) slot] c fd by (auto simp: slot_ok_def)
  have same: "(interest s)(ch_fd c := None) = interest s" if "ch_events c = kNoneEvent"
    using st(2) that by (simp add: expected_interest_def fun_upd_idem)
  show ?thesis
    using False E inv c fd slot st same DelChannelListItem_eq [OF inv c False, of E]
    by (auto simp: Epoller_RemoveChannel_def Epoller_Update_def IsNoneEvent_def env_ok_def
        expected_status_def expected_interest_def ctl_apply_def split: if_splits)
qed

lemma Channel_Remove_eq:
  assumes "env_ok E" and "ep_inv s" and "heap s p = Some c"
  shows "Channel_Remove E p s = Inr (if ch_status c = kNew then s else unregistered p c s)"
  using Epoller_RemoveChannel_eq [OF assms] ep_inv_channel [OF assms(2,3)] assms(2,3)
  by (simp add: Channel_Remove_def EventLoop_RemoveChannel_def channel_ok_def)


text \<open>\<^verbatim>\<open>HasChannel\<close> tells whether the channel was added and not removed since, unless another one has its slot.\<close>

lemma EventLoop_HasChannel_eq:
  assumes "ep_inv s" and "heap s p = Some c"
  shows "EventLoop_HasChannel E p s =
    (case channels s ! nat (ch_fd c) of
       None \<Rightarrow> Inr False
     | Some q \<Rightarrow> if q = p \<or> ndebug E then Inr True else Inl AssertionFailed) \<and>
    (channels s ! nat (ch_fd c) = Some p \<longleftrightarrow> ch_status c \<noteq> kNew)"
proof
  have c: "channel_ok s p c" by (rule ep_inv_channel [OF assms])
  then have "0 \<le> ch_fd c" "nat (ch_fd c) < length (channels s)" "\<not> int (length (channels s)) \<le> ch_fd c" "ch_loop c = Some (loop_self s)"
    by (auto simp: channel_ok_def)
  moreover have "IsInLoopThread s" using assms(1) by (simp add: ep_inv_def)
  ultimately show "EventLoop_HasChannel E p s = (case channels s ! nat (ch_fd c) of
       None \<Rightarrow> Inr False
     | Some q \<Rightarrow> if q = p \<or> ndebug E then Inr True else Inl AssertionFailed)"
    using assms(2)
    by (simp add: AssertInLoopThread_def Let_def EventLoop_HasChannel_def HasChannel_def deref_def vec_get_def dassert_def split: option.split)
  show "channels s ! nat (ch_fd c) = Some p \<longleftrightarrow> ch_status c \<noteq> kNew" 
  proof
    assume "channels s ! nat (ch_fd c) = Some p"
    then have "slot_ok s (nat (ch_fd c)) p" using assms(1) c by (simp add: ep_inv_def channel_ok_def)
    then have "ch_status c = expected_status (ch_events c)" using assms(2) by (simp add: slot_ok_def)
    then show "ch_status c \<noteq> kNew" by (simp add: expected_status_def status_defs)
  qed (use c in \<open>simp add: channel_ok_def\<close>)
qed

section \<open>Polling\<close>

text \<open>The part of a channel that the registration depends on.\<close>

definition core :: "channel \<Rightarrow> addr option \<times> int \<times> events \<times> int" where
  "core c = (ch_loop c, ch_fd c, ch_events c, ch_status c)"

lemma core_simps [simp]:
  "core (c\<lparr>ch_revents := r\<rparr>) = core c" "core (c\<lparr>ch_handling := h\<rparr>) = core c"
  "core (Channel_Tie w c) = core c"
  by (simp_all add: core_def Channel_Tie_def)

definition same_registry :: "'z poller_scheme \<Rightarrow> 'y poller_scheme \<Rightarrow> bool" where
  "same_registry s t \<longleftrightarrow>
     (\<forall>q. map_option core (heap t q) = map_option core (heap s q)) \<and>
     channels t = channels s \<and> interest t = interest s \<and> channel_nums t = channel_nums s \<and>
     cur_max_fd t = cur_max_fd s \<and> loop_self t = loop_self s \<and>
     loop_tid t = loop_tid s \<and> current_tid t = current_tid s"

lemma same_registryD:
  assumes "same_registry s t" and "heap t q = Some d"
  shows "\<exists>c. heap s q = Some c \<and> core d = core c"
proof -
  have "map_option core (heap t q) = map_option core (heap s q)"
    using assms(1) unfolding same_registry_def by blast
  with assms(2) show ?thesis by (cases "heap s q") auto
qed

lemma same_registryD':
  assumes "same_registry s t" and "heap s q = Some c"
  shows "\<exists>d. heap t q = Some d \<and> core d = core c"
proof -
  have "map_option core (heap t q) = map_option core (heap s q)"
    using assms(1) unfolding same_registry_def by blast
  with assms(2) show ?thesis by (cases "heap t q") auto
qed

lemma ep_inv_same_registry:
  assumes "ep_inv s" and "same_registry s t"
    and "length (active_channels t) = length (event_list t)" "0 < length (event_list t)"
  shows "ep_inv t"
proof -
  have used: "used t = used s" using assms(2) by (simp add: used_def same_registry_def)
  have "slot_ok t i p" if "i < length (channels t)" "channels t ! i = Some p" for i p
  proof -
    have "slot_ok s i p" using that assms(2) ep_inv_slot [OF assms(1)] by (simp add: same_registry_def)
    then obtain c where c: "heap s p = Some c" "ch_fd c = int i"
      "ch_status c = expected_status (ch_events c)"
      "interest s (int i) = expected_interest (ch_events c) p" by (auto simp: slot_ok_def)
    then obtain d where "heap t p = Some d" "core d = core c"
      using same_registryD' [OF assms(2)] by blast
    with c assms(2) show ?thesis by (auto simp: slot_ok_def core_def same_registry_def)
  qed
  moreover have "channel_ok t p d" if pd: "heap t p = Some d" for p d
  proof -
    obtain c where "heap s p = Some c" "core d = core c"
      using same_registryD [OF assms(2) pd] by blast
    with ep_inv_channel [OF assms(1), of p c] assms(2) show ?thesis
      by (auto simp: channel_ok_def core_def same_registry_def)
  qed
  ultimately show ?thesis
    using assms used by (auto simp: ep_inv_def same_registry_def IsInLoopThread_def)
qed

fun set_revs :: "(events \<times> addr) list \<Rightarrow> (addr \<Rightarrow> channel option) \<Rightarrow> addr \<Rightarrow> channel option" where
  "set_revs [] h = h"
| "set_revs ((ev, p) # evs) h =
     set_revs evs (h(p := map_option (\<lambda>c. c\<lparr>ch_revents := ev\<rparr>) (h p)))"

lemma core_upd:
  "map_option core ((h(p := map_option (\<lambda>c. c\<lparr>ch_revents := ev\<rparr>) (h p))) q) = map_option core (h q)"
  by (cases "q = p"; cases "h p") auto

lemma set_revs_core: "map_option core (set_revs evs h q) = map_option core (h q)"
  by (induction evs h rule: set_revs.induct) (simp_all only: set_revs.simps core_upd)

lemma set_revs_other: "q \<notin> snd ` set evs \<Longrightarrow> set_revs evs h q = h q"
  by (induction evs h rule: set_revs.induct) auto

lemma set_revs_hit:
  "distinct (map snd evs) \<Longrightarrow> (ev, p) \<in> set evs \<Longrightarrow> h p = Some c \<Longrightarrow>
     set_revs evs h p = Some (c\<lparr>ch_revents := ev\<rparr>)"
proof (induction evs h arbitrary: c rule: set_revs.induct)
  case (2 ev' q evs h)
  show ?case
  proof (cases "(ev, p) = (ev', q)")
    case True
    with 2 have "p \<notin> snd ` set evs" by auto
    with True 2 show ?thesis by (simp add: set_revs_other)
  next
    case False
    with "2.prems" have "(ev, p) \<in> set evs" "p \<noteq> q" by (auto simp: image_iff)
    with "2.prems" show ?thesis unfolding set_revs.simps by (intro "2.IH") auto
  qed
qed simp

definition interested :: "'z poller_scheme \<Rightarrow> addr \<Rightarrow> bool" where
  "interested s p \<longleftrightarrow> (\<exists>c. heap s p = Some c \<and> \<not> IsNoneEvent c)"

lemma Fill_loop_eq:
  assumes "\<forall>p \<in> snd ` set evs. interested s p" and "i + length evs < length (active_channels s)"
  shows "Fill_loop evs i s = Inr (s\<lparr>heap := set_revs evs (heap s),
           active_channels := take i (active_channels s) @ map (Some \<circ> snd) evs @
             None # drop (Suc (i + length evs)) (active_channels s)\<rparr>)"
  using assms
proof (induction evs i s rule: Fill_loop.induct)
  case (1 i s)
  then show ?case by (simp add: upd_conv_take_nth_drop)
next
  case (2 ev p evs i s)
  then obtain c where c: "heap s p = Some c" "\<not> IsNoneEvent c" by (auto simp: interested_def)
  let ?s1 = "s\<lparr>heap := (heap s)(p \<mapsto> c\<lparr>ch_revents := ev\<rparr>)\<rparr>"
  let ?s2 = "?s1\<lparr>active_channels := (active_channels s)[i := Some p]\<rparr>"
  have "\<forall>q \<in> snd ` set evs. interested ?s2 q"
    using "2.prems"(1) c by (auto simp: interested_def IsNoneEvent_def)
  then have "Fill_loop evs (Suc i) ?s2 = Inr (?s2\<lparr>heap := set_revs evs (heap ?s2),
      active_channels := take (Suc i) (active_channels ?s2) @ map (Some \<circ> snd) evs @
        None # drop (Suc (Suc i + length evs)) (active_channels ?s2)\<rparr>)"
    using "2.prems"(2) c by (intro "2.IH"(1)) auto
  moreover have "take (Suc i) ((active_channels s)[i := Some p]) = take i (active_channels s) @ [Some p]"
    using "2.prems"(2) by (simp add: take_Suc_conv_app_nth)
  ultimately show ?case using c "2.prems"(2) by simp
qed

text \<open>What \<^verbatim>\<open>epoll_wait\<close> may report: at most as many events as it was given room for, each for a
  registered descriptor and carrying the pointer registered with it, no descriptor twice.\<close>

definition answer_ok :: "'z poller_scheme \<Rightarrow> (events \<times> addr) list \<Rightarrow> bool" where
  "answer_ok s evs \<longleftrightarrow> length evs \<le> length (event_list s) \<and> distinct (map snd evs) \<and>
     (\<forall>p \<in> snd ` set evs. \<exists>fd ev. interest s fd = Some (ev, p))"

lemma interest_interested:
  assumes inv: "ep_inv s" and i: "interest s fd = Some (ev, p)"
  shows "interested s p"
proof -
  from ep_inv_interest [OF inv, of fd] i have "0 \<le> fd" "nat fd \<in> used s" by auto
  then obtain q where q: "nat fd < length (channels s)" "channels s ! nat fd = Some q"
    by (auto simp: used_def)
  with ep_inv_slot [OF inv q] \<open>0 \<le> fd\<close> i show ?thesis
    by (auto simp: slot_ok_def interested_def IsNoneEvent_def expected_interest_def split: if_splits)
qed

lemma kernel_interest_owner:
  assumes inv: "ep_inv s" and i: "interest s fd = Some (ev, p)"
  shows "\<exists>c. heap s p = Some c \<and> ch_fd c = fd \<and> ch_status c \<noteq> kNew"
proof -
  from ep_inv_interest [OF inv, of fd] i have "0 \<le> fd" "nat fd \<in> used s" by auto
  then obtain q where q: "nat fd < length (channels s)" "channels s ! nat fd = Some q"
    by (auto simp: used_def)
  with ep_inv_slot [OF inv q] \<open>0 \<le> fd\<close> i show ?thesis
    by (auto simp: slot_ok_def expected_interest_def expected_status_def status_defs split: if_splits)
qed

text \<open>The channels the event loop visits: the entries before the first null pointer.\<close>

definition dispatched :: "'z poller_scheme \<Rightarrow> addr list" where
  "dispatched s = map the (takeWhile (\<lambda>q. q \<noteq> None) (active_channels s))"

lemma takeWhile_map_Some: "takeWhile (\<lambda>q. q \<noteq> None) (map (Some \<circ> f) xs @ None # ys) = map (Some \<circ> f) xs"
  by (induction xs) auto

lemma dispatched_map:
  "active_channels s = map (Some \<circ> f) xs @ None # ys \<Longrightarrow> dispatched s = map f xs"
  unfolding dispatched_def by (simp only: takeWhile_map_Some) simp

lemma Poll_events_eq:
  assumes inv: "ep_inv s" and ans: "answer_ok s evs" and ne: "evs \<noteq> []"
  shows "succeeds (Epoller_Poll E (Inr evs) s) (\<lambda>t. ep_inv t \<and> same_registry s t \<and>
           dispatched t = map snd evs \<and> egen t = egen s \<and> heap t = set_revs evs (heap s) \<and>
           length evs < length (active_channels t))"
proof -
  have len: "length (active_channels s) = length (event_list s)" "0 < length (event_list s)"
    using inv by (simp_all add: ep_inv_def)
  let ?s2 = "s\<lparr>active_channels := (active_channels s)[0 := None], event_list := overwrite 0 evs (event_list s)\<rparr>"
  let ?n = "length (event_list s)"
  let ?s3 = "if length evs = ?n
             then ?s2\<lparr>event_list := vec_resize (0, 0) (event_list ?s2) (?n * 2),
                      active_channels := replicate (?n * 2) None\<rparr> else ?s2"
  have ol: "length (overwrite 0 evs (event_list s)) = ?n"
    using ans by (simp add: answer_ok_def)
  have ev3: "take (length evs) (event_list ?s3) = evs"
    using ol ans by (auto simp: overwrite_def vec_resize_def answer_ok_def)
  have act3: "length evs < length (active_channels ?s3)"
    using ans len by (auto simp: answer_ok_def)
  have int3: "\<forall>p \<in> snd ` set evs. interested ?s3 p"
  proof
    fix p assume "p \<in> snd ` set evs"
    with ans have "interested s p" using interest_interested [OF inv] by (auto simp: answer_ok_def)
    then show "interested ?s3 p" by (simp add: interested_def)
  qed
  have "Epoller_Poll E (Inr evs) s = FillActiveChannel (length evs) ?s3"
    using inv ne len ol by (simp add: Epoller_Poll_def Let_def)
  moreover have "FillActiveChannel (length evs) ?s3 = Inr (?s3\<lparr>heap := set_revs evs (heap ?s3),
      active_channels := take 0 (active_channels ?s3) @ map (Some \<circ> snd) evs @
        None # drop (Suc (0 + length evs)) (active_channels ?s3)\<rparr>)"
    unfolding FillActiveChannel_def ev3 using int3 act3 by (intro Fill_loop_eq) simp_all
  moreover have "ep_inv (?s3\<lparr>heap := set_revs evs (heap ?s3),
      active_channels := take 0 (active_channels ?s3) @ map (Some \<circ> snd) evs @
        None # drop (Suc (0 + length evs)) (active_channels ?s3)\<rparr>)" (is "ep_inv ?t")
    using act3 len ol
    by (intro ep_inv_same_registry [OF inv])
      (auto simp: same_registry_def set_revs_core simp del: length_greater_0_conv)
  moreover have "same_registry s ?t" by (simp add: same_registry_def set_revs_core)
  moreover have "dispatched ?t = map snd evs" by (rule dispatched_map) simp
  moreover have "egen ?t = egen s" "heap ?t = set_revs evs (heap s)"
    "length evs < length (active_channels ?t)" by simp_all
  ultimately show ?thesis by (simp only: succeeds_simps)
qed


section \<open>Reachable states\<close>

text \<open>
  One step of the loop thread on its poller: a channel is constructed, its events change (any
  of \<^verbatim>\<open>EnableReading\<close>, \<^verbatim>\<open>DisableReading\<close>, \<^verbatim>\<open>EnableWriting\<close>, \<^verbatim>\<open>DisableWriting\<close>, \<^verbatim>\<open>DisableAll\<close>), it is
  removed, destroyed after its removal, or the poller is polled.
\<close>

inductive ep_step :: "poller_env \<Rightarrow> 'z poller_scheme \<Rightarrow> 'z poller_scheme \<Rightarrow> bool" for E where
  create: "heap s p = None \<Longrightarrow> 0 < fd \<Longrightarrow> nat fd < length (channels s) \<Longrightarrow>
     new_Channel E p fd name s = Inr t \<Longrightarrow> ep_step E s t"
| change: "updatable p c s \<Longrightarrow> op \<in> {EnableReading, DisableReading, EnableWriting, DisableWriting, DisableAll} \<Longrightarrow>
     op E p s = Inr t \<Longrightarrow> ep_step E s t"
| remove: "heap s p = Some c \<Longrightarrow> Channel_Remove E p s = Inr t \<Longrightarrow> ep_step E s t"
| destroy: "heap s p = Some c \<Longrightarrow> ch_status c = kNew \<Longrightarrow> delete_Channel E p s = Inr t \<Longrightarrow> ep_step E s t"
| poll: "answer_ok s evs \<Longrightarrow> Epoller_Poll E (Inr evs) s = Inr t \<Longrightarrow> ep_step E s t"
| poll_err: "Epoller_Poll E (Inl err) s = Inr t \<Longrightarrow> ep_step E s t"

inductive ep_reach :: "poller_env \<Rightarrow> poller \<Rightarrow> bool" for E where
  start: "ep_reach E (Epoller_ctor ke self tid Map.empty)"
| step: "ep_reach E s \<Longrightarrow> ep_step E s t \<Longrightarrow> ep_reach E t"

lemmas channel_ops_defs =
  EnableReading_def DisableReading_def EnableWriting_def DisableWriting_def DisableAll_def

lemma channel_op_set_events:
  assumes "op \<in> {EnableReading, DisableReading, EnableWriting, DisableWriting, DisableAll}"
  shows "\<exists>f. op = (\<lambda>E. set_events E f)"
  using assms by (auto simp: channel_ops_defs fun_eq_iff)

lemma ep_inv_ctor: "ep_inv (Epoller_ctor ke self tid Map.empty)"
proof -
  have "used (Epoller_ctor ke self tid Map.empty) = {}" by (auto simp: used_def Epoller_ctor_def)
  then show ?thesis
    by (simp add: ep_inv_def) (simp add: Epoller_ctor_def IsInLoopThread_def
      kInitTotalChannelSize_def kInitActiveChannelSize_def)
qed

lemma ep_inv_heap_None:
  assumes "ep_inv s" and "heap s p = Some c" and "ch_status c = kNew"
  shows "ep_inv (s\<lparr>heap := (heap s)(p := None)\<rparr>)"
proof -
  have "q \<noteq> p" if "i < length (channels s)" "channels s ! i = Some q" for i q
    using ep_inv_slot [OF assms(1) that] assms(2,3)
    by (auto simp: slot_ok_def expected_status_def status_defs split: if_splits)
  with assms show ?thesis
    by (auto simp: ep_inv_def slot_ok_def channel_ok_def used_def IsInLoopThread_def)
qed

lemma ep_inv_heap_new:
  assumes "ep_inv s" and "heap s p = None" and "0 < fd" and "nat fd < length (channels s)"
  shows "ep_inv (s\<lparr>heap := (heap s)(p \<mapsto> Channel_ctor (Some (loop_self s)) fd name)\<rparr>)"
proof -
  have "q \<noteq> p" if "i < length (channels s)" "channels s ! i = Some q" for i q
    using ep_inv_slot [OF assms(1) that] assms(2) by (auto simp: slot_ok_def)
  with assms show ?thesis
    by (auto simp: ep_inv_def slot_ok_def channel_ok_def used_def IsInLoopThread_def Channel_ctor_def
        status_defs)
qed

lemma Poll_quiet:
  assumes "ep_inv s"
  shows "succeeds (Epoller_Poll E (Inl err) s) (\<lambda>t. ep_inv t \<and> same_registry s t \<and> dispatched t = [])"
    and "succeeds (Epoller_Poll E (Inr []) s) (\<lambda>t. ep_inv t \<and> same_registry s t \<and> dispatched t = [])"
proof -
  have len: "length (active_channels s) = length (event_list s)" "0 < length (active_channels s)"
    using assms by (auto simp: ep_inv_def)
  have d: "takeWhile (\<lambda>q. q \<noteq> None) ((active_channels s)[0 := None]) = []"
    using len by (cases "active_channels s") auto
  have i: "ep_inv (s\<lparr>active_channels := (active_channels s)[0 := None], event_list := e\<rparr>)"
    if "length e = length (event_list s)" for e
    using that len by (intro ep_inv_same_registry [OF assms]) (auto simp: same_registry_def)
  have e: "overwrite 0 [] (event_list s) = event_list s" by (simp add: overwrite_def)
  have r: "same_registry s (s\<lparr>active_channels := (active_channels s)[0 := None]\<rparr>)"
    by (simp add: same_registry_def)
  show "succeeds (Epoller_Poll E (Inl err) s) (\<lambda>t. ep_inv t \<and> same_registry s t \<and> dispatched t = [])"
    using assms len d r i [OF refl] by (simp add: Epoller_Poll_def dispatched_def)
  show "succeeds (Epoller_Poll E (Inr []) s) (\<lambda>t. ep_inv t \<and> same_registry s t \<and> dispatched t = [])"
    using assms len d r e i [OF refl] by (simp add: Epoller_Poll_def dispatched_def Let_def)
qed

lemma Poll_ok:
  assumes "ep_inv s" and "answer_ok s evs"
  shows "succeeds (Epoller_Poll E (Inr evs) s) (\<lambda>t. ep_inv t \<and> same_registry s t \<and> dispatched t = map snd evs)"
proof (cases "evs = []")
  case True
  with Poll_quiet(2) [OF assms(1), of E] show ?thesis by simp
next
  case False
  from Poll_events_eq [OF assms False, of E] show ?thesis by (rule succeeds_mono) simp
qed

lemma ep_step_inv:
  assumes "env_ok E" and "ep_step E s t" and "ep_inv s"
  shows "ep_inv t"
  using assms(2,3)
proof (induction rule: ep_step.induct)
  case (create s p fd name t)
  then show ?case using ep_inv_heap_new [of s p fd name] by (simp add: new_Channel_def)
next
  case (change p c s op t)
  obtain f where "op = (\<lambda>E. set_events E f)" using channel_op_set_events [OF change.hyps(2)] by blast
  with change.hyps(3) set_events_eq [OF assms(1) change.prems change.hyps(1), of f]
  have "t = registered p c (f (ch_events c)) s" by simp
  with ep_inv_registered [OF change.prems change.hyps(1)] show ?case by simp
next
  case (remove s p c t)
  then show ?case
    using Channel_Remove_eq [OF assms(1), of s p c] ep_inv_unregistered [of s p c]
    by (auto split: if_splits)
next
  case (destroy s p c t)
  then have "t = s\<lparr>heap := (heap s)(p := None)\<rparr>"
    by (auto simp: delete_Channel_def rbind_Inr_conv)
  with destroy ep_inv_heap_None show ?case by blast
next
  case (poll s evs t)
  then show ?case using Poll_ok [of s evs E] by auto
next
  case (poll_err err s t)
  then show ?case using Poll_quiet(1) [of s E err] by auto
qed

lemma ep_reach_inv: "env_ok E \<Longrightarrow> ep_reach E s \<Longrightarrow> ep_inv s"
  by (erule ep_reach.induct) (auto intro: ep_inv_ctor ep_step_inv)


section \<open>Dispatch order\<close>

text \<open>A poller whose callbacks only record that they ran.\<close>

record logged_poller = poller +
  cb_log :: "callback list"

definition log_call :: "callback \<Rightarrow> 'z logged_poller_scheme \<Rightarrow> 'z logged_poller_scheme outcome" where
  "log_call k s = Inr (s\<lparr>cb_log := cb_log s @ [k]\<rparr>)"

definition expected_calls :: "channel \<Rightarrow> callback list" where
  "expected_calls c =
     (let r = ch_revents c in
      if has_event r (EPOLLHUP OR EPOLLRDHUP) then (if ch_has_close c then [CloseCb] else [])
      else if has_event r EPOLLERR then (if ch_has_error c then [ErrorCb] else [])
      else (if has_event r (EPOLLIN OR EPOLLPRI) \<and> ch_has_read c then [ReadCb] else []) @
           (if has_event r EPOLLOUT \<and> ch_has_write c then [WriteCb] else []))"

section \<open>Properties\<close>

text \<open>C8: in every reachable state the kernel's interest list is exactly the table of registered
  channels: a descriptor is watched for some events with some pointer if and only if that
  channel object is alive, occupies the slot of the descriptor, has status \<^verbatim>\<open>kAdded\<close> and asks for
  just these events. In particular every pointer that \<^verbatim>\<open>epoll_wait\<close> can hand back is valid.\<close>

theorem kernel_mirrors_channels:
  assumes "env_ok E" and "ep_reach E s"
  shows "interest s fd = Some (ev, p) \<longleftrightarrow>
           0 < fd \<and> nat fd < length (channels s) \<and> channels s ! nat fd = Some p \<and> ev \<noteq> kNoneEvent \<and>
           (\<exists>c. heap s p = Some c \<and> ch_fd c = fd \<and> ch_status c = kAdded \<and> ch_events c = ev)"
    (is "?l \<longleftrightarrow> ?r")
proof -
  have inv: "ep_inv s" using ep_reach_inv [OF assms] .
  show ?thesis
  proof
    assume l: ?l
    with ep_inv_interest [OF inv, of fd] have fd: "0 \<le> fd" "nat fd \<in> used s" by auto
    then obtain q where q: "nat fd < length (channels s)" "channels s ! nat fd = Some q"
      by (auto simp: used_def)
    with ep_inv_slot [OF inv q] fd(1) obtain c where "heap s q = Some c" "ch_fd c = fd"
      "ch_status c = expected_status (ch_events c)" "interest s fd = expected_interest (ch_events c) q"
      by (auto simp: slot_ok_def)
    with l q ep_inv_channel [OF inv, of q c] show ?r
      by (auto simp: expected_interest_def expected_status_def channel_ok_def split: if_splits)
  next
    assume ?r
    then show ?l using ep_inv_slot [OF inv, of "nat fd" p]
      by (auto simp: slot_ok_def expected_interest_def)
  qed
qed

text \<open>The state in the witnesses: one channel on descriptor 5, constructed and enabled for
  reading.\<close>

definition sample_poller :: poller where
  "sample_poller = registered 100 (Channel_ctor (Some 1) 5 ''x'') kReadEvent
     ((Epoller_ctor 3 1 7 Map.empty)\<lparr>heap := [100 \<mapsto> Channel_ctor (Some 1) 5 ''x'']\<rparr>)"

lemma sample_poller_reach: "ep_reach linux_env sample_poller"
proof -
  let ?s0 = "Epoller_ctor 3 1 7 Map.empty"
  let ?c = "Channel_ctor (Some 1) 5 ''x''"
  let ?s1 = "?s0\<lparr>heap := [100 \<mapsto> ?c]\<rparr>"
  have "ep_step linux_env ?s0 ?s1"
    by (rule ep_step.create [where p = 100 and fd = 5 and name = "''x''"])
      (simp_all add: Epoller_ctor_def kInitTotalChannelSize_def new_Channel_def)
  then have r1: "ep_reach linux_env ?s1" by (rule ep_reach.step [OF ep_reach.start])
  have up: "updatable 100 ?c ?s1"
    by (simp add: updatable_def Epoller_ctor_def Channel_ctor_def kInitTotalChannelSize_def)
  have "EnableReading linux_env 100 ?s1 = Inr sample_poller"
    using set_events_eq [OF linux_env_ok ep_reach_inv [OF linux_env_ok r1] up, of "\<lambda>ev. ev OR kReadEvent"]
    by (simp add: EnableReading_def sample_poller_def Channel_ctor_def kNoneEvent_def)
  then have "ep_step linux_env ?s1 sample_poller"
    by (intro ep_step.change [OF up, of EnableReading]) simp_all
  with r1 show ?thesis by (rule ep_reach.step)
qed

lemma sample_poller_fields:
  "interest sample_poller 5 = Some (kReadEvent, 100)"
  "heap sample_poller 100 = Some ((Channel_ctor (Some 1) 5 ''x'')\<lparr>ch_events := kReadEvent, ch_status := kAdded\<rparr>)"
  by (simp_all add: sample_poller_def registered_def expected_interest_def expected_status_def
      Channel_ctor_def event_masks)

theorem kernel_mirrors_channels_witness:
  "interest sample_poller 5 = Some (kReadEvent, 100) \<and> channels sample_poller ! 5 = Some 100"
  using kernel_mirrors_channels [OF linux_env_ok sample_poller_reach, of 5 kReadEvent 100]
    sample_poller_fields by auto

text \<open>C15: in every reachable state each of the five event changes of a channel that is registered
  or whose slot is free, and its removal, runs to completion: no assertion of \<^verbatim>\<open>Channel\<close>,
  \<^verbatim>\<open>EventLoop\<close>, \<^verbatim>\<open>Epoller\<close> or of the debugging self-check \<^verbatim>\<open>DumpChannels\<close> fails, no index is out of
  range and no freed channel is touched. The channel ends with the requested events, status
  \<^verbatim>\<open>kAdded\<close> or \<^verbatim>\<open>kDel\<close> accordingly, its slot filled and the kernel informed; after \<^verbatim>\<open>Remove\<close> it is
  new again and the kernel holds no pointer to it.\<close>

theorem channel_ops_safe:
  assumes "env_ok E" and "ep_reach E s" and "updatable p c s"
    and "(op, f) \<in> {(EnableReading, \<lambda>ev. ev OR kReadEvent), (DisableReading, \<lambda>ev. ev AND NOT kReadEvent),
           (EnableWriting, \<lambda>ev. ev OR kWriteEvent), (DisableWriting, \<lambda>ev. ev AND NOT kWriteEvent),
           (DisableAll, \<lambda>ev. kNoneEvent)}"
  shows "succeeds (op E p s) (\<lambda>t.
           let ev = f (ch_events c) in
           heap t p = Some (c\<lparr>ch_events := ev, ch_status := (if ev = kNoneEvent then kDel else kAdded)\<rparr>) \<and>
           channels t = (channels s)[nat (ch_fd c) := Some p] \<and>
           interest t = (interest s)(ch_fd c := (if ev = kNoneEvent then None else Some (ev, p)))) \<and>
         succeeds (Channel_Remove E p s) (\<lambda>t.
           heap t p = Some (c\<lparr>ch_status := kNew\<rparr>) \<and> (\<forall>fd ev. interest t fd \<noteq> Some (ev, p)))"
proof
  have inv: "ep_inv s" using ep_reach_inv [OF assms(1,2)] .
  have c: "heap s p = Some c" using assms(3) by (simp add: updatable_def)
  from assms(4) have "op E p s = set_events E f p s" by (auto simp: channel_ops_defs)
  with set_events_eq [OF assms(1) inv assms(3), of f]
  show "succeeds (op E p s) (\<lambda>t.
           let ev = f (ch_events c) in
           heap t p = Some (c\<lparr>ch_events := ev, ch_status := (if ev = kNoneEvent then kDel else kAdded)\<rparr>) \<and>
           channels t = (channels s)[nat (ch_fd c) := Some p] \<and>
           interest t = (interest s)(ch_fd c := (if ev = kNoneEvent then None else Some (ev, p))))"
    by (simp add: registered_def expected_status_def expected_interest_def Let_def)
  have own: "fd = ch_fd c \<and> ch_status c \<noteq> kNew" if "interest s fd = Some (ev, p)" for fd ev
    using kernel_interest_owner [OF inv that] c by auto
  show "succeeds (Channel_Remove E p s) (\<lambda>t.
           heap t p = Some (c\<lparr>ch_status := kNew\<rparr>) \<and> (\<forall>fd ev. interest t fd \<noteq> Some (ev, p)))"
    using Channel_Remove_eq [OF assms(1) inv c] own c by (auto simp: unregistered_def)
qed

theorem channel_ops_safe_witness:
  "succeeds (DisableAll linux_env 100 sample_poller) (\<lambda>t. interest t 5 = None)"
proof -
  have up: "updatable 100 ((Channel_ctor (Some 1) 5 ''x'')\<lparr>ch_events := kReadEvent, ch_status := kAdded\<rparr>) sample_poller"
    by (simp add: updatable_def sample_poller_fields status_defs)
  show ?thesis
    using channel_ops_safe [OF linux_env_ok sample_poller_reach up, of DisableAll "\<lambda>ev. kNoneEvent"]
    by (auto simp: Channel_ctor_def elim: succeeds_mono)
qed


text \<open>C24: a poll hands the event loop exactly the channels the kernel reported, in the kernel's
  order, each with the reported events: the array of active channels up to its first null
  pointer is the list of reported pointers. This holds when all room was used and the arrays
  are doubled, no write goes beyond an array, and a failed or empty wait dispatches nothing.\<close>

theorem Poll_delivers:
  assumes "env_ok E" and "ep_reach E s" and "answer_ok s evs"
  shows "succeeds (Epoller_Poll E (Inr evs) s) (\<lambda>t. dispatched t = map snd evs \<and>
           (\<forall>(ev, p) \<in> set evs. \<exists>c. heap t p = Some c \<and> ch_revents c = ev) \<and>
           length (active_channels t) = length (event_list t) \<and> length evs < length (event_list t)) \<and>
         succeeds (Epoller_Poll E (Inl err) s) (\<lambda>t. dispatched t = [])"
proof
  have inv: "ep_inv s" using ep_reach_inv [OF assms(1,2)] .
  show "succeeds (Epoller_Poll E (Inl err) s) (\<lambda>t. dispatched t = [])"
    using Poll_quiet(1) [OF inv, of E err] by (rule succeeds_mono) simp
  show "succeeds (Epoller_Poll E (Inr evs) s) (\<lambda>t. dispatched t = map snd evs \<and>
           (\<forall>(ev, p) \<in> set evs. \<exists>c. heap t p = Some c \<and> ch_revents c = ev) \<and>
           length (active_channels t) = length (event_list t) \<and> length evs < length (event_list t))"
  proof (cases "evs = []")
    case True
    with Poll_quiet(2) [OF inv, of E] show ?thesis
      by (auto simp: ep_inv_def elim!: succeeds_mono)
  next
    case False
    from Poll_events_eq [OF inv assms(3) False, of E] obtain t where
      t: "Epoller_Poll E (Inr evs) s = Inr t" "ep_inv t" "dispatched t = map snd evs"
        "heap t = set_revs evs (heap s)" "length evs < length (active_channels t)"
      by (elim succeedsE) auto
    have "\<exists>c. heap t p = Some c \<and> ch_revents c = ev" if "(ev, p) \<in> set evs" for ev p
    proof -
      have "p \<in> snd ` set evs" using that by force
      with assms(3) interest_interested [OF inv] obtain c where "heap s p = Some c"
        by (fastforce simp: answer_ok_def interested_def)
      with assms(3) that t(4) set_revs_hit [of evs ev p "heap s" c] show ?thesis
        by (simp add: answer_ok_def)
    qed
    moreover have "length evs < length (event_list t)"
      using t(2,5) by (simp add: ep_inv_def)
    ultimately show ?thesis using t(1,2,3) by (auto simp: ep_inv_def)
  qed
qed

theorem Poll_delivers_witness:
  "succeeds (Epoller_Poll linux_env (Inr [(EPOLLIN, 100)]) sample_poller) (\<lambda>t. dispatched t = [100])"
proof -
  have "answer_ok sample_poller [(EPOLLIN, 100)]"
    using sample_poller_fields(1)
    by (auto simp: answer_ok_def) (simp add: sample_poller_def registered_def Epoller_ctor_def
      kInitActiveChannelSize_def)
  from Poll_delivers [OF linux_env_ok sample_poller_reach this, of 0] show ?thesis
    by (auto elim: succeeds_mono)
qed

text \<open>\<^verbatim>\<open>HandleEvent_\<close> runs the callbacks in the order of precedence of the code: a hang-up runs only
  the close callback, otherwise an error only the error callback, otherwise readable comes
  before writable and both run when both are reported; callbacks that are not set are skipped
  and the channel is no longer marked as being handled afterwards.\<close>

theorem HandleEvent_order:
  assumes "heap s p = Some c"
  shows "succeeds (HandleEvent_impl log_call p s) (\<lambda>t.
           cb_log t = cb_log s @ expected_calls c \<and> heap t = (heap s)(p \<mapsto> c\<lparr>ch_handling := False\<rparr>))"
  using assms
  by (simp add: HandleEvent_impl_def fire_def log_call_def expected_calls_def has_cb_def Let_def)

theorem HandleEvent_order_witness:
  "succeeds (HandleEvent_impl log_call 100 (poller.extend
       (sample_poller\<lparr>heap := [100 \<mapsto> (Channel_ctor (Some 1) 5 ''x'')
          \<lparr>ch_revents := EPOLLIN OR EPOLLOUT, ch_has_read := True, ch_has_write := True\<rparr>]\<rparr>)
       (logged_poller.fields [])))
     (\<lambda>t. cb_log t = [ReadCb, WriteCb])"
  by (rule succeeds_mono [OF HandleEvent_order])
    (auto simp: poller.defs logged_poller.defs expected_calls_def Channel_ctor_def has_event_def epoll_bits)

section \<open>The registry as its clients see it\<close>

text \<open>
  The contract between the poller and the owners of channels. \<open>change\<close> stands for the methods
  that change the events of a channel, \<open>ready\<close> for what an owner has to know before it uses
  them, \<open>client\<close> for the part of the state that belongs to the owners.
\<close>

locale channel_registry =
  fixes inv :: "'s \<Rightarrow> bool"
    and chan :: "'s \<Rightarrow> addr \<Rightarrow> channel option"
    and ready :: "addr \<Rightarrow> 's \<Rightarrow> bool"
    and change :: "(events \<Rightarrow> events) \<Rightarrow> addr \<Rightarrow> 's \<Rightarrow> 's outcome"
    and remove :: "addr \<Rightarrow> 's \<Rightarrow> 's outcome"
    and client :: "'s \<Rightarrow> 'c"
  assumes change_ok: "inv s \<Longrightarrow> ready p s \<Longrightarrow> chan s p = Some c \<Longrightarrow>
      succeeds (change f p s) (\<lambda>t. inv t \<and> ready p t \<and> client t = client s \<and>
        chan t = (chan s)(p \<mapsto> c\<lparr>ch_events := f (ch_events c), ch_status := expected_status (f (ch_events c))\<rparr>))"
    and remove_ok: "inv s \<Longrightarrow> ready p s \<Longrightarrow> chan s p = Some c \<Longrightarrow>
      succeeds (remove p s) (\<lambda>t. inv t \<and> ready p t \<and> client t = client s \<and>
        chan t = (chan s)(p \<mapsto> c\<lparr>ch_status := kNew\<rparr>))"
begin

text \<open>Two changes in a row amount to one.\<close>

lemma change_change:
  assumes "inv s" and "ready p s" and "chan s p = Some c"
  shows "succeeds (rbind (change f p s) (change g p)) (\<lambda>t. inv t \<and> ready p t \<and> client t = client s \<and>
    chan t = (chan s)(p \<mapsto> c\<lparr>ch_events := g (f (ch_events c)), ch_status := expected_status (g (f (ch_events c)))\<rparr>))"
  unfolding succeeds_rbind
proof (rule succeeds_mono [OF change_ok [OF assms, of f]])
  fix t assume t: "inv t \<and> ready p t \<and> client t = client s \<and>
    chan t = (chan s)(p \<mapsto> c\<lparr>ch_events := f (ch_events c), ch_status := expected_status (f (ch_events c))\<rparr>)"
  then have i: "inv t" "ready p t" by simp_all
  have "chan t p = Some (c\<lparr>ch_events := f (ch_events c), ch_status := expected_status (f (ch_events c))\<rparr>)" using t by simp
  from change_ok [OF i this, of g] show "succeeds (change g p t) (\<lambda>t. inv t \<and> ready p t \<and> client t = client s \<and>
    chan t = (chan s)(p \<mapsto> c\<lparr>ch_events := g (f (ch_events c)), ch_status := expected_status (g (f (ch_events c)))\<rparr>))"
    by (rule succeeds_mono) (use t in simp)
qed

text \<open>The way every owner gives a channel up: no events, then removal.\<close>

lemma give_up:
  assumes "inv s" and "ready p s" and "chan s p = Some c"
  shows "succeeds (rbind (change (\<lambda>_. kNoneEvent) p s) (remove p)) (\<lambda>t. inv t \<and> ready p t \<and> client t = client s \<and>
    chan t = (chan s)(p \<mapsto> c\<lparr>ch_events := kNoneEvent, ch_status := kNew\<rparr>))"
  unfolding succeeds_rbind
proof (rule succeeds_mono [OF change_ok [OF assms]])
  fix t assume t: "inv t \<and> ready p t \<and> client t = client s \<and>
    chan t = (chan s)(p \<mapsto> c\<lparr>ch_events := kNoneEvent, ch_status := expected_status kNoneEvent\<rparr>)"
  then have i: "inv t" "ready p t" by simp_all
  have "chan t p = Some (c\<lparr>ch_events := kNoneEvent, ch_status := expected_status kNoneEvent\<rparr>)" using t by simp
  from remove_ok [OF i this] show "succeeds (remove p t) (\<lambda>t. inv t \<and> ready p t \<and> client t = client s \<and>
    chan t = (chan s)(p \<mapsto> c\<lparr>ch_events := kNoneEvent, ch_status := kNew\<rparr>))"
    by (rule succeeds_mono) (use t in simp)
qed

end

definition owners_part :: "'z poller_scheme \<Rightarrow> 'z \<times> addr \<times> int \<times> int" where
  "owners_part s = (poller.more s, loop_self s, loop_tid s, current_tid s)"

definition ready_channel :: "poller_env \<Rightarrow> addr \<Rightarrow> 'z poller_scheme \<Rightarrow> bool" where
  "ready_channel E p s \<longleftrightarrow> env_ok E \<and> (\<exists>c. updatable p c s)"

interpretation registry: channel_registry ep_inv heap "ready_channel E" "set_events E" "Channel_Remove E" owners_part
  for E :: poller_env
proof unfold_locales
  fix s :: "'z poller_scheme" and p c and f :: "events \<Rightarrow> events"
  assume inv: "ep_inv s" and ready: "ready_channel E p s" and c: "heap s p = Some c"
  then have E: "env_ok E" and up: "updatable p c s" by (auto simp: ready_channel_def updatable_def)
  have ok: "nat (ch_fd c) < length (channels s)" using ep_inv_channel [OF inv c] by (simp add: channel_ok_def)
  let ?ev = "f (ch_events c)"
  have "ready_channel E p (registered p c ?ev s)"
    using E ok by (auto simp: ready_channel_def updatable_def registered_def expected_status_def status_defs)
  then show "succeeds (set_events E f p s) (\<lambda>t. ep_inv t \<and> ready_channel E p t \<and> owners_part t = owners_part s \<and>
      heap t = (heap s)(p \<mapsto> c\<lparr>ch_events := ?ev, ch_status := expected_status ?ev\<rparr>))"
    using set_events_eq [OF E inv up, of f] ep_inv_registered [OF inv up, of ?ev]
    by (simp add: owners_part_def registered_def)
  show "succeeds (Channel_Remove E p s) (\<lambda>t. ep_inv t \<and> ready_channel E p t \<and> owners_part t = owners_part s \<and>
      heap t = (heap s)(p \<mapsto> c\<lparr>ch_status := kNew\<rparr>))"
  proof (cases "ch_status c = kNew")
    case True
    then have "c\<lparr>ch_status := kNew\<rparr> = c" by simp
    then show ?thesis using True Channel_Remove_eq [OF E inv c] inv ready c by (simp add: fun_upd_idem)
  next
    case False
    have "ready_channel E p (unregistered p c s)"
      using E ok by (auto simp: ready_channel_def updatable_def unregistered_def)
    then show ?thesis using False Channel_Remove_eq [OF E inv c] ep_inv_unregistered [OF inv c False]
      by (simp add: owners_part_def unregistered_def)
  qed
qed

end
