(* ===== verification/Std_Set.thy ===== *)
theory Std_Set
  imports Prelude
begin

text \<open>
  \<^verbatim>\<open>std::set\<close> as the timer queue uses it: a strictly sorted sequence with \<^verbatim>\<open>insert\<close>, \<^verbatim>\<open>erase\<close>,
  \<^verbatim>\<open>find\<close> and \<^verbatim>\<open>lower_bound\<close>. The contract of an ordered set is the locale \<open>ordered_set\<close>; the
  sequence implements it.
\<close>

definition set_ok :: "'a::linorder list \<Rightarrow> bool" where
  "set_ok xs \<longleftrightarrow> sorted xs \<and> distinct xs"

text \<open>The second component is the \<^verbatim>\<open>bool\<close> of the pair that \<^verbatim>\<open>set::insert\<close> returns.\<close>

definition set_insert :: "'a::linorder \<Rightarrow> 'a list \<Rightarrow> 'a list \<times> bool" where
  "set_insert x xs = (if x \<in> set xs then (xs, False) else (insort x xs, True))"

text \<open>\<^verbatim>\<open>set::erase(key)\<close> returns the number of elements removed.\<close>

definition set_erase :: "'a::linorder \<Rightarrow> 'a list \<Rightarrow> 'a list \<times> nat" where
  "set_erase x xs = (if x \<in> set xs then (remove1 x xs, 1) else (xs, 0))"

text \<open>The elements in front of \<^verbatim>\<open>lower_bound(x)\<close>, and those from there on.\<close>

definition before_bound :: "'a::linorder \<Rightarrow> 'a list \<Rightarrow> 'a list" where
  "before_bound x xs = takeWhile (\<lambda>y. y < x) xs"

definition from_bound :: "'a::linorder \<Rightarrow> 'a list \<Rightarrow> 'a list" where
  "from_bound x xs = dropWhile (\<lambda>y. y < x) xs"

locale ordered_set =
  fixes ok :: "'s \<Rightarrow> bool"
    and elems :: "'s \<Rightarrow> 'a::linorder list"
    and ins :: "'a \<Rightarrow> 's \<Rightarrow> 's \<times> bool"
    and era :: "'a \<Rightarrow> 's \<Rightarrow> 's \<times> nat"
    and prefix :: "'a \<Rightarrow> 's \<Rightarrow> 'a list"
    and suffix :: "'a \<Rightarrow> 's \<Rightarrow> 's"
  assumes elems_sorted: "ok s \<Longrightarrow> sorted (elems s) \<and> distinct (elems s)"
    and ins_ok: "ok s \<Longrightarrow> ok (fst (ins x s)) \<and> set (elems (fst (ins x s))) = insert x (set (elems s)) \<and>
      snd (ins x s) = (x \<notin> set (elems s))"
    and era_ok: "ok s \<Longrightarrow> ok (fst (era x s)) \<and> set (elems (fst (era x s))) = set (elems s) - {x} \<and>
      snd (era x s) = (if x \<in> set (elems s) then 1 else 0)"
    and bound_ok: "ok s \<Longrightarrow> ok (suffix x s) \<and> elems s = prefix x s @ elems (suffix x s) \<and>
      (\<forall>y \<in> set (prefix x s). y < x) \<and> (\<forall>y \<in> set (elems (suffix x s)). x \<le> y)"
begin

text \<open>Splitting at a bound is selection by the order.\<close>

lemma front_filter:
  assumes "ok s"
  shows "prefix x s = filter (\<lambda>y. y < x) (elems s)" and "elems (suffix x s) = filter (\<lambda>y. x \<le> y) (elems s)"
proof -
  note b = bound_ok [OF assms, of x]
  have "filter (\<lambda>y. y < x) (prefix x s) = prefix x s" "filter (\<lambda>y. y < x) (elems (suffix x s)) = []"
    using b by (auto simp: filter_id_conv filter_empty_conv)
  then show "prefix x s = filter (\<lambda>y. y < x) (elems s)" using b by (metis append_Nil2 filter_append)
  have "filter (\<lambda>y. x \<le> y) (prefix x s) = []" "filter (\<lambda>y. x \<le> y) (elems (suffix x s)) = elems (suffix x s)"
    using b by (auto simp: filter_id_conv filter_empty_conv)
  then show "elems (suffix x s) = filter (\<lambda>y. x \<le> y) (elems s)" using b by (metis append_Nil filter_append)
qed

lemma size_card: "ok s \<Longrightarrow> length (elems s) = card (set (elems s))"
  using elems_sorted [of s] by (simp add: distinct_card)

lemma size_ins: "ok s \<Longrightarrow> length (elems (fst (ins x s))) = (if x \<in> set (elems s) then 0 else 1) + length (elems s)"
  using ins_ok [of s x] by (simp add: size_card card_insert_if)

lemma size_era: "ok s \<Longrightarrow> x \<in> set (elems s) \<Longrightarrow> Suc (length (elems (fst (era x s)))) = length (elems s)"
  using era_ok [of s x] by (simp add: size_card card_Suc_Diff1 del: card_Diff_insert)

text \<open>The first element is the least one.\<close>

lemma first_least: "ok s \<Longrightarrow> elems s = y # ys \<Longrightarrow> z \<in> set (elems s) \<Longrightarrow> y \<le> z"
  using elems_sorted [of s] by auto

end

interpretation std: ordered_set set_ok "\<lambda>xs. xs" set_insert set_erase before_bound from_bound
proof unfold_locales
  fix s :: "'a list" and x
  assume s: "set_ok s"
  then show "sorted s \<and> distinct s" by (simp add: set_ok_def)
  show "set_ok (fst (set_insert x s)) \<and> set (fst (set_insert x s)) = insert x (set s) \<and>
      snd (set_insert x s) = (x \<notin> set s)"
    using s by (auto simp: set_ok_def set_insert_def sorted_insort distinct_insort set_insort_key)
  show "set_ok (fst (set_erase x s)) \<and> set (fst (set_erase x s)) = set s - {x} \<and>
      snd (set_erase x s) = (if x \<in> set s then 1 else 0)"
    using s by (auto simp: set_ok_def set_erase_def sorted_remove1)
  have "\<forall>y \<in> set (from_bound x s). x \<le> y"
  proof
    fix y assume y: "y \<in> set (from_bound x s)"
    then obtain z zs where z: "from_bound x s = z # zs" by (cases "from_bound x s") auto
    then have "x \<le> z" by (metis from_bound_def dropWhile_eq_Cons_conv not_less)
    moreover have "sorted (z # zs)" using s z
      by (metis set_ok_def from_bound_def sorted_dropWhile)
    ultimately show "x \<le> y" using y z by auto
  qed
  then show "set_ok (from_bound x s) \<and> s = before_bound x s @ from_bound x s \<and>
      (\<forall>y \<in> set (before_bound x s). y < x) \<and> (\<forall>y \<in> set (from_bound x s). x \<le> y)"
    using s by (auto simp: set_ok_def before_bound_def from_bound_def sorted_dropWhile distinct_dropWhile
        dest: set_takeWhileD)
qed

end
