(* ===== verification/Timestamp.thy ===== *)
theory Timestamp
  imports Prelude
begin

text \<open>
  The points of time of the base library (\<^verbatim>\<open>timestamp.h\<close>): microseconds in 64 bits, with the operators that the
  header defines. The timer queue compares and subtracts timestamps with them. The reading of the clock,
  \<^verbatim>\<open>AddTime\<close> and \<^verbatim>\<open>Invalid\<close> are only declared there.
\<close>

definition kMicrosecondsPerSecond :: int where "kMicrosecondsPerSecond = 1000 * 1000"

definition Timestamp_default :: uint64 where
  [simp]: "Timestamp_default = 0"

definition Timestamp_ctor :: "uint64 \<Rightarrow> uint64" where
  [simp]: "Timestamp_ctor micro_seconds = micro_seconds"

definition Microseconds :: "uint64 \<Rightarrow> uint64" where
  [simp]: "Microseconds t = t"

definition Secodes :: "uint64 \<Rightarrow> uint64" where
  "Secodes t = t div word_of_int kMicrosecondsPerSecond"

definition Timestamp_eq :: "uint64 \<Rightarrow> uint64 \<Rightarrow> bool" where
  [simp]: "Timestamp_eq left right \<longleftrightarrow> Microseconds left = Microseconds right"

definition Timestamp_ne :: "uint64 \<Rightarrow> uint64 \<Rightarrow> bool" where
  [simp]: "Timestamp_ne left right \<longleftrightarrow> Microseconds left \<noteq> Microseconds right"

definition Timestamp_gt :: "uint64 \<Rightarrow> uint64 \<Rightarrow> bool" where
  [simp]: "Timestamp_gt left right \<longleftrightarrow> Microseconds left > Microseconds right"

definition Timestamp_lt :: "uint64 \<Rightarrow> uint64 \<Rightarrow> bool" where
  [simp]: "Timestamp_lt left right \<longleftrightarrow> Microseconds left < Microseconds right"

definition Timestamp_plus :: "uint64 \<Rightarrow> uint64 \<Rightarrow> uint64" where
  [simp]: "Timestamp_plus left right = Microseconds left + Microseconds right"

definition Timestamp_minus :: "uint64 \<Rightarrow> uint64 \<Rightarrow> uint64" where
  [simp]: "Timestamp_minus left right = Microseconds left - Microseconds right"

text \<open>The whole seconds of a point of time.\<close>

lemma Secodes_bounds: "unat (Secodes t) * 1000000 \<le> unat t" "unat t < (unat (Secodes t) + 1) * 1000000"
  using div_mult_mod_eq [of "unat t" 1000000] mod_less_divisor [of 1000000 "unat t"]
  by (simp_all add: Secodes_def kMicrosecondsPerSecond_def unat_div_distrib)

text \<open>
  The difference of two points of time is unsigned: read as a signed number, as the timer queue does, it is the
  true one when they are less than \<open>2 ^ 63\<close> microseconds apart.
\<close>

lemma Timestamp_minus_signed:
  assumes "- (2 ^ 63) \<le> uint a - uint b" and "uint a - uint b < 2 ^ 63"
  shows "sint (Timestamp_minus a b) = uint a - uint b"
proof -
  have "Timestamp_minus a b = word_of_int (uint a - uint b)" by simp
  then have "sint (Timestamp_minus a b) = signed_take_bit 63 (uint a - uint b)"
    by (simp only:) (simp add: signed_of_int del: of_int_diff)
  then show ?thesis using assms by (simp add: signed_take_bit_int_eq_self)
qed

end
