(* ===== verification/TimerQueue.thy ===== *)
theory TimerQueue
  imports Std_Set Timestamp
begin

text \<open>
  The timers of an event loop: \<^verbatim>\<open>src/timer.h\<close>, \<^verbatim>\<open>src/timer.cc\<close>, \<^verbatim>\<open>src/timer_id.h\<close>,
  \<^verbatim>\<open>src/timer_queue.h\<close> and \<^verbatim>\<open>src/timer_queue.cc\<close>. The state is the queue object together with the
  \<^verbatim>\<open>Timer\<close> objects on the heap, the deadline that is programmed into the timer descriptor and the
  tasks that other threads have posted to the loop. Parameters of the model (record \<open>tq_env\<close>):
  the readings of the clock, \<^verbatim>\<open>Timestamp::AddTime\<close> and \<^verbatim>\<open>Timestamp::Invalid\<close>, the memory
  allocator, and the user's timer callbacks, which may add and cancel timers themselves.
\<close>

section \<open>State\<close>

definition UINTPTR_MAX :: uint64 where "UINTPTR_MAX = - 1"

record timer =
  t_callback :: nat
  t_expiration :: uint64
  t_interval :: int
  t_repeat :: bool
  t_sequence :: uint64

record timer_id =
  id_timer :: uint64
  id_sequence :: uint64

record timespec =
  tv_sec :: int
  tv_nsec :: int

text \<open>Tasks posted to the loop, and what a timer callback may do with the queue.\<close>

datatype tq_task = AddTask uint64 | CancelTask timer_id

datatype tq_op = OpAdd nat uint64 int | OpCancel timer_id

text \<open>
  \<open>armed\<close> is the programmed expiry of the timer descriptor: the clock reading at which it was
  programmed and the absolute deadline, both in microseconds. \<open>ticks\<close> counts the readings of
  the clock; \<open>on_loop\<close> tells whether the running thread is the loop's. \<open>returning\<close> are the timers
  of the calls of \<^verbatim>\<open>AddTimer\<close> on other threads that have posted their task and have yet to read the
  timer's sequence number for the handle they return.
\<close>

record timer_queue =
  theap :: "uint64 \<Rightarrow> timer option"
  timers :: "(uint64 \<times> uint64) list"
  active_timers :: "(uint64 \<times> uint64) list"
  calling_expired_timers :: bool
  canceling_timers :: "(uint64 \<times> uint64) list"
  armed :: "(int \<times> int) option"
  num_created :: uint64
  posted :: "tq_task list"
  ticks :: nat
  on_loop :: bool
  returning :: "uint64 list"

record tq_env =
  clock_at :: "nat \<Rightarrow> uint64"
  add_time :: "uint64 \<Rightarrow> uint64 \<Rightarrow> uint64"
  invalid_ts :: uint64
  alloc :: "(uint64 \<Rightarrow> timer option) \<Rightarrow> uint64 option"
  script :: "nat \<Rightarrow> timer_queue \<Rightarrow> tq_op list"

definition tq_deref :: "uint64 \<Rightarrow> timer_queue \<Rightarrow> timer outcome" where
  "tq_deref p s = (case theap s p of None \<Rightarrow> Inl UseAfterFree | Some tm \<Rightarrow> Inr tm)"

definition Now :: "tq_env \<Rightarrow> timer_queue \<Rightarrow> uint64 \<times> timer_queue" where
  "Now E s = (clock_at E (ticks s), s\<lparr>ticks := Suc (ticks s)\<rparr>)"

section \<open>Timer\<close>

definition Timer_ctor :: "nat \<Rightarrow> uint64 \<Rightarrow> int \<Rightarrow> uint64 \<Rightarrow> timer" where
  "Timer_ctor cb when intervalS seq =
     \<lparr>t_callback = cb, t_expiration = when, t_interval = intervalS,
      t_repeat = (intervalS > 0), t_sequence = seq\<rparr>"

definition Timer_Restart :: "tq_env \<Rightarrow> uint64 \<Rightarrow> timer \<Rightarrow> timer" where
  "Timer_Restart E now tm =
     (if t_repeat tm then tm\<lparr>t_expiration := add_time E now (word_of_int (t_interval tm))\<rparr>
      else tm\<lparr>t_expiration := invalid_ts E\<rparr>)"

section \<open>The timer descriptor\<close>

definition HowManyTimeLeft :: "uint64 \<Rightarrow> uint64 \<Rightarrow> timespec" where
  "HowManyTimeLeft when now =
     (let diff = sint (Timestamp_minus when now);
          micro_seconds = (if 100 > diff then 100 else diff)
      in \<lparr>tv_sec = micro_seconds div kMicrosecondsPerSecond,
          tv_nsec = micro_seconds mod kMicrosecondsPerSecond * 1000\<rparr>)"

text \<open>\<^verbatim>\<open>timerfd_settime\<close> with a relative one-shot value: an invalid value is refused, zero disarms.\<close>

definition timerfd_settime ::
    "uint64 \<Rightarrow> timespec \<Rightarrow> (int \<times> int) option \<Rightarrow> (int \<times> int) option" where
  "timerfd_settime now ts old =
     (if tv_sec ts < 0 \<or> tv_nsec ts < 0 \<or> tv_nsec ts > 999999999 then old
      else if tv_sec ts = 0 \<and> tv_nsec ts = 0 then None
      else Some (uint now, uint now + tv_sec ts * 1000000 + tv_nsec ts div 1000))"

definition ResetTimerfd :: "tq_env \<Rightarrow> uint64 \<Rightarrow> timer_queue \<Rightarrow> timer_queue" where
  "ResetTimerfd E expired s =
     (let (now, s1) = Now E s
      in s1\<lparr>armed := timerfd_settime now (HowManyTimeLeft expired now) (armed s1)\<rparr>)"

text \<open>\<^verbatim>\<open>ReadTimer\<close>: reading an expired descriptor clears the expiry; one that has not expired
  answers \<^verbatim>\<open>EAGAIN\<close>, which is only logged.\<close>

definition ReadTimer :: "uint64 \<Rightarrow> timer_queue \<Rightarrow> timer_queue" where
  "ReadTimer now s =
     s\<lparr>armed := (case armed s of
                   Some (n, d) \<Rightarrow> if d \<le> uint now then None else Some (n, d)
                 | None \<Rightarrow> None)\<rparr>"

section \<open>TimerQueue\<close>

definition TimerQueue_ctor :: timer_queue where
  "TimerQueue_ctor =
     \<lparr>theap = Map.empty, timers = [], active_timers = [], calling_expired_timers = False,
      canceling_timers = [], armed = None, num_created = 0, posted = [], ticks = 0, on_loop = True,
      returning = []\<rparr>"

definition TimerQueue_Insert :: "uint64 \<Rightarrow> timer_queue \<Rightarrow> (bool \<times> timer_queue) outcome" where
  "TimerQueue_Insert p s =
     rbind (assert_that (length (active_timers s) = length (timers s))) (\<lambda>_.
     rbind (tq_deref p s) (\<lambda>tm.
     let when = t_expiration tm;
         earliest = (timers s = [] \<or> Timestamp_lt when (fst (hd (timers s))));
         s1 = s\<lparr>timers := fst (set_insert (when, p) (timers s))\<rparr>;
         s2 = s1\<lparr>active_timers := fst (set_insert (p, t_sequence tm) (active_timers s1))\<rparr>
     in rbind (assert_that (length (active_timers s2) = length (timers s2))) (\<lambda>_.
          Inr (earliest, s2))))"

definition AddTimerInLoop :: "tq_env \<Rightarrow> uint64 \<Rightarrow> timer_queue \<Rightarrow> timer_queue outcome" where
  "AddTimerInLoop E p s =
     rbind (assert_that (on_loop s)) (\<lambda>_.
     rbind (TimerQueue_Insert p s) (\<lambda>(earliest, s1).
       if earliest then rbind (tq_deref p s1) (\<lambda>tm. Inr (ResetTimerfd E (t_expiration tm) s1))
       else Inr s1))"

definition CancelInLoop :: "timer_id \<Rightarrow> timer_queue \<Rightarrow> timer_queue outcome" where
  "CancelInLoop tid s =
     rbind (assert_that (on_loop s)) (\<lambda>_.
     rbind (assert_that (length (active_timers s) = length (timers s))) (\<lambda>_.
     let key = (id_timer tid, id_sequence tid) in
     rbind
       (if key \<in> set (active_timers s) then
          rbind (tq_deref (id_timer tid) s) (\<lambda>tm.
          let (ts, n) = set_erase (t_expiration tm, id_timer tid) (timers s) in
          rbind (assert_that (n = 1)) (\<lambda>_.
            Inr (s\<lparr>timers := ts, theap := (theap s)(id_timer tid := None),
                   active_timers := fst (set_erase key (active_timers s))\<rparr>)))
        else if calling_expired_timers s then
          Inr (s\<lparr>canceling_timers := fst (set_insert key (canceling_timers s))\<rparr>)
        else Inr s) (\<lambda>s1.
     rbind (assert_that (length (active_timers s1) = length (timers s1))) (\<lambda>_. Inr s1))))"

text \<open>
  \<^verbatim>\<open>AddTimer\<close> in its two halves: the timer is created and handed to the loop (at once when the
  caller is the loop thread), and then the handle is built from the timer's sequence number.
\<close>

definition AddTimer_post ::
    "tq_env \<Rightarrow> nat \<Rightarrow> uint64 \<Rightarrow> int \<Rightarrow> timer_queue \<Rightarrow> (uint64 \<times> timer_queue) outcome" where
  "AddTimer_post E cb when intervalS s =
     (case alloc E (theap s) of
        None \<Rightarrow> Inl OutOfMemory
      | Some p \<Rightarrow>
          let s1 = s\<lparr>theap := (theap s)(p \<mapsto> Timer_ctor cb when intervalS (num_created s)),
                     num_created := num_created s + 1\<rparr>
          in if on_loop s1 then rbind (AddTimerInLoop E p s1) (\<lambda>s2. Inr (p, s2))
             else Inr (p, s1\<lparr>posted := posted s1 @ [AddTask p]\<rparr>))"

definition AddTimer_ret :: "uint64 \<Rightarrow> timer_queue \<Rightarrow> timer_id outcome" where
  "AddTimer_ret p s =
     rbind (tq_deref p s) (\<lambda>tm. Inr \<lparr>id_timer = p, id_sequence = t_sequence tm\<rparr>)"

definition TimerQueue_AddTimer ::
    "tq_env \<Rightarrow> nat \<Rightarrow> uint64 \<Rightarrow> int \<Rightarrow> timer_queue \<Rightarrow> (timer_id \<times> timer_queue) outcome" where
  "TimerQueue_AddTimer E cb when intervalS s =
     rbind (AddTimer_post E cb when intervalS s) (\<lambda>(p, s1).
     rbind (AddTimer_ret p s1) (\<lambda>tid. Inr (tid, s1)))"

definition TimerQueue_Cancel :: "timer_id \<Rightarrow> timer_queue \<Rightarrow> timer_queue outcome" where
  "TimerQueue_Cancel tid s =
     (if on_loop s then CancelInLoop tid s else Inr (s\<lparr>posted := posted s @ [CancelTask tid]\<rparr>))"

fun erase_active :: "(uint64 \<times> uint64) list \<Rightarrow> timer_queue \<Rightarrow> timer_queue outcome" where
  "erase_active [] s = Inr s"
| "erase_active ((t, p) # es) s =
     rbind (tq_deref p s) (\<lambda>tm.
       erase_active es (s\<lparr>active_timers := fst (set_erase (p, t_sequence tm) (active_timers s))\<rparr>))"

definition getExpired ::
    "uint64 \<Rightarrow> timer_queue \<Rightarrow> ((uint64 \<times> uint64) list \<times> timer_queue) outcome" where
  "getExpired now s =
     rbind (assert_that (length (active_timers s) = length (timers s))) (\<lambda>_.
     let sentry = (now, UINTPTR_MAX);
         expired = before_bound sentry (timers s);
         rest = from_bound sentry (timers s)
     in rbind (assert_that (rest = [] \<or> now < fst (hd rest))) (\<lambda>_.
        rbind (erase_active expired (s\<lparr>timers := rest\<rparr>)) (\<lambda>s1.
        rbind (assert_that (length (active_timers s1) = length (timers s1))) (\<lambda>_.
          Inr (expired, s1)))))"

fun Reset_loop :: "tq_env \<Rightarrow> (uint64 \<times> uint64) list \<Rightarrow> uint64 \<Rightarrow> timer_queue \<Rightarrow> timer_queue outcome" where
  "Reset_loop E [] now s = Inr s"
| "Reset_loop E ((t, p) # es) now s =
     rbind (tq_deref p s) (\<lambda>tm.
       if t_repeat tm \<and> (p, t_sequence tm) \<notin> set (canceling_timers s)
       then rbind (TimerQueue_Insert p (s\<lparr>theap := (theap s)(p \<mapsto> Timer_Restart E now tm)\<rparr>))
                  (\<lambda>(_, s1). Reset_loop E es now s1)
       else Reset_loop E es now (s\<lparr>theap := (theap s)(p := None)\<rparr>))"

definition TimerQueue_Reset ::
    "tq_env \<Rightarrow> (uint64 \<times> uint64) list \<Rightarrow> uint64 \<Rightarrow> timer_queue \<Rightarrow> timer_queue outcome" where
  "TimerQueue_Reset E expired now s =
     rbind (Reset_loop E expired now s) (\<lambda>s1.
       case timers s1 of
         [] \<Rightarrow> Inr s1
       | (t, p) # _ \<Rightarrow> rbind (tq_deref p s1) (\<lambda>tm. Inr (ResetTimerfd E (t_expiration tm) s1)))"

fun run_ops :: "tq_env \<Rightarrow> tq_op list \<Rightarrow> timer_queue \<Rightarrow> timer_queue outcome" where
  "run_ops E [] s = Inr s"
| "run_ops E (OpAdd cb when intervalS # ops) s =
     rbind (TimerQueue_AddTimer E cb when intervalS s) (\<lambda>(_, s1). run_ops E ops s1)"
| "run_ops E (OpCancel tid # ops) s = rbind (TimerQueue_Cancel tid s) (run_ops E ops)"

fun run_expired :: "tq_env \<Rightarrow> (uint64 \<times> uint64) list \<Rightarrow> timer_queue \<Rightarrow> timer_queue outcome" where
  "run_expired E [] s = Inr s"
| "run_expired E ((t, p) # es) s =
     rbind (tq_deref p s) (\<lambda>tm.
     rbind (run_ops E (script E (t_callback tm) s) s) (run_expired E es))"

definition TimerQueue_HandleRead :: "tq_env \<Rightarrow> timer_queue \<Rightarrow> timer_queue outcome" where
  "TimerQueue_HandleRead E s =
     rbind (assert_that (on_loop s)) (\<lambda>_.
     let (now, s1) = Now E s in
     rbind (getExpired now (ReadTimer now s1)) (\<lambda>(expired, s2).
     rbind (run_expired E expired (s2\<lparr>calling_expired_timers := True, canceling_timers := []\<rparr>)) (\<lambda>s3.
       TimerQueue_Reset E expired now (s3\<lparr>calling_expired_timers := False\<rparr>))))"

text \<open>The loop runs the oldest posted task.\<close>

definition run_posted :: "tq_env \<Rightarrow> timer_queue \<Rightarrow> timer_queue outcome" where
  "run_posted E s =
     (case posted s of
        [] \<Rightarrow> Inr s
      | AddTask p # ts \<Rightarrow> AddTimerInLoop E p (s\<lparr>posted := ts\<rparr>)
      | CancelTask tid # ts \<Rightarrow> CancelInLoop tid (s\<lparr>posted := ts\<rparr>))"

fun delete_timers :: "(uint64 \<times> uint64) list \<Rightarrow> timer_queue \<Rightarrow> timer_queue outcome" where
  "delete_timers [] s = Inr s"
| "delete_timers ((t, p) # es) s =
     rbind (tq_deref p s) (\<lambda>_. delete_timers es (s\<lparr>theap := (theap s)(p := None)\<rparr>))"

definition TimerQueue_dtor :: "timer_queue \<Rightarrow> timer_queue outcome" where
  "TimerQueue_dtor s = delete_timers (timers s) s"

section \<open>Event loop interface\<close>

definition TimerAt :: "tq_env \<Rightarrow> uint64 \<Rightarrow> nat \<Rightarrow> timer_queue \<Rightarrow> (timer_id \<times> timer_queue) outcome" where
  "TimerAt E when cb s = TimerQueue_AddTimer E cb when 0 s"

definition TimerAfter :: "tq_env \<Rightarrow> int \<Rightarrow> nat \<Rightarrow> timer_queue \<Rightarrow> (timer_id \<times> timer_queue) outcome" where
  "TimerAfter E delayS cb s =
     (let (now, s1) = Now E s in TimerQueue_AddTimer E cb (add_time E now (word_of_int delayS)) 0 s1)"

definition TimerInterval :: "tq_env \<Rightarrow> int \<Rightarrow> nat \<Rightarrow> timer_queue \<Rightarrow> (timer_id \<times> timer_queue) outcome" where
  "TimerInterval E intervalS cb s =
     (let (now, s1) = Now E s in TimerQueue_AddTimer E cb now intervalS s1)"

definition TimerCancel :: "timer_id \<Rightarrow> timer_queue \<Rightarrow> timer_queue outcome" where
  "TimerCancel tid s = TimerQueue_Cancel tid s"

section \<open>The schedule\<close>

text \<open>
  \<open>entries h H\<close> and \<open>actives h H\<close> are what the two sets must contain when \<open>h\<close> is the heap and
  the timers of \<open>H\<close> are held elsewhere (being run, or in a posted task).
\<close>

definition entries :: "(uint64 \<Rightarrow> timer option) \<Rightarrow> uint64 set \<Rightarrow> (uint64 \<times> uint64) set" where
  "entries h H = {(t_expiration tm, p) | p tm. h p = Some tm \<and> p \<notin> H}"

definition actives :: "(uint64 \<Rightarrow> timer option) \<Rightarrow> uint64 set \<Rightarrow> (uint64 \<times> uint64) set" where
  "actives h H = {(p, t_sequence tm) | p tm. h p = Some tm \<and> p \<notin> H}"

definition scheduled ::
    "(uint64 \<Rightarrow> timer option) \<Rightarrow> uint64 set \<Rightarrow> (uint64 \<times> uint64) list \<Rightarrow> (uint64 \<times> uint64) list \<Rightarrow> bool" where
  "scheduled h H ts as \<longleftrightarrow>
     set_ok ts \<and> set_ok as \<and> set ts = entries h H \<and> set as = actives h H"

lemma entries_mem [simp]: "(t, p) \<in> entries h H \<longleftrightarrow> p \<notin> H \<and> (\<exists>tm. h p = Some tm \<and> t_expiration tm = t)"
  by (auto simp: entries_def)

lemma actives_mem [simp]: "(p, n) \<in> actives h H \<longleftrightarrow> p \<notin> H \<and> (\<exists>tm. h p = Some tm \<and> t_sequence tm = n)"
  by (auto simp: actives_def)

lemma entries_image: "entries h H = (\<lambda>p. (t_expiration (the (h p)), p)) ` (dom h - H)"
  by (force simp: entries_def)

lemma actives_image: "actives h H = (\<lambda>p. (p, t_sequence (the (h p)))) ` (dom h - H)"
  by (force simp: actives_def)

lemma scheduled_length:
  assumes "scheduled h H ts as"
  shows "length as = length ts"
proof -
  have "length ts = card (dom h - H)" "length as = card (dom h - H)"
    using assms by (auto simp: scheduled_def std.size_card entries_image actives_image
        intro!: card_image inj_onI)
  then show ?thesis by simp
qed

lemma scheduled_insert:
  assumes "scheduled h (insert p H) ts as" and "h p = Some tm" and "p \<notin> H"
  shows "scheduled h H (fst (set_insert (t_expiration tm, p) ts)) (fst (set_insert (p, t_sequence tm) as))"
proof -
  have "entries h H = insert (t_expiration tm, p) (entries h (insert p H))"
    and "actives h H = insert (p, t_sequence tm) (actives h (insert p H))"
    using assms(2,3) by (auto split: if_splits)
  then show ?thesis using assms(1) std.ins_ok by (auto simp: scheduled_def)
qed

lemma scheduled_erase:
  assumes "scheduled h H ts as" and "h p = Some tm" and "p \<notin> H"
  shows "scheduled (h(p := None)) H (fst (set_erase (t_expiration tm, p) ts)) (fst (set_erase (p, t_sequence tm) as))"
    and "(t_expiration tm, p) \<in> set ts" and "(p, t_sequence tm) \<in> set as"
proof -
  have "entries (h(p := None)) H = entries h H - {(t_expiration tm, p)}"
    and "actives (h(p := None)) H = actives h H - {(p, t_sequence tm)}"
    using assms(2,3) by (auto split: if_splits)
  then show "scheduled (h(p := None)) H (fst (set_erase (t_expiration tm, p) ts)) (fst (set_erase (p, t_sequence tm) as))"
    using assms(1) std.era_ok by (auto simp: scheduled_def)
  show "(t_expiration tm, p) \<in> set ts" "(p, t_sequence tm) \<in> set as"
    using assms by (auto simp: scheduled_def)
qed

lemma scheduled_held:
  assumes "scheduled h H ts as" and "p \<in> H"
  shows "scheduled (h(p := x)) H ts as"
proof -
  have "entries (h(p := x)) H = entries h H" and "actives (h(p := x)) H = actives h H"
    using assms(2) by (auto split: if_splits)
  then show ?thesis using assms(1) by (simp add: scheduled_def)
qed

lemma scheduled_hold_fresh: "scheduled h H ts as \<Longrightarrow> h p = None \<Longrightarrow> scheduled h (insert p H) ts as"
proof -
  assume "scheduled h H ts as" and p: "h p = None"
  moreover have "entries h (insert p H) = entries h H" and "actives h (insert p H) = actives h H"
    using p by (auto split: if_splits)
  ultimately show ?thesis by (simp add: scheduled_def)
qed

lemma scheduled_erase_fresh:
  assumes "scheduled h H ts as" and "h p = None"
  shows "scheduled h (H - {p}) ts as"
proof -
  have "entries h (H - {p}) = entries h H" "actives h (H - {p}) = actives h H"
    using assms(2) by (auto split: if_splits)
  then show ?thesis using assms(1) by (simp add: scheduled_def)
qed

section \<open>Invariant\<close>

fun posted_ptrs :: "tq_task list \<Rightarrow> uint64 list" where
  "posted_ptrs [] = []"
| "posted_ptrs (AddTask p # ts) = p # posted_ptrs ts"
| "posted_ptrs (CancelTask tid # ts) = posted_ptrs ts"

lemma posted_ptrs_append [simp]: "posted_ptrs (xs @ ys) = posted_ptrs xs @ posted_ptrs ys"
  by (induction xs rule: posted_ptrs.induct) simp_all

text \<open>
  Every timer object is in the two sets, in exactly one posted task, or in \<open>X\<close>, the timers
  whose callbacks are being run. So no timer is lost and none is freed while it is in use.
\<close>

definition held :: "uint64 set \<Rightarrow> timer_queue \<Rightarrow> uint64 set" where
  "held X s = X \<union> set (posted_ptrs (posted s))"

definition tq_inv :: "uint64 set \<Rightarrow> timer_queue \<Rightarrow> bool" where
  "tq_inv X s \<longleftrightarrow>
     scheduled (theap s) (held X s) (timers s) (active_timers s) \<and>
     held X s \<subseteq> dom (theap s) \<and> X \<inter> set (posted_ptrs (posted s)) = {} \<and>
     distinct (posted_ptrs (posted s)) \<and> UINTPTR_MAX \<notin> dom (theap s) \<and> set_ok (canceling_timers s)"

definition alloc_ok :: "tq_env \<Rightarrow> bool" where
  "alloc_ok E \<longleftrightarrow> (\<forall>h p. alloc E h = Some p \<longrightarrow> p \<notin> dom h \<and> p \<noteq> UINTPTR_MAX)"

lemma ctor_tq_inv: "tq_inv {} TimerQueue_ctor"
  by (simp add: tq_inv_def TimerQueue_ctor_def held_def scheduled_def set_ok_def entries_def actives_def)

lemma tq_inv_length: "tq_inv X s \<Longrightarrow> length (active_timers s) = length (timers s)"
  by (auto simp: tq_inv_def dest: scheduled_length)

lemma tq_inv_frame:
  assumes "tq_inv X s" and "theap s' = theap s" and "timers s' = timers s"
    and "active_timers s' = active_timers s" and "posted s' = posted s" and "set_ok (canceling_timers s')"
  shows "tq_inv X s'"
  using assms by (simp add: tq_inv_def held_def)

lemma succeeds_tq_deref [simp]: "succeeds (tq_deref p s) P \<longleftrightarrow> (\<exists>tm. theap s p = Some tm \<and> P tm)"
  by (auto simp: tq_deref_def split: option.splits)

lemma tq_deref_Some: "theap s p = Some tm \<Longrightarrow> tq_deref p s = Inr tm"
  by (simp add: tq_deref_def)

section \<open>Operations keep the invariant\<close>

text \<open>What the operations on the loop thread leave alone.\<close>

definition tq_frame :: "uint64 set \<Rightarrow> timer_queue \<Rightarrow> timer_queue \<Rightarrow> bool" where
  "tq_frame X s s' \<longleftrightarrow>
     on_loop s' = on_loop s \<and> posted s' = posted s \<and>
     calling_expired_timers s' = calling_expired_timers s \<and> (\<forall>p \<in> held X s. theap s' p = theap s p)"

lemma tq_frame_refl [simp]: "tq_frame X s s"
  by (simp add: tq_frame_def)

lemma tq_frame_trans: "tq_frame X s t \<Longrightarrow> tq_frame X t u \<Longrightarrow> tq_frame X s u"
  by (simp add: tq_frame_def held_def)

lemma Insert_ok:
  assumes "tq_inv (insert p X) s" and "p \<notin> X"
  shows "succeeds (TimerQueue_Insert p s) (\<lambda>(earliest, s').
      \<exists>tm. theap s p = Some tm \<and> tq_inv X s' \<and>
      earliest = (timers s = [] \<or> t_expiration tm < fst (hd (timers s))) \<and>
      set (timers s') = insert (t_expiration tm, p) (set (timers s)) \<and>
      s' = s\<lparr>timers := timers s', active_timers := active_timers s'\<rparr>)"
proof -
  from assms obtain tm where tm: "theap s p = Some tm" by (auto simp: tq_inv_def held_def)
  have "p \<notin> set (posted_ptrs (posted s))" using assms(1) by (auto simp: tq_inv_def)
  then have "p \<notin> held X s" using assms(2) by (simp add: held_def)
  moreover have "held (insert p X) s = insert p (held X s)" by (simp add: held_def)
  ultimately have n: "scheduled (theap s) (held X s)
      (fst (set_insert (t_expiration tm, p) (timers s)))
      (fst (set_insert (p, t_sequence tm) (active_timers s)))"
    using assms(1) tm by (auto simp: tq_inv_def intro: scheduled_insert)
  have "set (fst (set_insert (t_expiration tm, p) (timers s))) = insert (t_expiration tm, p) (set (timers s))"
    using assms(1) std.ins_ok by (auto simp: tq_inv_def scheduled_def)
  then show ?thesis
    using assms tm n tq_inv_length [OF assms(1)] scheduled_length [OF n]
    by (auto simp: TimerQueue_Insert_def tq_deref_Some tq_inv_def held_def Let_def)
qed

lemma ResetTimerfd_eq:
  "ResetTimerfd E t s = s\<lparr>ticks := Suc (ticks s),
     armed := timerfd_settime (clock_at E (ticks s)) (HowManyTimeLeft t (clock_at E (ticks s))) (armed s)\<rparr>"
  by (simp add: ResetTimerfd_def Now_def)

lemma AddTimerInLoop_ok:
  assumes "tq_inv (insert p X) s" and "p \<notin> X" and "on_loop s" and "theap s p = Some tm"
  shows "succeeds (AddTimerInLoop E p s) (\<lambda>s'. tq_inv X s' \<and> tq_frame (insert p X) s s' \<and>
      theap s' = theap s \<and> canceling_timers s' = canceling_timers s \<and>
      set (timers s') = insert (t_expiration tm, p) (set (timers s)))"
proof -
  obtain e s1 where 1: "TimerQueue_Insert p s = Inr (e, s1)" "tq_inv X s1"
      "set (timers s1) = insert (t_expiration tm, p) (set (timers s))"
      "s1 = s\<lparr>timers := timers s1, active_timers := active_timers s1\<rparr>"
    using Insert_ok [OF assms(1,2)] assms(4) by (auto elim!: succeedsE)
  have f: "theap s1 = theap s" "on_loop s1 = on_loop s" "posted s1 = posted s"
      "calling_expired_timers s1 = calling_expired_timers s" "canceling_timers s1 = canceling_timers s"
    by (subst 1(4); simp)+
  have "tq_inv X (ResetTimerfd E t s1)" for t
    using 1(2) by (rule tq_inv_frame) (use 1(2) in \<open>simp_all add: ResetTimerfd_eq tq_inv_def\<close>)
  then show ?thesis using assms(3,4) 1 f
    by (simp add: AddTimerInLoop_def tq_deref_Some tq_frame_def ResetTimerfd_eq)
qed

lemma CancelInLoop_ok:
  assumes "tq_inv X s" and "on_loop s"
  shows "succeeds (CancelInLoop tid s) (\<lambda>s'. tq_inv X s' \<and> tq_frame X s s' \<and> set (timers s') \<subseteq> set (timers s) \<and>
      theap s' \<subseteq>\<^sub>m theap s \<and> ticks s' = ticks s \<and> armed s' = armed s)"
proof (cases "(id_timer tid, id_sequence tid) \<in> set (active_timers s)")
  case True
  let ?p = "id_timer tid"
  obtain tm where tm: "theap s ?p = Some tm" "t_sequence tm = id_sequence tid" and h: "?p \<notin> held X s"
    using True assms(1) by (auto simp: tq_inv_def scheduled_def)
  have sch: "scheduled (theap s) (held X s) (timers s) (active_timers s)" using assms(1) by (simp add: tq_inv_def)
  note e = scheduled_erase [OF sch tm(1) h]
  have n: "snd (set_erase (t_expiration tm, ?p) (timers s)) = 1" using e(2) by (simp add: set_erase_def)
  have sub: "set (fst (set_erase (t_expiration tm, ?p) (timers s))) \<subseteq> set (timers s)"
    using sch std.era_ok by (auto simp: scheduled_def)
  show ?thesis
    using assms True tm h e n sub tq_inv_length [OF assms(1)] scheduled_length [OF e(1)]
    by (auto simp: CancelInLoop_def tq_deref_Some tq_inv_def held_def tq_frame_def map_le_def Let_def
        split: prod.splits)
next
  case False
  then show ?thesis using assms tq_inv_length [OF assms(1)] std.ins_ok
    by (auto simp: CancelInLoop_def tq_inv_def held_def tq_frame_def)
qed

lemma Cancel_ok:
  assumes "tq_inv X s" and "on_loop s"
  shows "succeeds (TimerQueue_Cancel tid s) (\<lambda>s'. tq_inv X s' \<and> tq_frame X s s')"
  using assms(2) succeeds_mono [OF CancelInLoop_ok [OF assms, of tid]] by (simp add: TimerQueue_Cancel_def)

text \<open>A new timer is held by its creator until it is inserted.\<close>

lemma tq_inv_new:
  assumes "tq_inv X s" and "p \<notin> dom (theap s)" and "p \<noteq> UINTPTR_MAX"
  shows "tq_inv (insert p X) (s\<lparr>theap := (theap s)(p \<mapsto> tm), num_created := k\<rparr>)" and "p \<notin> held X s"
proof -
  show "p \<notin> held X s" using assms(1,2) by (auto simp: tq_inv_def)
  have "scheduled (theap s) (insert p (held X s)) (timers s) (active_timers s)"
    using assms by (intro scheduled_hold_fresh) (auto simp: tq_inv_def domIff)
  then have "scheduled ((theap s)(p \<mapsto> tm)) (insert p (held X s)) (timers s) (active_timers s)"
    by (rule scheduled_held) simp
  then show "tq_inv (insert p X) (s\<lparr>theap := (theap s)(p \<mapsto> tm), num_created := k\<rparr>)"
    using assms \<open>p \<notin> held X s\<close> by (auto simp: tq_inv_def held_def)
qed

lemma AddTimer_ok:
  assumes "tq_inv X s" and "on_loop s" and "alloc_ok E"
  shows "safely (TimerQueue_AddTimer E cb when iv s) (\<lambda>(tid, s'). tq_inv X s' \<and> tq_frame X s s' \<and>
      id_timer tid \<notin> dom (theap s) \<and> id_sequence tid = num_created s \<and>
      theap s' = (theap s)(id_timer tid \<mapsto> Timer_ctor cb when iv (num_created s)) \<and>
      canceling_timers s' = canceling_timers s \<and>
      set (timers s') = insert (when, id_timer tid) (set (timers s)))"
proof (cases "alloc E (theap s)")
  case None
  then show ?thesis by (simp add: TimerQueue_AddTimer_def AddTimer_post_def)
next
  case (Some p)
  then have p: "p \<notin> dom (theap s)" "p \<noteq> UINTPTR_MAX" using assms(3) by (auto simp: alloc_ok_def)
  let ?tm = "Timer_ctor cb when iv (num_created s)"
  let ?s = "s\<lparr>theap := (theap s)(p \<mapsto> ?tm), num_created := num_created s + 1\<rparr>"
  note n = tq_inv_new(1) [OF assms(1) p, where tm = ?tm and k = "num_created s + 1"] tq_inv_new(2) [OF assms(1) p]
  have "p \<notin> X" using n(2) by (simp add: held_def)
  then obtain s2 where s2: "AddTimerInLoop E p ?s = Inr s2" "tq_inv X s2" "tq_frame (insert p X) ?s s2"
      "theap s2 = theap ?s" "canceling_timers s2 = canceling_timers s"
      "set (timers s2) = insert (t_expiration ?tm, p) (set (timers s))"
    using AddTimerInLoop_ok [OF n(1), where tm = ?tm and E = E] assms(2) by (auto elim!: succeedsE)
  have "tq_frame X s s2" using s2(3,4) n(2) by (auto simp: tq_frame_def held_def)
  then show ?thesis using Some assms(2) s2 p
    by (simp add: TimerQueue_AddTimer_def AddTimer_post_def AddTimer_ret_def tq_deref_Some Let_def)
      (simp add: Timer_ctor_def)
qed

lemma tq_frame_on_loop: "tq_frame X s s' \<Longrightarrow> on_loop s' = on_loop s"
  by (simp add: tq_frame_def)

lemma safely_frame_trans:
  assumes "safely m (\<lambda>s1. tq_inv X s1 \<and> tq_frame X s s1)"
    and "\<And>s1. tq_inv X s1 \<Longrightarrow> tq_frame X s s1 \<Longrightarrow> safely (f s1) (\<lambda>s2. tq_inv X s2 \<and> tq_frame X s1 s2)"
  shows "safely (rbind m f) (\<lambda>s2. tq_inv X s2 \<and> tq_frame X s s2)"
  unfolding safely_rbind
proof (rule safely_mono [OF assms(1)])
  fix s1 assume "tq_inv X s1 \<and> tq_frame X s s1"
  then show "safely (f s1) (\<lambda>s2. tq_inv X s2 \<and> tq_frame X s s2)"
    by (intro safely_mono [OF assms(2) [of s1]]) (auto intro: tq_frame_trans)
qed

lemma run_ops_ok:
  assumes "tq_inv X s" and "on_loop s" and "alloc_ok E"
  shows "safely (run_ops E ops s) (\<lambda>s'. tq_inv X s' \<and> tq_frame X s s')"
  using assms
proof (induction ops arbitrary: s)
  case (Cons oper ops)
  show ?case
  proof (cases oper)
    case (OpAdd cb w iv)
    have "safely (rbind (TimerQueue_AddTimer E cb w iv s) (\<lambda>(_, s1). Inr s1)) (\<lambda>s1. tq_inv X s1 \<and> tq_frame X s s1)"
      unfolding safely_rbind by (rule safely_mono [OF AddTimer_ok [OF Cons.prems]]) auto
    then have "safely (rbind (rbind (TimerQueue_AddTimer E cb w iv s) (\<lambda>(_, s1). Inr s1)) (run_ops E ops))
        (\<lambda>s2. tq_inv X s2 \<and> tq_frame X s s2)"
      by (rule safely_frame_trans) (use Cons in \<open>simp add: tq_frame_on_loop\<close>)
    then show ?thesis by (simp add: OpAdd case_prod_unfold)
  next
    case (OpCancel tid)
    show ?thesis unfolding OpCancel run_ops.simps
      by (rule safely_frame_trans [OF succeeds_safely [OF Cancel_ok]]) (use Cons in \<open>simp_all add: tq_frame_on_loop\<close>)
  qed
qed simp

lemma run_expired_ok:
  assumes "tq_inv X s" and "on_loop s" and "alloc_ok E" and "snd ` set es \<subseteq> X"
  shows "safely (run_expired E es s) (\<lambda>s'. tq_inv X s' \<and> tq_frame X s s')"
  using assms
proof (induction es arbitrary: s)
  case (Cons e es)
  obtain t p where e: "e = (t, p)" by (cases e)
  then obtain tm where tm: "theap s p = Some tm" using Cons.prems by (auto simp: tq_inv_def held_def)
  have "safely (rbind (run_ops E (script E (t_callback tm) s) s) (run_expired E es))
      (\<lambda>s2. tq_inv X s2 \<and> tq_frame X s s2)"
    by (rule safely_frame_trans [OF run_ops_ok [OF Cons.prems(1-3)]])
      (use Cons in \<open>simp add: tq_frame_on_loop\<close>)
  then show ?case by (simp add: e tm tq_deref_Some)
qed simp

lemma erase_active_ok:
  assumes "set_ok (active_timers s)" and "\<forall>(t, p) \<in> set es. p \<in> dom (theap s)"
  shows "succeeds (erase_active es s) (\<lambda>s'. s' = s\<lparr>active_timers := active_timers s'\<rparr> \<and> set_ok (active_timers s') \<and>
      set (active_timers s') = set (active_timers s) - (\<lambda>(t, p). (p, t_sequence (the (theap s p)))) ` set es)"
  using assms
proof (induction es s rule: erase_active.induct)
  case (2 t p es s)
  then obtain tm where tm: "theap s p = Some tm" by auto
  let ?s = "s\<lparr>active_timers := fst (set_erase (p, t_sequence tm) (active_timers s))\<rparr>"
  have e: "set_ok (active_timers ?s)" "set (active_timers ?s) = set (active_timers s) - {(p, t_sequence tm)}"
    using 2(2) std.era_ok by auto
  have "succeeds (erase_active es ?s) (\<lambda>s'. s' = ?s\<lparr>active_timers := active_timers s'\<rparr> \<and> set_ok (active_timers s') \<and>
      set (active_timers s') = set (active_timers ?s) - (\<lambda>(t, p). (p, t_sequence (the (theap ?s p)))) ` set es)"
    using 2 e(1) tm by auto
  then show ?case using tm e(2) by (auto simp: tq_deref_Some elim!: succeedsE)
qed simp

text \<open>Below the sentry \<^verbatim>\<open>(now, UINTPTR_MAX)\<close> are exactly the entries that are due.\<close>

lemma below_sentry: "p \<noteq> UINTPTR_MAX \<Longrightarrow> (t :: uint64, p) < (now, UINTPTR_MAX) \<longleftrightarrow> t \<le> now"
proof -
  assume "p \<noteq> UINTPTR_MAX"
  then have "p < UINTPTR_MAX" by (metis UINTPTR_MAX_def order_le_less word_n1_ge)
  then show ?thesis by (auto simp: less_prod_def intro: order_less_imp_le)
qed

lemma due_split:
  assumes "tq_inv X s"
  shows "before_bound (now, UINTPTR_MAX) (timers s) = filter (\<lambda>(t, p). t \<le> now) (timers s)"
    and "from_bound (now, UINTPTR_MAX) (timers s) = filter (\<lambda>(t, p). now < t) (timers s)"
proof -
  have ok: "set_ok (timers s)" and "\<forall>(t, p) \<in> set (timers s). p \<noteq> UINTPTR_MAX"
    using assms by (auto simp: tq_inv_def scheduled_def)
  then have e: "\<forall>e \<in> set (timers s). (e < (now, UINTPTR_MAX)) = (fst e \<le> now)"
    using below_sentry by (fastforce simp del: less_prod_simp)
  have "\<forall>e \<in> set (timers s). ((now, UINTPTR_MAX) \<le> e) = (now < fst e)"
    using e by (metis linorder_not_less)
  then show "from_bound (now, UINTPTR_MAX) (timers s) = filter (\<lambda>(t, p). now < t) (timers s)"
    unfolding std.front_filter [OF ok] case_prod_unfold by (intro filter_cong refl) blast
  show "before_bound (now, UINTPTR_MAX) (timers s) = filter (\<lambda>(t, p). t \<le> now) (timers s)"
    unfolding std.front_filter [OF ok] case_prod_unfold using e by (intro filter_cong refl) blast
qed

lemma scheduled_hold_due:
  assumes "scheduled h H ts as" and "set_ok ts'" and "set_ok as'"
    and "set ts' = set ts - D" and "D \<subseteq> set ts" and "set as' = set as - (\<lambda>(t, p). (p, t_sequence (the (h p)))) ` D"
  shows "scheduled h (H \<union> snd ` D) ts' as'"
proof -
  have D: "\<And>t p. (t, p) \<in> D \<Longrightarrow> \<exists>tm. h p = Some tm \<and> t_expiration tm = t \<and> p \<notin> H"
    using assms(1,5) by (auto simp: scheduled_def)
  have im: "p \<in> snd ` D \<longleftrightarrow> (\<exists>t. (t, p) \<in> D)" for p by force
  have im2: "(p, n) \<in> (\<lambda>(t, p). (p, t_sequence (the (h p)))) ` D \<longleftrightarrow> (\<exists>t. (t, p) \<in> D \<and> n = t_sequence (the (h p)))" for p n
    by force
  have 1: "entries h (H \<union> snd ` D) = entries h H - D"
  proof (rule set_eqI, clarify)
    fix t p
    show "((t, p) \<in> entries h (H \<union> snd ` D)) = ((t, p) \<in> entries h H - D)"
      using D [of _ p] by (auto simp: im)
  qed
  have 2: "actives h (H \<union> snd ` D) = actives h H - (\<lambda>(t, p). (p, t_sequence (the (h p)))) ` D"
  proof (rule set_eqI, clarify)
    fix p n
    show "((p, n) \<in> actives h (H \<union> snd ` D)) = ((p, n) \<in> actives h H - (\<lambda>(t, p). (p, t_sequence (the (h p)))) ` D)"
      using D [of _ p] by (auto simp: im im2)
  qed
  show ?thesis unfolding scheduled_def 1 2 using assms by (auto simp: scheduled_def)
qed

lemma getExpired_ok:
  assumes "tq_inv X s"
  shows "succeeds (getExpired now s) (\<lambda>(expired, s').
      expired = filter (\<lambda>(t, p). t \<le> now) (timers s) \<and> timers s' = filter (\<lambda>(t, p). now < t) (timers s) \<and>
      s' = s\<lparr>timers := timers s', active_timers := active_timers s'\<rparr> \<and>
      tq_inv (X \<union> snd ` set expired) s' \<and> X \<inter> snd ` set expired = {} \<and> distinct (map snd expired))"
proof -
  let ?D = "filter (\<lambda>(t, p). t \<le> now) (timers s)" and ?R = "filter (\<lambda>(t, p). now < t) (timers s)"
  have sch: "scheduled (theap s) (held X s) (timers s) (active_timers s)" using assms by (simp add: tq_inv_def)
  have hd: "?R = [] \<or> now < fst (hd ?R)"
    using hd_in_set [of ?R] by (cases "?R = []") auto
  obtain s1 where s1: "erase_active ?D (s\<lparr>timers := ?R\<rparr>) = Inr s1"
      "s1 = s\<lparr>timers := ?R, active_timers := active_timers s1\<rparr>" "set_ok (active_timers s1)"
      "set (active_timers s1) = set (active_timers s) - (\<lambda>(t, p). (p, t_sequence (the (theap s p)))) ` set ?D"
    using erase_active_ok [of "s\<lparr>timers := ?R\<rparr>" ?D] sch by (force simp: scheduled_def elim!: succeedsE)
  have f: "theap s1 = theap s" "posted s1 = posted s" "canceling_timers s1 = canceling_timers s" "timers s1 = ?R"
    by (subst s1(2); simp)+
  have "set_ok ?R" using sch by (simp add: scheduled_def set_ok_def sorted_filter [where f = id, simplified])
  then have n: "scheduled (theap s) (held X s \<union> snd ` set ?D) ?R (active_timers s1)"
    using sch s1(3,4) by (intro scheduled_hold_due [OF sch]) auto
  have "inj_on snd (set (timers s))" using sch by (force simp: scheduled_def inj_on_def)
  then have dist: "distinct (map snd ?D)"
    using sch by (auto simp: scheduled_def set_ok_def distinct_map intro: inj_on_subset)
  have disj: "snd ` set ?D \<inter> held X s = {}" "snd ` set ?D \<subseteq> dom (theap s)"
    using sch by (auto simp: scheduled_def)
  have "tq_inv (X \<union> snd ` set ?D) s1"
    using assms n disj f by (auto simp: tq_inv_def held_def Un_ac)
  then show ?thesis
    using s1 f hd dist disj tq_inv_length [OF assms] scheduled_length [OF n]
    by (auto simp: getExpired_def due_split [OF assms] held_def Let_def)
qed

lemma tq_inv_free:
  assumes "tq_inv (insert p X) s" and "p \<notin> X"
  shows "tq_inv X (s\<lparr>theap := (theap s)(p := None)\<rparr>)"
proof -
  have h: "held (insert p X) s - {p} = held X s"
    using assms by (auto simp: held_def tq_inv_def)
  have "scheduled ((theap s)(p := None)) (held (insert p X) s) (timers s) (active_timers s)"
    using assms by (intro scheduled_held) (auto simp: tq_inv_def held_def)
  then have "scheduled ((theap s)(p := None)) (held X s) (timers s) (active_timers s)"
    using scheduled_erase_fresh [where p = p] h by fastforce
  then show ?thesis using assms h by (auto simp: tq_inv_def held_def)
qed

lemma tq_inv_touch:
  assumes "tq_inv X s" and "p \<in> X"
  shows "tq_inv X (s\<lparr>theap := (theap s)(p \<mapsto> tm)\<rparr>)"
  using assms scheduled_held by (fastforce simp: tq_inv_def held_def)

text \<open>What \<^verbatim>\<open>Reset\<close> makes of one expired timer.\<close>

definition reset_timer :: "tq_env \<Rightarrow> uint64 \<Rightarrow> (uint64 \<times> uint64) list \<Rightarrow> uint64 \<Rightarrow> timer \<Rightarrow> timer option" where
  "reset_timer E now cancelled p tm =
     (if t_repeat tm \<and> (p, t_sequence tm) \<notin> set cancelled then Some (Timer_Restart E now tm) else None)"

lemma Reset_loop_ok:
  assumes "tq_inv (X \<union> snd ` set es) s" and "X \<inter> snd ` set es = {}" and "distinct (map snd es)"
  shows "succeeds (Reset_loop E es now s) (\<lambda>s'. tq_inv X s' \<and>
      (\<forall>p. theap s' p = (if p \<in> snd ` set es then Option.bind (theap s p) (reset_timer E now (canceling_timers s) p)
                         else theap s p)) \<and>
      s' = s\<lparr>theap := theap s', timers := timers s', active_timers := active_timers s'\<rparr>)"
  using assms
proof (induction es arbitrary: s)
  case (Cons e es)
  obtain t p where e: "e = (t, p)" by (cases e)
  have inv: "tq_inv (insert p (X \<union> snd ` set es)) s" and p: "p \<notin> X \<union> snd ` set es"
    using Cons.prems e by auto
  then obtain tm where tm: "theap s p = Some tm" by (auto simp: tq_inv_def held_def)
  let ?r = "reset_timer E now (canceling_timers s) p tm"
  have step: "succeeds (Reset_loop E es now s1) (\<lambda>s'. tq_inv X s' \<and>
      (\<forall>q. theap s' q = (if q \<in> snd ` set (e # es) then Option.bind (theap s q) (reset_timer E now (canceling_timers s) q)
                         else theap s q)) \<and>
      s' = s\<lparr>theap := theap s', timers := timers s', active_timers := active_timers s'\<rparr>)"
    if "tq_inv (X \<union> snd ` set es) s1" "theap s1 = (theap s)(p := ?r)"
      "s1 = s\<lparr>theap := theap s1, timers := timers s1, active_timers := active_timers s1\<rparr>" for s1
  proof -
    have c: "canceling_timers s1 = canceling_timers s" by (subst that(3)) simp
    show ?thesis
    proof (rule succeeds_mono [OF Cons.IH [OF that(1)]])
      fix s' assume s': "tq_inv X s' \<and> (\<forall>q. theap s' q = (if q \<in> snd ` set es
          then Option.bind (theap s1 q) (reset_timer E now (canceling_timers s1) q) else theap s1 q)) \<and>
          s' = s1\<lparr>theap := theap s', timers := timers s', active_timers := active_timers s'\<rparr>"
      then have "s' = s\<lparr>theap := theap s', timers := timers s', active_timers := active_timers s'\<rparr>"
        using that(3) by (cases s; cases s1; cases s') simp
      then show "tq_inv X s' \<and> (\<forall>q. theap s' q = (if q \<in> snd ` set (e # es)
          then Option.bind (theap s q) (reset_timer E now (canceling_timers s) q) else theap s q)) \<and>
          s' = s\<lparr>theap := theap s', timers := timers s', active_timers := active_timers s'\<rparr>"
        using s' p tm c by (auto simp: that(2) e)
    qed (use Cons.prems in auto)
  qed
  show ?case
  proof (cases "?r")
    case None
    then show ?thesis using tm step [OF tq_inv_free [OF inv p]]
      by (auto simp: e tq_deref_Some reset_timer_def split: if_splits)
  next
    case (Some tm')
    then have r: "t_repeat tm" "(p, t_sequence tm) \<notin> set (canceling_timers s)" "tm' = Timer_Restart E now tm"
      by (auto simp: reset_timer_def split: if_splits)
    let ?s = "s\<lparr>theap := (theap s)(p \<mapsto> tm')\<rparr>"
    have "tq_inv (insert p (X \<union> snd ` set es)) ?s" by (rule tq_inv_touch [OF inv]) simp
    then obtain e1 s1 where s1: "TimerQueue_Insert p ?s = Inr (e1, s1)" "tq_inv (X \<union> snd ` set es) s1"
        "s1 = ?s\<lparr>timers := timers s1, active_timers := active_timers s1\<rparr>"
      using Insert_ok [OF _ p, of ?s] by (auto simp only: succeeds_ex split: prod.splits)
    have "theap s1 = (theap s)(p \<mapsto> tm')" by (subst s1(3)) simp
    then show ?thesis using s1 tm r step [OF s1(2)]
      by (simp add: e tq_deref_Some Some)
  qed
qed simp

lemma Reset_ok:
  assumes "tq_inv (snd ` set es) s" and "distinct (map snd es)"
  shows "succeeds (TimerQueue_Reset E es now s) (\<lambda>s'. tq_inv {} s' \<and>
      (\<forall>p. theap s' p = (if p \<in> snd ` set es then Option.bind (theap s p) (reset_timer E now (canceling_timers s) p)
                         else theap s p)) \<and>
      canceling_timers s' = canceling_timers s \<and> posted s' = posted s \<and> on_loop s' = on_loop s \<and>
      calling_expired_timers s' = calling_expired_timers s \<and>
      (case timers s' of [] \<Rightarrow> True | (t, p) # _ \<Rightarrow> \<exists>u. s' = ResetTimerfd E t u))"
proof -
  obtain s1 where s1: "Reset_loop E es now s = Inr s1" "tq_inv {} s1"
      "\<forall>p. theap s1 p = (if p \<in> snd ` set es then Option.bind (theap s p) (reset_timer E now (canceling_timers s) p)
                         else theap s p)"
      "s1 = s\<lparr>theap := theap s1, timers := timers s1, active_timers := active_timers s1\<rparr>"
    using Reset_loop_ok [of "{}" es s E now] assms by (auto elim!: succeedsE)
  have f: "canceling_timers s1 = canceling_timers s" "posted s1 = posted s" "on_loop s1 = on_loop s"
      "calling_expired_timers s1 = calling_expired_timers s"
    by (subst s1(4); simp)+
  show ?thesis
  proof (cases "timers s1")
    case Nil
    then show ?thesis using s1 f by (simp add: TimerQueue_Reset_def)
  next
    case (Cons e es')
    obtain t p where e: "e = (t, p)" by (cases e)
    have "(t, p) \<in> set (timers s1)" using Cons e by simp
    then obtain tm where tm: "theap s1 p = Some tm" "t_expiration tm = t"
      using s1(2) by (auto simp: tq_inv_def scheduled_def)
    have "tq_inv {} (ResetTimerfd E t s1)"
      using s1(2) by (rule tq_inv_frame) (use s1(2) in \<open>simp_all add: ResetTimerfd_eq tq_inv_def\<close>)
    moreover have "timers (ResetTimerfd E t s1) = (t, p) # es'" by (simp add: ResetTimerfd_eq Cons e)
    ultimately show ?thesis using s1 f tm Cons e
      by (auto simp: TimerQueue_Reset_def tq_deref_Some ResetTimerfd_eq)
  qed
qed

lemma HandleRead_ok:
  assumes "tq_inv {} s" and "on_loop s" and "alloc_ok E"
  defines "now \<equiv> clock_at E (ticks s)"
  defines "due \<equiv> filter (\<lambda>(t, p). t \<le> now) (timers s)"
  shows "safely (TimerQueue_HandleRead E s) (\<lambda>s'. tq_inv {} s' \<and> on_loop s' \<and> posted s' = posted s \<and>
      \<not> calling_expired_timers s' \<and>
      (\<forall>p \<in> snd ` set due. theap s' p = Option.bind (theap s p) (reset_timer E now (canceling_timers s') p)) \<and>
      (\<forall>p \<in> set (posted_ptrs (posted s)). theap s' p = theap s p) \<and>
      (case timers s' of [] \<Rightarrow> True | (t, p) # _ \<Rightarrow> \<exists>u. s' = ResetTimerfd E t u))"
proof -
  let ?s1 = "ReadTimer now (s\<lparr>ticks := Suc (ticks s)\<rparr>)"
  have "tq_inv {} ?s1"
    using assms(1) by (rule tq_inv_frame) (use assms(1) in \<open>simp_all add: ReadTimer_def tq_inv_def\<close>)
  then obtain s2 where s2: "getExpired now ?s1 = Inr (due, s2)" "tq_inv (snd ` set due) s2" "distinct (map snd due)"
      "s2 = ?s1\<lparr>timers := timers s2, active_timers := active_timers s2\<rparr>"
    using getExpired_ok [of "{}" ?s1 now] by (auto simp: due_def ReadTimer_def elim!: succeedsE)
  have f2: "theap s2 = theap s" "posted s2 = posted s" "on_loop s2 = on_loop s" "canceling_timers s2 = canceling_timers s"
    by (subst s2(4); simp add: ReadTimer_def)+
  let ?s3 = "s2\<lparr>calling_expired_timers := True, canceling_timers := []\<rparr>"
  have inv3: "tq_inv (snd ` set due) ?s3"
    using s2(2) by (rule tq_inv_frame) (simp_all add: set_ok_def)
  have "safely (run_expired E due ?s3) (\<lambda>s4. succeeds (TimerQueue_Reset E due now (s4\<lparr>calling_expired_timers := False\<rparr>))
      (\<lambda>s'. tq_inv {} s' \<and> on_loop s' \<and> posted s' = posted s \<and> \<not> calling_expired_timers s' \<and>
        (\<forall>p \<in> snd ` set due. theap s' p = Option.bind (theap s p) (reset_timer E now (canceling_timers s') p)) \<and>
        (\<forall>p \<in> set (posted_ptrs (posted s)). theap s' p = theap s p) \<and>
        (case timers s' of [] \<Rightarrow> True | (t, p) # _ \<Rightarrow> \<exists>u. s' = ResetTimerfd E t u)))"
  proof (rule safely_mono [OF run_expired_ok [OF inv3 _ assms(3) subset_refl]])
    show "on_loop ?s3" using assms(2) f2 by simp
    fix s4 assume "tq_inv (snd ` set due) s4 \<and> tq_frame (snd ` set due) ?s3 s4"
    then have inv4: "tq_inv (snd ` set due) s4" and f4: "tq_frame (snd ` set due) ?s3 s4" by auto
    have h: "\<forall>p \<in> snd ` set due \<union> set (posted_ptrs (posted s)). theap s4 p = theap s p" "posted s4 = posted s" "on_loop s4"
      using f4 f2 assms(2) by (auto simp: tq_frame_def held_def)
    have d: "snd ` set due \<inter> set (posted_ptrs (posted s)) = {}"
      using inv4 h(2) by (simp add: tq_inv_def)
    let ?s4 = "s4\<lparr>calling_expired_timers := False\<rparr>"
    have "tq_inv (snd ` set due) ?s4"
      using inv4 by (rule tq_inv_frame) (use inv4 in \<open>simp_all add: tq_inv_def\<close>)
    from Reset_ok [OF this s2(3), of E now]
    show "succeeds (TimerQueue_Reset E due now ?s4)
      (\<lambda>s'. tq_inv {} s' \<and> on_loop s' \<and> posted s' = posted s \<and> \<not> calling_expired_timers s' \<and>
        (\<forall>p \<in> snd ` set due. theap s' p = Option.bind (theap s p) (reset_timer E now (canceling_timers s') p)) \<and>
        (\<forall>p \<in> set (posted_ptrs (posted s)). theap s' p = theap s p) \<and>
        (case timers s' of [] \<Rightarrow> True | (t, p) # _ \<Rightarrow> \<exists>u. s' = ResetTimerfd E t u))"
      by (rule succeeds_mono) (use h d in auto)
  qed
  then show ?thesis using assms(2) s2(1)
    by (simp add: TimerQueue_HandleRead_def Now_def now_def Let_def)
      (erule safely_mono, rule succeeds_safely, assumption)
qed

lemma run_posted_ok:
  assumes "tq_inv {} s" and "on_loop s"
  shows "succeeds (run_posted E s) (\<lambda>s'. tq_inv {} s' \<and> on_loop s' \<and> calling_expired_timers s' = calling_expired_timers s)"
proof (cases "posted s")
  case Nil
  then show ?thesis using assms by (simp add: run_posted_def)
next
  case (Cons k ts)
  show ?thesis
  proof (cases k)
    case (AddTask p)
    have inv: "tq_inv {p} (s\<lparr>posted := ts\<rparr>)"
      using assms(1) Cons AddTask by (auto simp: tq_inv_def held_def)
    then obtain tm where "theap (s\<lparr>posted := ts\<rparr>) p = Some tm" by (auto simp: tq_inv_def held_def)
    from AddTimerInLoop_ok [OF inv _ _ this, of E] show ?thesis
      using assms(2) Cons AddTask by (auto simp: run_posted_def tq_frame_def elim: succeeds_mono)
  next
    case (CancelTask tid)
    have "tq_inv {} (s\<lparr>posted := ts\<rparr>)"
      using assms(1) Cons CancelTask by (auto simp: tq_inv_def held_def)
    from CancelInLoop_ok [OF this, of tid] show ?thesis
      using assms(2) Cons CancelTask by (auto simp: run_posted_def tq_frame_def elim: succeeds_mono)
  qed
qed

lemma AddTimer_post_ok:
  assumes "tq_inv {} s" and "alloc_ok E" and "\<not> on_loop s"
  shows "safely (AddTimer_post E cb when iv s) (\<lambda>(p, s'). tq_inv {} s' \<and> on_loop s' = on_loop s)"
proof (cases "alloc E (theap s)")
  case (Some p)
  then have p: "p \<notin> dom (theap s)" "p \<noteq> UINTPTR_MAX" using assms(2) by (auto simp: alloc_ok_def)
  from tq_inv_new [OF assms(1) p] show ?thesis
    using Some assms(3) by (auto simp: AddTimer_post_def Let_def tq_inv_def held_def)
qed (simp add: AddTimer_post_def)

lemma delete_timers_ok:
  assumes "distinct (map snd es)" and "snd ` set es \<subseteq> dom (theap s)"
  shows "succeeds (delete_timers es s) (\<lambda>s'. dom (theap s') = dom (theap s) - snd ` set es)"
  using assms
proof (induction es s rule: delete_timers.induct)
  case (2 t p es s)
  have d: "snd ` set es \<subseteq> dom (theap (s\<lparr>theap := (theap s)(p := None)\<rparr>))" using 2(2,3) by auto
  then have "succeeds (delete_timers es (s\<lparr>theap := (theap s)(p := None)\<rparr>))
      (\<lambda>s'. dom (theap s') = dom ((theap s)(p := None)) - snd ` set es)"
    using 2(1) [OF _ d] 2(2) by (simp del: fun_upd_apply)
  moreover obtain tm where "theap s p = Some tm" using 2(3) by auto
  moreover have "dom (theap s) - snd ` set ((t, p) # es) = dom ((theap s)(p := None)) - snd ` set es" by auto
  ultimately show ?case by (simp only: delete_timers.simps tq_deref_Some rbind_simps)
qed simp

lemma dtor_ok:
  assumes "tq_inv {} s"
  shows "succeeds (TimerQueue_dtor s) (\<lambda>s'. dom (theap s') = set (posted_ptrs (posted s)))"
proof -
  have sch: "set_ok (timers s)" "set (timers s) = entries (theap s) (set (posted_ptrs (posted s)))"
    using assms by (auto simp: tq_inv_def scheduled_def held_def)
  then have "inj_on snd (set (timers s))" by (force simp: inj_on_def)
  then have d: "distinct (map snd (timers s))" using sch by (simp add: set_ok_def distinct_map)
  have i: "snd ` set (timers s) = dom (theap s) - set (posted_ptrs (posted s))"
    unfolding sch(2) entries_image by (simp add: image_image)
  have "set (posted_ptrs (posted s)) \<subseteq> dom (theap s)" using assms by (simp add: tq_inv_def held_def)
  then show ?thesis unfolding TimerQueue_dtor_def
    by (intro succeeds_mono [OF delete_timers_ok [OF d]]) (auto simp: i)
qed

section \<open>Runs of the queue\<close>

text \<open>
  The steps of the queue: calls made on the loop's thread between two polls, calls of other
  threads (which post their task), the timer descriptor becoming readable, and the loop
  running the oldest posted task. A call of \<^verbatim>\<open>AddTimer\<close> on another thread is two steps, the post
  and the read of the sequence number for the handle (\<^verbatim>\<open>timer_queue.cc:112\<close>); anything may
  happen between them.
\<close>

inductive tq_step :: "tq_env \<Rightarrow> timer_queue \<Rightarrow> timer_queue outcome \<Rightarrow> bool" for E where
  loop_call: "tq_step E s (run_ops E [oper] s)"
| post_add: "tq_step E s (rbind (AddTimer_post E cb when iv (s\<lparr>on_loop := False\<rparr>)) (\<lambda>(p, s').
     Inr (s'\<lparr>on_loop := True, returning := p # returning s'\<rparr>)))"
| add_return: "p \<in> set (returning s) \<Longrightarrow>
     tq_step E s (rbind (AddTimer_ret p s) (\<lambda>_. Inr (s\<lparr>returning := remove1 p (returning s)\<rparr>)))"
| post_cancel: "tq_step E s (rbind (TimerQueue_Cancel tid (s\<lparr>on_loop := False\<rparr>)) (\<lambda>s'. Inr (s'\<lparr>on_loop := True\<rparr>)))"
| readable: "tq_step E s (TimerQueue_HandleRead E s)"
| run_task: "tq_step E s (run_posted E s)"

inductive tq_reach :: "tq_env \<Rightarrow> timer_queue \<Rightarrow> bool" for E where
  start: "tq_reach E TimerQueue_ctor"
| step: "tq_reach E s \<Longrightarrow> tq_step E s (Inr s') \<Longrightarrow> tq_reach E s'"

lemma tq_inv_on_loop [simp]:
  "tq_inv X (s\<lparr>on_loop := b\<rparr>) = tq_inv X s" "tq_inv X (s\<lparr>returning := ps\<rparr>) = tq_inv X s"
  "tq_inv X (s\<lparr>on_loop := b, returning := ps\<rparr>) = tq_inv X s"
  by (simp_all add: tq_inv_def held_def)

text \<open>The one step that can fail: \<^verbatim>\<open>AddTimer\<close> reads the sequence number of a timer that is gone.\<close>

definition stale_return :: "timer_queue \<Rightarrow> timer_queue outcome \<Rightarrow> bool" where
  "stale_return s r \<longleftrightarrow> r = Inl UseAfterFree \<and>
     (\<exists>p \<in> set (returning s). theap s p = None \<and> AddTask p \<notin> set (posted s))"

lemma posted_ptrs_mem: "p \<in> set (posted_ptrs ts) \<longleftrightarrow> AddTask p \<in> set ts"
  by (induction ts rule: posted_ptrs.induct) auto

lemma posted_alive: "tq_inv X s \<Longrightarrow> AddTask p \<in> set (posted s) \<Longrightarrow> theap s p \<noteq> None"
  by (auto simp: tq_inv_def held_def simp flip: posted_ptrs_mem)

lemma tq_step_ok:
  assumes "tq_step E s r" and "tq_inv {} s" and "on_loop s" and "alloc_ok E"
  shows "stale_return s r \<or> safely r (\<lambda>s'. tq_inv {} s' \<and> on_loop s')"
  using assms(1)
proof cases
  case (loop_call oper)
  show ?thesis unfolding loop_call
    by (rule disjI2, rule safely_mono [OF run_ops_ok [OF assms(2-4)]]) (use assms(3) in \<open>auto simp: tq_frame_def\<close>)
next
  case (post_add cb w iv)
  show ?thesis unfolding post_add safely_rbind
    by (rule disjI2, rule safely_mono [OF AddTimer_post_ok]) (use assms in auto)
next
  case (add_return p)
  then show ?thesis using assms(2,3) posted_alive [OF assms(2), of p]
    by (cases "theap s p") (auto simp: stale_return_def AddTimer_ret_def tq_deref_def)
next
  case (post_cancel tid)
  then show ?thesis using assms by (simp add: TimerQueue_Cancel_def tq_inv_def held_def)
next
  case readable
  show ?thesis unfolding readable by (rule disjI2, rule safely_mono [OF HandleRead_ok [OF assms(2-4)]]) simp
next
  case run_task
  show ?thesis unfolding run_task
    by (rule disjI2, rule succeeds_safely, rule succeeds_mono [OF run_posted_ok [OF assms(2,3)]]) simp
qed

lemma tq_reach_inv: "tq_reach E s \<Longrightarrow> alloc_ok E \<Longrightarrow> tq_inv {} s \<and> on_loop s"
proof (induction rule: tq_reach.induct)
  case start
  show ?case using ctor_tq_inv by (simp add: TimerQueue_ctor_def)
next
  case (step s s')
  then show ?case using tq_step_ok [OF step.hyps(2)] by (simp add: stale_return_def)
qed

section \<open>Time\<close>

lemma sint_diff_word:
  assumes "uint a < 2 ^ 63" and "uint b < 2 ^ 63"
  shows "sint (a - b :: uint64) = uint a - uint b"
proof -
  have "- (2 ^ 63) \<le> uint a - uint b" "uint a - uint b < 2 ^ 63"
    using assms uint_ge_0 [of a] uint_ge_0 [of b] by linarith+
  then show ?thesis using Timestamp_minus_signed [of a b] by simp
qed

lemma ResetTimerfd_armed:
  assumes "uint t < 2 ^ 63" and "uint (clock_at E (ticks s)) < 2 ^ 63"
  shows "armed (ResetTimerfd E t s) =
    Some (uint (clock_at E (ticks s)), max (uint t) (uint (clock_at E (ticks s)) + 100))"
proof -
  let ?n = "clock_at E (ticks s)"
  define m where "m = max 100 (uint t - uint ?n)"
  have l: "HowManyTimeLeft t ?n = \<lparr>tv_sec = m div 1000000, tv_nsec = m mod 1000000 * 1000\<rparr>"
    using sint_diff_word [OF assms] by (simp add: HowManyTimeLeft_def m_def Let_def kMicrosecondsPerSecond_def max_def)
  have "0 \<le> m div 1000000" "0 \<le> m mod 1000000" "m mod 1000000 \<le> 999999" "m div 1000000 * 1000000 + m mod 1000000 = m"
    "m \<ge> 100"
    by (auto simp: m_def pos_imp_zdiv_nonneg_iff)
  moreover from this have "\<not> (m div 1000000 = 0 \<and> m mod 1000000 = 0)" by linarith
  ultimately show ?thesis
    by (auto simp: ResetTimerfd_eq timerfd_settime_def l) (auto simp: m_def)
qed

text \<open>
  Times stay below \<open>2 ^ 63\<close> microseconds, as those of a real clock do: \<open>clock_ok\<close> for the
  clock, \<open>bounded\<close> for the scheduled entries.
\<close>

definition clock_ok :: "tq_env \<Rightarrow> bool" where
  "clock_ok E \<longleftrightarrow> (\<forall>i. uint (clock_at E i) < 2 ^ 63)"

definition bounded :: "timer_queue \<Rightarrow> bool" where
  "bounded s \<longleftrightarrow> (\<forall>e \<in> set (timers s). uint (fst e) < 2 ^ 63)"

text \<open>The descriptor fires no later than the first entry is due, or 100 microseconds after it
  was programmed.\<close>

definition armed_ok :: "timer_queue \<Rightarrow> bool" where
  "armed_ok s \<longleftrightarrow> (case timers s of [] \<Rightarrow> True
     | e # _ \<Rightarrow> \<exists>n d. armed s = Some (n, d) \<and> d \<le> max (uint (fst e)) (n + 100))"

lemma armed_ok_heap_irrelevant [simp]:
  "armed_ok (s\<lparr>theap := h\<rparr>) = armed_ok s" "armed_ok (s\<lparr>num_created := k\<rparr>) = armed_ok s"
  "armed_ok (s\<lparr>posted := ps\<rparr>) = armed_ok s" "armed_ok (s\<lparr>on_loop := b\<rparr>) = armed_ok s"
  "armed_ok (s\<lparr>ticks := i\<rparr>) = armed_ok s" "armed_ok (s\<lparr>returning := qs\<rparr>) = armed_ok s"
  by (simp_all add: armed_ok_def split: list.splits)

lemma armed_ok_shrink:
  assumes "armed_ok s" and "set_ok (timers s)" and "set (timers s') \<subseteq> set (timers s)" and "armed s' = armed s"
  shows "armed_ok s'"
proof (cases "timers s'")
  case (Cons e es)
  then have m: "e \<in> set (timers s)" using assms(3) by auto
  then obtain f fs where f: "timers s = f # fs" by (cases "timers s") auto
  have "fst f \<le> fst e" using std.first_least [OF assms(2) f m] by (auto simp: less_eq_prod_def intro: order_less_imp_le)
  then have "uint (fst f) \<le> uint (fst e)" by (simp add: word_le_def)
  then show ?thesis using assms(1,4) f Cons by (force simp: armed_ok_def)
qed (simp add: armed_ok_def)

lemma first_insert:
  assumes "set_ok ts" and "set_ok ts'" and "set ts' = insert (w, p) (set ts)"
  shows "\<exists>e es. ts' = e # es \<and> fst e = (if ts = [] \<or> w < fst (hd ts) then w else fst (hd ts))"
proof -
  obtain e es where e: "ts' = e # es" using assms(3) by (cases ts') auto
  have le: "fst e \<le> fst x" if "x \<in> set ts'" for x
    using std.first_least [OF assms(2) e that] by (auto simp: less_eq_prod_def intro: order_less_imp_le)
  have m: "e = (w, p) \<or> e \<in> set ts" using e assms(3) by auto
  show ?thesis
  proof (cases ts)
    case Nil
    then show ?thesis using e m by auto
  next
    case (Cons f fs)
    have lf: "fst f \<le> fst x" if "x \<in> set ts" for x
      using std.first_least [OF assms(1) Cons that] by (auto simp: less_eq_prod_def intro: order_less_imp_le)
    have "fst e = min w (fst f)"
      using le [of "(w, p)"] le [of f] m lf [of e] assms(3) Cons by (auto simp: min_def)
    then show ?thesis using e Cons by (auto simp: min_def)
  qed
qed

lemma AddTimerInLoop_armed:
  assumes "tq_inv (insert p X) s" and "p \<notin> X" and "on_loop s" and "theap s p = Some tm"
    and "armed_ok s" and "uint (t_expiration tm) < 2 ^ 63" and "clock_ok E"
  shows "succeeds (AddTimerInLoop E p s) armed_ok"
proof -
  obtain e s1 where 1: "TimerQueue_Insert p s = Inr (e, s1)" "tq_inv X s1"
      "e = (timers s = [] \<or> t_expiration tm < fst (hd (timers s)))"
      "set (timers s1) = insert (t_expiration tm, p) (set (timers s))"
      "s1 = s\<lparr>timers := timers s1, active_timers := active_timers s1\<rparr>"
    using Insert_ok [OF assms(1,2)] assms(4) by (auto elim!: succeedsE)
  have f: "theap s1 = theap s" "armed s1 = armed s" by (subst 1(5); simp)+
  have "set_ok (timers s)" "set_ok (timers s1)" using assms(1) 1(2) by (auto simp: tq_inv_def scheduled_def)
  from first_insert [OF this 1(4)] obtain g gs where
    g: "timers s1 = g # gs" "fst g = (if e then t_expiration tm else fst (hd (timers s)))"
    using 1(3) by auto
  show ?thesis
  proof (cases e)
    case True
    have "uint (clock_at E (ticks s1)) < 2 ^ 63" using assms(7) by (simp add: clock_ok_def)
    from ResetTimerfd_armed [OF assms(6) this] show ?thesis
      using 1(1) True g f assms(3,4) by (auto simp: AddTimerInLoop_def tq_deref_Some armed_ok_def ResetTimerfd_eq)
  next
    case False
    then show ?thesis using 1(1,3) g f assms(3,5)
      by (auto simp: AddTimerInLoop_def armed_ok_def split: list.splits)
  qed
qed

lemma Reset_armed:
  assumes "clock_ok E" and "bounded s'"
    and "case timers s' of [] \<Rightarrow> True | (t, p) # _ \<Rightarrow> \<exists>u. s' = ResetTimerfd E t u"
  shows "armed_ok s'"
proof (cases "timers s'")
  case (Cons e es)
  then obtain u where u: "s' = ResetTimerfd E (fst e) u" using assms(3) by (cases e) auto
  have "uint (fst e) < 2 ^ 63" "uint (clock_at E (ticks u)) < 2 ^ 63"
    using assms(1,2) Cons by (auto simp: bounded_def clock_ok_def)
  from ResetTimerfd_armed [OF this] show ?thesis using u Cons by (auto simp: armed_ok_def)
qed (simp add: armed_ok_def)

lemma AddTimer_armed:
  assumes "tq_inv {} s" and "on_loop s" and "alloc_ok E" and "armed_ok s" and "uint w < 2 ^ 63" and "clock_ok E"
  shows "safely (TimerQueue_AddTimer E cb w iv s) (\<lambda>(tid, s'). armed_ok s')"
proof (cases "alloc E (theap s)")
  case None
  then show ?thesis by (simp add: TimerQueue_AddTimer_def AddTimer_post_def)
next
  case (Some p)
  then have p: "p \<notin> dom (theap s)" "p \<noteq> UINTPTR_MAX" using assms(3) by (auto simp: alloc_ok_def)
  let ?tm = "Timer_ctor cb w iv (num_created s)"
  let ?s = "s\<lparr>theap := (theap s)(p \<mapsto> ?tm), num_created := num_created s + 1\<rparr>"
  note n = tq_inv_new(1) [OF assms(1) p, where tm = ?tm and k = "num_created s + 1"]
  have "succeeds (AddTimerInLoop E p ?s) armed_ok"
    using AddTimerInLoop_armed [OF n, of ?tm E] assms by (simp add: Timer_ctor_def)
  moreover have "succeeds (AddTimerInLoop E p ?s) (\<lambda>s'. theap s' p = Some ?tm)"
    using AddTimerInLoop_ok [OF n, of ?tm E] assms(2) by (auto elim: succeeds_mono)
  ultimately show ?thesis using Some assms(2)
    by (auto simp: TimerQueue_AddTimer_def AddTimer_post_def AddTimer_ret_def tq_deref_Some Let_def elim!: succeedsE)
qed

lemma tq_inv_timers: "tq_inv X s \<Longrightarrow> set_ok (timers s)"
  by (simp add: tq_inv_def scheduled_def)

lemma run_posted_armed:
  assumes "run_posted E s = Inr s'" and "tq_inv {} s" and "on_loop s" and "clock_ok E" and "armed_ok s" and "bounded s'"
  shows "armed_ok s'"
proof (cases "posted s")
  case Nil
  then show ?thesis using assms by (simp add: run_posted_def)
next
  case (Cons k ts)
  let ?s = "s\<lparr>posted := ts\<rparr>"
  show ?thesis
  proof (cases k)
    case (AddTask p)
    have inv: "tq_inv {p} ?s" using assms(2) Cons AddTask by (auto simp: tq_inv_def held_def)
    then obtain tm where tm: "theap ?s p = Some tm" by (auto simp: tq_inv_def held_def)
    have r: "AddTimerInLoop E p ?s = Inr s'" using assms(1) Cons AddTask by (simp add: run_posted_def)
    have "uint (t_expiration tm) < 2 ^ 63"
      using AddTimerInLoop_ok [OF inv _ _ tm, of E] r assms(3,6) by (auto simp: bounded_def)
    from AddTimerInLoop_armed [OF inv _ _ tm _ this assms(4)] show ?thesis using r assms(3,5) by simp
  next
    case (CancelTask tid)
    have inv: "tq_inv {} ?s" using assms(2) Cons CancelTask by (auto simp: tq_inv_def held_def)
    have "CancelInLoop tid ?s = Inr s'" using assms(1) Cons CancelTask by (simp add: run_posted_def)
    then show ?thesis using CancelInLoop_ok [OF inv, of tid] armed_ok_shrink [of ?s s'] tq_inv_timers [OF inv] assms(3,5)
      by simp
  qed
qed

text \<open>Runs in which the scheduled times stay below the bound.\<close>

inductive tq_run :: "tq_env \<Rightarrow> timer_queue \<Rightarrow> bool" for E where
  start: "tq_run E TimerQueue_ctor"
| step: "tq_run E s \<Longrightarrow> tq_step E s (Inr s') \<Longrightarrow> bounded s' \<Longrightarrow> tq_run E s'"

lemma tq_run_reach: "tq_run E s \<Longrightarrow> tq_reach E s"
  by (induction rule: tq_run.induct) (auto intro: tq_reach.intros)

lemma tq_step_armed:
  assumes "tq_step E s (Inr s')" and "tq_inv {} s" and "on_loop s" and "alloc_ok E" and "clock_ok E"
    and "armed_ok s" and "bounded s'"
  shows "armed_ok s'"
  using assms(1)
proof cases
  case (loop_call oper)
  show ?thesis
  proof (cases oper)
    case (OpAdd cb w iv)
    then obtain tid where 1: "TimerQueue_AddTimer E cb w iv s = Inr (tid, s')"
      using loop_call [symmetric] by (auto simp: rbind_Inr_conv)
    have "uint w < 2 ^ 63" using AddTimer_ok [OF assms(2-4), of cb w iv] assms(7) 1 by (auto simp: bounded_def)
    from AddTimer_armed [OF assms(2-4,6) this assms(5), of cb iv] show ?thesis using 1 by simp
  next
    case (OpCancel tid)
    then have "CancelInLoop tid s = Inr s'" using loop_call [symmetric] assms(3) by (simp add: rbind_Inr_conv TimerQueue_Cancel_def)
    then show ?thesis using CancelInLoop_ok [OF assms(2,3), of tid] armed_ok_shrink [OF assms(6)] tq_inv_timers [OF assms(2)]
      by simp
  qed
next
  case (post_add cb w iv)
  then show ?thesis using assms(6)
    by (auto simp: AddTimer_post_def Let_def split: option.splits)
next
  case (add_return p)
  then show ?thesis using assms(6) by (auto simp: AddTimer_ret_def tq_deref_def split: option.splits)
next
  case (post_cancel tid)
  then show ?thesis using assms(6) by (auto simp: TimerQueue_Cancel_def)
next
  case readable
  then show ?thesis using HandleRead_ok [OF assms(2-4)] by (intro Reset_armed [OF assms(5,7)]) (simp flip: readable)
next
  case run_task
  show ?thesis using run_posted_armed run_task assms by simp
qed

lemma tq_run_armed: "tq_run E s \<Longrightarrow> alloc_ok E \<Longrightarrow> clock_ok E \<Longrightarrow> armed_ok s"
proof (induction rule: tq_run.induct)
  case start
  show ?case by (simp add: armed_ok_def TimerQueue_ctor_def)
next
  case (step s s')
  then show ?case using tq_step_armed tq_reach_inv [OF tq_run_reach] by blast
qed

section \<open>Properties\<close>

text \<open>A concrete environment: a clock that advances by one, a heap of two cells, and a callback
  \<open>1\<close> that cancels the timer at address 1.\<close>

definition sample_env :: tq_env where
  "sample_env = \<lparr>clock_at = (\<lambda>i. if i < 1000 then of_nat i else 1000),
     add_time = (\<lambda>t d. t + d * 1000000), invalid_ts = 0,
     alloc = (\<lambda>h. if h 1 = None then Some 1 else if h 2 = None then Some 2 else None),
     script = (\<lambda>cb s. if cb = 1 then [OpCancel \<lparr>id_timer = 1, id_sequence = 0\<rparr>] else [])\<rparr>"

lemma sample_alloc_ok: "alloc_ok sample_env"
  by (auto simp: alloc_ok_def sample_env_def UINTPTR_MAX_def)

lemma sample_clock_ok: "clock_ok sample_env"
proof -
  have "uint (clock_at sample_env i) \<le> 1000" for i
  proof (cases "i < 1000")
    case True
    then show ?thesis by (simp add: sample_env_def unsigned_of_nat take_bit_nat_eq_self)
  qed (simp add: sample_env_def)
  moreover have "(1000 :: int) < 2 ^ 63" by simp
  ultimately show ?thesis unfolding clock_ok_def by (blast intro: order_le_less_trans)
qed

text \<open>The queue of that environment after a repeating timer has been added.\<close>

definition sample_queue :: timer_queue where
  "sample_queue = TimerQueue_ctor\<lparr>theap := [1 \<mapsto> Timer_ctor 1 0 5 0], timers := [(0, 1)],
     active_timers := [(1, 0)], num_created := 1, ticks := 1, armed := Some (0, 100)\<rparr>"

lemmas tq_eval = sample_env_def sample_queue_def TimerQueue_ctor_def TimerQueue_AddTimer_def AddTimer_post_def
  AddTimer_ret_def AddTimerInLoop_def TimerQueue_Insert_def tq_deref_def set_insert_def set_erase_def
  ResetTimerfd_eq HowManyTimeLeft_def timerfd_settime_def kMicrosecondsPerSecond_def Timer_ctor_def
  CancelInLoop_def TimerQueue_Cancel_def run_posted_def TimerQueue_HandleRead_def Now_def ReadTimer_def
  getExpired_def before_bound_def from_bound_def TimerQueue_Reset_def Timer_Restart_def UINTPTR_MAX_def

lemma sample_added: "run_ops sample_env [OpAdd 1 0 5] TimerQueue_ctor = Inr sample_queue"
  by (simp add: tq_eval)

lemma sample_reach: "tq_reach sample_env sample_queue"
proof (rule tq_reach.step [OF tq_reach.start])
  show "tq_step sample_env TimerQueue_ctor (Inr sample_queue)"
    using tq_step.loop_call [of sample_env TimerQueue_ctor "OpAdd 1 0 5"] by (simp only: sample_added)
qed

lemma sample_run: "tq_run sample_env sample_queue"
proof (rule tq_run.step [OF tq_run.start])
  show "tq_step sample_env TimerQueue_ctor (Inr sample_queue)"
    using tq_step.loop_call [of sample_env TimerQueue_ctor "OpAdd 1 0 5"] by (simp only: sample_added)
  show "bounded sample_queue" by (simp add: bounded_def sample_queue_def)
qed


text \<open>A run that reaches the failing read: a one-shot timer added by another thread, run and
  freed by the loop before the call returns.\<close>

definition stale_queue :: timer_queue where
  "stale_queue = TimerQueue_ctor\<lparr>num_created := 1, ticks := 2, armed := Some (0, 100), returning := [1]\<rparr>"

lemma stale_reach: "tq_reach sample_env stale_queue"
proof -
  let ?a = "TimerQueue_ctor\<lparr>theap := [1 \<mapsto> Timer_ctor 0 0 0 0], num_created := 1, posted := [AddTask 1],
    returning := [1]\<rparr>"
  let ?b = "?a\<lparr>posted := [], timers := [(0, 1)], active_timers := [(1, 0)], ticks := 1, armed := Some (0, 100)\<rparr>"
  have "tq_step sample_env TimerQueue_ctor (Inr ?a)"
    using tq_step.post_add [of sample_env TimerQueue_ctor 0 0 0] by (simp add: tq_eval)
  moreover have "tq_step sample_env ?a (Inr ?b)"
    using tq_step.run_task [of sample_env ?a] by (simp add: tq_eval)
  moreover have "tq_step sample_env ?b (Inr stale_queue)"
    using tq_step.readable [of sample_env ?b] by (simp add: tq_eval stale_queue_def numeral_2_eq_2)
  ultimately show ?thesis by (blast intro: tq_reach.intros)
qed


text \<open>
  \<^verbatim>\<open>getExpired\<close> takes exactly the entries that are due, in the order of their expiration,
  leaves exactly those that lie after \<^verbatim>\<open>now\<close>, frees nothing, and meets its three assertions.
\<close>

theorem getExpired_due:
  assumes "tq_inv X s"
  shows "succeeds (getExpired now s) (\<lambda>(expired, s').
    expired = filter (\<lambda>(t, p). t \<le> now) (timers s) \<and> sorted (map fst expired) \<and>
    timers s' = filter (\<lambda>(t, p). now < t) (timers s) \<and>
    set (active_timers s') = actives (theap s) (held X s \<union> snd ` set expired) \<and>
    theap s' = theap s \<and> posted s' = posted s)"
proof -
  have srt: "sorted (timers s)" using tq_inv_timers [OF assms] by (simp add: set_ok_def)
  have "sorted (map fst xs)" if "sorted xs" for xs :: "(uint64 \<times> uint64) list"
    using that by (induction xs) (auto simp: less_eq_prod_def intro: order_less_imp_le)
  then have "sorted (map fst (filter Q (timers s)))" for Q
    using sorted_filter [of id "timers s" Q] srt by simp
  then show ?thesis
  proof (intro succeeds_mono [OF getExpired_ok [OF assms, of now]], clarify, goal_cases)
    case (1 ex s')
    have "theap s' = theap s" "posted s' = posted s" by (subst 1(4); simp)+
    then show ?case using 1 by (auto simp: tq_inv_def scheduled_def held_def Un_ac)
  qed
qed

theorem getExpired_due_witness:
  "succeeds (getExpired 7 sample_queue) (\<lambda>(expired, s'). expired = [(0, 1)] \<and> timers s' = [])"
proof -
  have "tq_inv {} sample_queue" using tq_reach_inv [OF sample_reach sample_alloc_ok] by simp
  from getExpired_due [OF this, of 7] show ?thesis
    by (rule succeeds_mono) (auto simp: sample_queue_def TimerQueue_ctor_def)
qed

text \<open>
  C23: When the descriptor fires, each timer that is due is treated as its kind asks, whatever
  the callbacks do: a repeating timer that was not cancelled meanwhile is scheduled again,
  one interval after the time at which the round started; every other is freed and has
  no entry left.
\<close>

theorem HandleRead_reschedules:
  assumes "tq_inv {} s" and "on_loop s" and "alloc_ok E" and "TimerQueue_HandleRead E s = Inr s'"
    and "(t, p) \<in> set (timers s)" and "t \<le> clock_at E (ticks s)" and "theap s p = Some tm"
  shows "if t_repeat tm \<and> (p, t_sequence tm) \<notin> set (canceling_timers s')
    then let t' = add_time E (clock_at E (ticks s)) (word_of_int (t_interval tm))
         in theap s' p = Some (tm\<lparr>t_expiration := t'\<rparr>) \<and> (t', p) \<in> set (timers s') \<and>
            (p, t_sequence tm) \<in> set (active_timers s')
    else theap s' p = None \<and> p \<notin> snd ` set (timers s') \<and> p \<notin> fst ` set (active_timers s')"
proof -
  let ?now = "clock_at E (ticks s)"
  have inv: "tq_inv {} s'" and post: "posted s' = posted s"
    using HandleRead_ok [OF assms(1-3)] assms(4) by auto
  have h: "theap s' p = reset_timer E ?now (canceling_timers s') p tm"
    using HandleRead_ok [OF assms(1-3)] assms(4-7) by auto
  have "p \<notin> held {} s'" using assms(1,5) post by (auto simp: tq_inv_def scheduled_def held_def)
  then show ?thesis using h inv
    by (auto simp: reset_timer_def Timer_Restart_def tq_inv_def scheduled_def Let_def)
qed

theorem HandleRead_reschedules_witness:
  "\<exists>s'. TimerQueue_HandleRead sample_env sample_queue = Inr s' \<and> theap s' 1 = None"
proof -
  have inv: "tq_inv {} sample_queue" "on_loop sample_queue"
    using tq_reach_inv [OF sample_reach sample_alloc_ok] by auto
  obtain s' where s': "TimerQueue_HandleRead sample_env sample_queue = Inr s'" "canceling_timers s' = [(1, 0)]"
    by (simp add: tq_eval)
  from HandleRead_reschedules [OF inv sample_alloc_ok s'(1), of 0 1] s'(2)
  have "theap s' 1 = None" by (simp add: sample_queue_def TimerQueue_ctor_def Timer_ctor_def)
  then show ?thesis using s'(1) by blast
qed

text \<open>
  The timeout given to \<^verbatim>\<open>timerfd_settime\<close> is always a valid, non-zero \<^verbatim>\<open>timespec\<close> of at
  least 100 microseconds, so the call neither fails nor disarms the descriptor; for times below
  \<open>2 ^ 63\<close> it is exactly the time left.
\<close>

theorem HowManyTimeLeft_valid:
  defines "len ts \<equiv> tv_sec ts * 1000000 + tv_nsec ts div 1000"
  shows "let ts = HowManyTimeLeft when now in
    0 \<le> tv_sec ts \<and> 0 \<le> tv_nsec ts \<and> tv_nsec ts \<le> 999999999 \<and> (tv_sec ts \<noteq> 0 \<or> tv_nsec ts \<noteq> 0) \<and>
    100 \<le> len ts \<and>
    (uint when < 2 ^ 63 \<and> uint now < 2 ^ 63 \<longrightarrow> len ts = max 100 (uint when - uint now))"
proof -
  define m where "m = max 100 (sint (when - now))"
  have l: "HowManyTimeLeft when now = \<lparr>tv_sec = m div 1000000, tv_nsec = m mod 1000000 * 1000\<rparr>"
    by (simp add: HowManyTimeLeft_def m_def Let_def kMicrosecondsPerSecond_def max_def)
  have a: "0 \<le> m mod 1000000" "m mod 1000000 \<le> 999999" "m div 1000000 * 1000000 + m mod 1000000 = m" "100 \<le> m"
    by (auto simp: m_def)
  then have "0 \<le> m div 1000000" "m div 1000000 \<noteq> 0 \<or> m mod 1000000 * 1000 \<noteq> 0" by linarith+
  then show ?thesis using a sint_diff_word [of "when" now]
    by (simp add: l len_def Let_def) (simp add: m_def)
qed

theorem HowManyTimeLeft_valid_witness:
  "let ts = HowManyTimeLeft 2500000 1000000 in tv_sec ts * 1000000 + tv_nsec ts div 1000 = 1500000"
  using HowManyTimeLeft_valid [of 2500000 1000000] by (simp add: Let_def)

text \<open>
  C14: A timer is never forgotten: whenever the queue is not empty, the descriptor is armed,
  and it fires no later than the first entry is due, or 100 microseconds after it was programmed
  if that is later. This holds in every run in which the times stay below \<open>2 ^ 63\<close>, through
  insertions at the front, cancellations and rounds of expired timers.
\<close>

theorem timer_descriptor_armed:
  assumes "tq_run E s" and "alloc_ok E" and "clock_ok E" and "timers s = (t, p) # es"
  shows "\<exists>n d. armed s = Some (n, d) \<and> d \<le> max (uint t) (n + 100)"
  using tq_run_armed [OF assms(1-3)] assms(4) by (simp add: armed_ok_def)

theorem timer_descriptor_armed_witness:
  "\<exists>n d. armed sample_queue = Some (n, d) \<and> d \<le> max 0 (n + 100)"
  using timer_descriptor_armed [OF sample_run sample_alloc_ok sample_clock_ok, of 0 1 "[]"]
  by (simp add: sample_queue_def)

text \<open>
  C32: Cancelling on the loop's thread. A handle of a scheduled timer removes its entry from
  both sets and frees it, and no other; any other handle (a timer that is being run, one that
  is gone, or one whose address was reused) frees nothing and is only remembered while
  callbacks run.
\<close>

theorem Cancel_exact:
  assumes "tq_inv X s" and "on_loop s"
  shows "succeeds (TimerQueue_Cancel tid s) (\<lambda>s'.
    if (id_timer tid, id_sequence tid) \<in> set (active_timers s)
    then theap s' = (theap s)(id_timer tid := None) \<and>
         set (timers s') = {(t, p) \<in> set (timers s). p \<noteq> id_timer tid} \<and>
         set (active_timers s') = set (active_timers s) - {(id_timer tid, id_sequence tid)}
    else s' = (if calling_expired_timers s
               then s\<lparr>canceling_timers := fst (set_insert (id_timer tid, id_sequence tid) (canceling_timers s))\<rparr>
               else s))"
proof (cases "(id_timer tid, id_sequence tid) \<in> set (active_timers s)")
  case True
  let ?p = "id_timer tid"
  have sch: "scheduled (theap s) (held X s) (timers s) (active_timers s)" using assms(1) by (simp add: tq_inv_def)
  obtain tm where tm: "theap s ?p = Some tm" "t_sequence tm = id_sequence tid" and h: "?p \<notin> held X s"
    using True sch by (auto simp: scheduled_def)
  note e = scheduled_erase [OF sch tm(1) h]
  have "set (fst (set_erase (t_expiration tm, ?p) (timers s))) = {(t, p) \<in> set (timers s). p \<noteq> ?p}"
    using e(1) sch tm h by (auto simp: scheduled_def split: if_splits)
  moreover have "set (fst (set_erase (?p, id_sequence tid) (active_timers s))) = set (active_timers s) - {(?p, id_sequence tid)}"
    using sch std.era_ok by (auto simp: scheduled_def)
  moreover have "snd (set_erase (t_expiration tm, ?p) (timers s)) = 1" using e(2) by (simp add: set_erase_def)
  ultimately show ?thesis
    using assms(2) True tm e tq_inv_length [OF assms(1)] scheduled_length [OF e(1)]
    by (auto simp: TimerQueue_Cancel_def CancelInLoop_def tq_deref_Some Let_def split: prod.splits)
next
  case False
  then show ?thesis using assms(2) tq_inv_length [OF assms(1)]
    by (simp add: TimerQueue_Cancel_def CancelInLoop_def Let_def)
qed

theorem Cancel_exact_witness:
  "succeeds (TimerQueue_Cancel \<lparr>id_timer = 1, id_sequence = 0\<rparr> sample_queue) (\<lambda>s'. set (timers s') = {})"
proof -
  have inv: "tq_inv {} sample_queue" "on_loop sample_queue"
    using tq_reach_inv [OF sample_reach sample_alloc_ok] by auto
  from Cancel_exact [OF inv, of "\<lparr>id_timer = 1, id_sequence = 0\<rparr>"] show ?thesis
    by (rule succeeds_mono) (simp add: sample_queue_def TimerQueue_ctor_def)
qed

text \<open>
  \<^verbatim>\<open>AddTimer\<close> called on another thread reads the timer's sequence number after it has
  given the timer to the loop. If the loop runs the posted task and the one-shot timer is due
  before the caller continues, the timer has been freed and the read is a use after free.
\<close>

theorem AddTimer_handle_race:
  assumes "tq_inv {} s" and "posted s = []" and "alloc_ok E"
    and "AddTimer_post E cb when 0 (s\<lparr>on_loop := False\<rparr>) = Inr (p, s1)"
    and "run_posted E (s1\<lparr>on_loop := True\<rparr>) = Inr s2"
    and "when \<le> clock_at E (ticks s2)" and "TimerQueue_HandleRead E s2 = Inr s3"
  shows "AddTimer_ret p s3 = Inl UseAfterFree"
proof -
  obtain k where 1: "s1 = s\<lparr>on_loop := False, theap := (theap s)(p \<mapsto> Timer_ctor cb when 0 k),
      num_created := k + 1, posted := [AddTask p]\<rparr>"
    using assms(2,4) by (auto simp: AddTimer_post_def Let_def split: option.splits)
  have 2: "tq_inv {} (s1\<lparr>on_loop := True\<rparr>)"
    using AddTimer_post_ok [of "s\<lparr>on_loop := False\<rparr>" E cb "when" 0] assms(1,3,4) by simp
  then have inv2: "tq_inv {} s2" "on_loop s2" using run_posted_ok [OF 2, of E] assms(5) by auto
  let ?s = "s1\<lparr>on_loop := True, posted := []\<rparr>"
  have "AddTimerInLoop E p ?s = Inr s2" using assms(5) 1 by (simp add: run_posted_def)
  moreover have "tq_inv {p} ?s" using 2 1 by (simp add: tq_inv_def held_def)
  ultimately have "theap s2 = theap ?s" "(when, p) \<in> set (timers s2)"
    using AddTimerInLoop_ok [of p "{}" ?s "Timer_ctor cb when 0 k" E] 1 by (auto simp: Timer_ctor_def)
  then have "theap s3 p = None"
    using HandleRead_ok [OF inv2 assms(3)] assms(6,7) 1 by (auto simp: reset_timer_def Timer_ctor_def)
  then show ?thesis by (simp add: AddTimer_ret_def tq_deref_def)
qed

theorem AddTimer_handle_race_witness:
  "\<exists>s1 s2 s3. AddTimer_post sample_env 0 0 0 (TimerQueue_ctor\<lparr>on_loop := False\<rparr>) = Inr (1, s1) \<and>
     run_posted sample_env (s1\<lparr>on_loop := True\<rparr>) = Inr s2 \<and> TimerQueue_HandleRead sample_env s2 = Inr s3 \<and>
     AddTimer_ret 1 s3 = Inl UseAfterFree"
proof -
  obtain s1 where 1: "AddTimer_post sample_env 0 0 0 (TimerQueue_ctor\<lparr>on_loop := False\<rparr>) = Inr (1, s1)"
    by (simp add: tq_eval)
  obtain s2 where 2: "run_posted sample_env (s1\<lparr>on_loop := True\<rparr>) = Inr s2" and t: "ticks s2 = 1"
    using 1 by (auto simp: tq_eval)
  obtain s3 where 3: "TimerQueue_HandleRead sample_env s2 = Inr s3" using 1 2 by (auto simp: tq_eval)
  have "0 \<le> clock_at sample_env (ticks s2)" by simp
  from AddTimer_handle_race [OF ctor_tq_inv _ sample_alloc_ok 1 2 this 3] show ?thesis
    using 1 2 3 by (auto simp: TimerQueue_ctor_def)
qed

end
