(* ===== verification/EventLoop.thy ===== *)
theory EventLoop
  imports Epoller TimerQueue
begin

text \<open>
  The event loop (\<^verbatim>\<open>src/event_loop.h\<close>, \<^verbatim>\<open>src/event_loop.cc\<close>): construction and destruction with
  the loop's own channels, the task queue and its wakeup descriptor, one round of the loop, and
  the loop itself. The state extends the poller's; the timer queue is a field of it. Parameters:
  what the kernel reports, the callbacks of the channels that belong to users of the loop (\<open>U\<close>),
  and the tasks they queue (\<open>exec\<close>). A step relation on the same definitions interleaves the loop
  with other threads that queue tasks and ask it to quit.
\<close>

section \<open>State\<close>

text \<open>A queued task: a closure of the user, or one that the timer queue posted.\<close>

datatype task = UserTask nat | TimerTask

record event_loop = poller +
  looping :: bool
  quit :: bool
  iteration :: int
  task_list :: "task list"
  need_wakup :: bool
  wakeup_count :: uint64
  wakeup_channel :: addr
  timer_channel :: addr
  sig_channel :: "addr option"
  sig_int_cb :: "nat option"
  sig_quit_cb :: "nat option"
  sig_usr1_cb :: "nat option"
  sig_usr2_cb :: "nat option"
  tqueue :: timer_queue
  loop_in_thread :: "addr option"
  wakeupfd :: int
  timerfd :: int
  sig_fd :: int

section \<open>Tasks and wakeup\<close>

text \<open>
  \<^verbatim>\<open>eventfd_write\<close> of 1 on the non-blocking descriptor: the counter stays at its maximum
  \<open>2 ^ 64 - 2\<close> (\<^verbatim>\<open>EAGAIN\<close>, logged). \<^verbatim>\<open>eventfd_read\<close> clears it (\<^verbatim>\<open>EAGAIN\<close> when it is 0).
\<close>

definition Wakeup :: "'z event_loop_scheme \<Rightarrow> 'z event_loop_scheme" where
  "Wakeup s = (if wakeup_count s = - 2 then s else s\<lparr>wakeup_count := wakeup_count s + 1\<rparr>)"

definition HandleWakeup :: "'z event_loop_scheme \<Rightarrow> 'z event_loop_scheme" where
  "HandleWakeup s = s\<lparr>wakeup_count := 0\<rparr>"

text \<open>\<^verbatim>\<open>QueueInLoop\<close>: the store under the mutex, and the decision to wake the loop.\<close>

definition QueueInLoop_push :: "task \<Rightarrow> 'z event_loop_scheme \<Rightarrow> 'z event_loop_scheme" where
  "QueueInLoop_push t s = s\<lparr>task_list := task_list s @ [t]\<rparr>"

definition QueueInLoop_wake :: "'z event_loop_scheme \<Rightarrow> 'z event_loop_scheme" where
  "QueueInLoop_wake s = (if \<not> IsInLoopThread s \<or> need_wakup s then Wakeup s else s)"

definition QueueInLoop :: "task \<Rightarrow> 'z event_loop_scheme \<Rightarrow> 'z event_loop_scheme" where
  "QueueInLoop t s = QueueInLoop_wake (QueueInLoop_push t s)"

definition Quit :: "'z event_loop_scheme \<Rightarrow> 'z event_loop_scheme" where
  "Quit s = (let s1 = s\<lparr>quit := True\<rparr> in if \<not> IsInLoopThread s1 then Wakeup s1 else s1)"

definition run_task :: "tq_env \<Rightarrow> (nat \<Rightarrow> 'z event_loop_scheme \<Rightarrow> 'z event_loop_scheme outcome) \<Rightarrow>
    task \<Rightarrow> 'z event_loop_scheme \<Rightarrow> 'z event_loop_scheme outcome" where
  "run_task T exec t s =
     (case t of
        UserTask n \<Rightarrow> exec n s
      | TimerTask \<Rightarrow> rbind (run_posted T (tqueue s)) (\<lambda>q. Inr (s\<lparr>tqueue := q\<rparr>)))"

definition RunInLoop :: "tq_env \<Rightarrow> (nat \<Rightarrow> 'z event_loop_scheme \<Rightarrow> 'z event_loop_scheme outcome) \<Rightarrow>
    task \<Rightarrow> 'z event_loop_scheme \<Rightarrow> 'z event_loop_scheme outcome" where
  "RunInLoop T exec t s =
     (if IsInLoopThread s then run_task T exec t s else Inr (QueueInLoop t s))"

fun run_tasks :: "tq_env \<Rightarrow> (nat \<Rightarrow> 'z event_loop_scheme \<Rightarrow> 'z event_loop_scheme outcome) \<Rightarrow>
    task list \<Rightarrow> 'z event_loop_scheme \<Rightarrow> 'z event_loop_scheme outcome" where
  "run_tasks T exec [] s = Inr s"
| "run_tasks T exec (t # ts) s = rbind (run_task T exec t s) (run_tasks T exec ts)"

definition DoPendingTasks :: "tq_env \<Rightarrow> (nat \<Rightarrow> 'z event_loop_scheme \<Rightarrow> 'z event_loop_scheme outcome) \<Rightarrow>
    'z event_loop_scheme \<Rightarrow> 'z event_loop_scheme outcome" where
  "DoPendingTasks T exec s =
     (let s1 = s\<lparr>need_wakup := True\<rparr>;
          tasks = task_list s1;
          s2 = s1\<lparr>task_list := []\<rparr>
      in rbind (run_tasks T exec tasks s2) (\<lambda>s3. Inr (s3\<lparr>need_wakup := False\<rparr>)))"

text \<open>Timers added through the loop: on another thread the insertion is a queued task.\<close>

definition EventLoop_AddTimer :: "tq_env \<Rightarrow> nat \<Rightarrow> uint64 \<Rightarrow> int \<Rightarrow> 'z event_loop_scheme \<Rightarrow>
    (timer_id \<times> 'z event_loop_scheme) outcome" where
  "EventLoop_AddTimer T cb when intervalS s =
     rbind (TimerQueue_AddTimer T cb when intervalS ((tqueue s)\<lparr>on_loop := IsInLoopThread s\<rparr>)) (\<lambda>(tid, q).
     let s1 = s\<lparr>tqueue := q\<lparr>on_loop := True\<rparr>\<rparr>
     in Inr (tid, if IsInLoopThread s then s1 else QueueInLoop TimerTask s1))"

definition EventLoop_TimerCancel :: "timer_id \<Rightarrow> 'z event_loop_scheme \<Rightarrow> 'z event_loop_scheme outcome" where
  "EventLoop_TimerCancel tid s =
     rbind (TimerQueue_Cancel tid ((tqueue s)\<lparr>on_loop := IsInLoopThread s\<rparr>)) (\<lambda>q.
     let s1 = s\<lparr>tqueue := q\<lparr>on_loop := True\<rparr>\<rparr>
     in Inr (if IsInLoopThread s then s1 else QueueInLoop TimerTask s1))"

section \<open>Signals\<close>

definition EINTR :: int where "EINTR = 4"
definition EAGAIN :: int where "EAGAIN = 11"
definition SIGINT :: int where "SIGINT = 2"
definition SIGQUIT :: int where "SIGQUIT = 3"
definition SIGUSR1 :: int where "SIGUSR1 = 10"
definition SIGUSR2 :: int where "SIGUSR2 = 12"

text \<open>
  The loop that reads \<open>len\<close> bytes from the signal descriptor, over the answers of \<^verbatim>\<open>read\<close>:
  \<open>Some True\<close> when the structure is complete, \<open>Some False\<close> after an error, \<open>None\<close> while it is
  still reading when the answers end.
\<close>

fun read_siginfo :: "(int + nat) list \<Rightarrow> nat \<Rightarrow> bool option" where
  "read_siginfo rs len =
     (if len = 0 then Some True
      else case rs of
        [] \<Rightarrow> None
      | Inl err # rs' \<Rightarrow> if EINTR = err \<or> EAGAIN = err then read_siginfo rs' len else Some False
      | Inr rlen # rs' \<Rightarrow> read_siginfo rs' (len - rlen))"

declare read_siginfo.simps [simp del]

definition HandleSignal :: "poller_env \<Rightarrow> (nat \<Rightarrow> 'z event_loop_scheme \<Rightarrow> 'z event_loop_scheme outcome) \<Rightarrow>
    (int + nat) list \<Rightarrow> int \<Rightarrow> 'z event_loop_scheme \<Rightarrow> 'z event_loop_scheme outcome option" where
  "HandleSignal E exec reads signo s =
     (let run = (\<lambda>cb. case cb of None \<Rightarrow> Inr s | Some n \<Rightarrow> exec n s) in
      case read_siginfo reads 128 of
        None \<Rightarrow> None
      | Some False \<Rightarrow> Some (Inr s)
      | Some True \<Rightarrow> Some
          (if signo = SIGINT then run (sig_int_cb s)
           else if signo = SIGQUIT then run (sig_quit_cb s)
           else if signo = SIGUSR1 then run (sig_usr1_cb s)
           else if signo = SIGUSR2 then run (sig_usr2_cb s)
           else rbind (dassert E False) (\<lambda>_. Inr s)))"

text \<open>\<open>sfd\<close> is the answer of \<^verbatim>\<open>signalfd\<close>.\<close>

definition SetHandleSingnal :: "poller_env \<Rightarrow> bool \<Rightarrow> addr \<Rightarrow> int \<Rightarrow>
    'z event_loop_scheme \<Rightarrow> 'z event_loop_scheme outcome" where
  "SetHandleSingnal E is_main p sfd s =
     rbind (dassert E is_main) (\<lambda>_.
     rbind (dassert E (sig_channel s = None)) (\<lambda>_.
     if - 1 = sfd then Inl ProcessExit
     else
     rbind (new_Channel E p sfd '''' (s\<lparr>sig_fd := sfd, loop_fds := loop_fds s @ [sfd]\<rparr>)) (\<lambda>s1.
     rbind (modify p (\<lambda>c. c\<lparr>ch_has_read := True\<rparr>) (s1\<lparr>sig_channel := Some p\<rparr>)) (EnableReading E p))))"

section \<open>Construction and destruction\<close>

text \<open>
  \<open>wp\<close>, \<open>tp\<close> are the addresses of the wakeup and timer channels, \<open>wfd\<close>, \<open>tfd\<close> their descriptors, \<open>ke\<close> the poller's,
  \<open>prev\<close> the loop that the thread already has. \<^verbatim>\<open>need_wakup_\<close> is not initialised by the
  constructor; \<open>nw\<close> is the value found in memory.
\<close>

definition EventLoop_ctor :: "poller_env \<Rightarrow> addr \<Rightarrow> int \<Rightarrow> addr \<Rightarrow> int \<Rightarrow> int \<Rightarrow> addr \<Rightarrow> int \<Rightarrow> addr option \<Rightarrow> bool \<Rightarrow>
    event_loop outcome" where
  "EventLoop_ctor E self tid wp wfd ke tp tfd prev nw =
     (let poller = Epoller_ctor ke self tid Map.empty;
          s0 = poller.extend (poller\<lparr>loop_fds := wfd # loop_fds poller @ [tfd]\<rparr>)
                 (event_loop.fields False False 0 [] nw 0 wp tp None None None None None TimerQueue_ctor prev wfd tfd 0)
      in rbind (new_Channel E wp wfd ''wakeup'' s0) (\<lambda>s1.
         rbind (new_Channel E tp tfd ''queue'' s1) (\<lambda>s2.
         rbind (modify tp (\<lambda>c. c\<lparr>ch_has_read := True\<rparr>) s2) (\<lambda>s3.
         rbind (EnableReading E tp s3) (\<lambda>s4.
         rbind (if prev \<noteq> None then rbind (dassert E False) (\<lambda>_. Inr s4)
                else Inr (s4\<lparr>loop_in_thread := Some self\<rparr>)) (\<lambda>s5.
         rbind (modify wp (\<lambda>c. c\<lparr>ch_has_read := True\<rparr>) s5) (EnableReading E wp)))))))"

text \<open>
  The descriptors that the constructor creates: \<open>kw\<close>, \<open>ke\<close> and \<open>kt\<close> are the answers of \<^verbatim>\<open>eventfd\<close>, \<^verbatim>\<open>epoll_create1\<close> and
  \<^verbatim>\<open>timerfd_create\<close>. The wakeup channel, with its assertion, is created before the poller.
\<close>

definition CreateWakeupFd :: "int \<Rightarrow> int outcome" where
  "CreateWakeupFd kw = (if 0 > kw then Inl ProcessExit else Inr kw)"

definition Epoller_efd :: "int \<Rightarrow> int outcome" where
  "Epoller_efd ke = (if 0 > ke then Inl ProcessExit else Inr ke)"

definition CreateTimerfd :: "int \<Rightarrow> int" where
  "CreateTimerfd kt = kt"

definition new_EventLoop :: "poller_env \<Rightarrow> addr \<Rightarrow> int \<Rightarrow> addr \<Rightarrow> addr \<Rightarrow> addr option \<Rightarrow> bool \<Rightarrow> int \<Rightarrow> int \<Rightarrow> int \<Rightarrow> event_loop outcome" where
  "new_EventLoop E self tid wp tp prev nw kw ke kt =
     rbind (CreateWakeupFd kw) (\<lambda>wfd.
     rbind (dassert E (0 < wfd)) (\<lambda>_.
     rbind (Epoller_efd ke) (\<lambda>efd.
       EventLoop_ctor E self tid wp wfd efd tp (CreateTimerfd kt) prev nw)))"

text \<open>The destructor's body, and then the members in the reverse order of their declaration.\<close>

definition drop_channel :: "poller_env \<Rightarrow> addr \<Rightarrow> 'z event_loop_scheme \<Rightarrow> 'z event_loop_scheme outcome" where
  "drop_channel E p s = rbind (DisableAll E p s) (Channel_Remove E p)"

text \<open>The destructor of the timer queue with its channel, which is a member of it.\<close>

definition drop_timer_queue :: "poller_env \<Rightarrow> 'z event_loop_scheme \<Rightarrow> 'z event_loop_scheme outcome" where
  "drop_timer_queue E s =
     rbind (drop_channel E (timer_channel s) s) (\<lambda>s1.
     rbind (loop_close (timerfd s1) s1) (\<lambda>s2.
     rbind (TimerQueue_dtor (tqueue s2)) (\<lambda>q. delete_Channel E (timer_channel s2) (s2\<lparr>tqueue := q\<rparr>))))"

definition EventLoop_dtor :: "poller_env \<Rightarrow> 'z event_loop_scheme \<Rightarrow> 'z event_loop_scheme outcome" where
  "EventLoop_dtor E s =
     rbind (dassert E (\<not> looping s)) (\<lambda>_.
     rbind (drop_channel E (wakeup_channel s) (s\<lparr>loop_in_thread := None\<rparr>)) (\<lambda>s1.
     rbind (loop_close (wakeupfd s1) s1) (\<lambda>s2.
     rbind (case sig_channel s2 of
              None \<Rightarrow> Inr s2
            | Some p \<Rightarrow> rbind (drop_channel E p s2) (\<lambda>s. rbind (loop_close (sig_fd s) s) (delete_Channel E p))) (\<lambda>s3.
     rbind (drop_timer_queue E s3) (\<lambda>s4.
     rbind (Epoller_dtor E s4) (\<lambda>s5.
       delete_Channel E (wakeup_channel s5) s5))))))"

section \<open>The loop\<close>

text \<open>The callbacks of the channels: the loop's own and those of its users.\<close>

definition loop_call :: "tq_env \<Rightarrow> (addr \<Rightarrow> callback \<Rightarrow> 'z event_loop_scheme \<Rightarrow> 'z event_loop_scheme outcome) \<Rightarrow>
    addr \<Rightarrow> callback \<Rightarrow> 'z event_loop_scheme \<Rightarrow> 'z event_loop_scheme outcome" where
  "loop_call T U p k s =
     (if p = wakeup_channel s \<and> k = ReadCb then Inr (HandleWakeup s)
      else if p = timer_channel s \<and> k = ReadCb
      then rbind (TimerQueue_HandleRead T (tqueue s)) (\<lambda>q. Inr (s\<lparr>tqueue := q\<rparr>))
      else U p k s)"

fun handle_active :: "(addr \<Rightarrow> 'z event_loop_scheme \<Rightarrow> bool) \<Rightarrow> tq_env \<Rightarrow>
    (addr \<Rightarrow> callback \<Rightarrow> 'z event_loop_scheme \<Rightarrow> 'z event_loop_scheme outcome) \<Rightarrow>
    addr list \<Rightarrow> 'z event_loop_scheme \<Rightarrow> 'z event_loop_scheme outcome" where
  "handle_active alive T U [] s = Inr s"
| "handle_active alive T U (p # ps) s =
     rbind (HandleEvent alive (loop_call T U p) p s) (handle_active alive T U ps)"

definition Loop_round :: "poller_env \<Rightarrow> tq_env \<Rightarrow> (addr \<Rightarrow> 'z event_loop_scheme \<Rightarrow> bool) \<Rightarrow>
    (addr \<Rightarrow> callback \<Rightarrow> 'z event_loop_scheme \<Rightarrow> 'z event_loop_scheme outcome) \<Rightarrow>
    (nat \<Rightarrow> 'z event_loop_scheme \<Rightarrow> 'z event_loop_scheme outcome) \<Rightarrow>
    (int, (events \<times> addr) list) sum \<Rightarrow> 'z event_loop_scheme \<Rightarrow> 'z event_loop_scheme outcome" where
  "Loop_round E T alive U exec answer s =
     rbind (Epoller_Poll E answer s) (\<lambda>s1.
     let s2 = s1\<lparr>iteration := iteration s1 + 1\<rparr> in
     rbind (handle_active alive T U (dispatched s2) s2) (DoPendingTasks T exec))"

text \<open>
  \<^verbatim>\<open>Loop\<close> over the kernel's answers, one per round (a function of the state that is polled);
  before each answer other threads may have acted on the loop. \<open>None\<close>: the loop is still
  running when the answers end.
\<close>

datatype foreign = ForeignQueue task | ForeignQuit

definition foreign_act :: "int \<Rightarrow> foreign \<Rightarrow> 'z event_loop_scheme \<Rightarrow> 'z event_loop_scheme" where
  "foreign_act tid a s =
     (let s1 = s\<lparr>current_tid := tid\<rparr>;
          s2 = (case a of ForeignQueue t \<Rightarrow> QueueInLoop t s1 | ForeignQuit \<Rightarrow> Quit s1)
      in s2\<lparr>current_tid := current_tid s\<rparr>)"

fun Loop_while :: "('z event_loop_scheme \<Rightarrow> 'b \<Rightarrow> 'z event_loop_scheme outcome) \<Rightarrow>
    ((int \<times> foreign) list \<times> 'b) list \<Rightarrow> 'z event_loop_scheme \<Rightarrow> 'z event_loop_scheme outcome option" where
  "Loop_while round [] s = (if quit s then Some (Inr s) else None)"
| "Loop_while round ((acts, a) # rs) s =
     (if quit s then Some (Inr s)
      else case round (fold (\<lambda>(tid, act). foreign_act tid act) acts s) a of
             Inl e \<Rightarrow> Some (Inl e)
           | Inr s1 \<Rightarrow> Loop_while round rs s1)"

definition EventLoop_Loop :: "poller_env \<Rightarrow> tq_env \<Rightarrow> (addr \<Rightarrow> 'z event_loop_scheme \<Rightarrow> bool) \<Rightarrow>
    (addr \<Rightarrow> callback \<Rightarrow> 'z event_loop_scheme \<Rightarrow> 'z event_loop_scheme outcome) \<Rightarrow>
    (nat \<Rightarrow> 'z event_loop_scheme \<Rightarrow> 'z event_loop_scheme outcome) \<Rightarrow>
    ((int \<times> foreign) list \<times> ('z event_loop_scheme \<Rightarrow> (int, (events \<times> addr) list) sum)) list \<Rightarrow>
    'z event_loop_scheme \<Rightarrow> 'z event_loop_scheme outcome option" where
  "EventLoop_Loop E T alive U exec rounds s =
     (case rbind (dassert E (\<not> looping s)) (\<lambda>_. AssertInLoopThread E s) of
        Inl e \<Rightarrow> Some (Inl e)
      | Inr _ \<Rightarrow>
          map_option
            (\<lambda>r. rbind r (\<lambda>s1. rbind (DoPendingTasks T exec s1) (\<lambda>s2. Inr (s2\<lparr>looping := False\<rparr>))))
            (Loop_while (\<lambda>s a. Loop_round E T alive U exec (a s) s) rounds (s\<lparr>looping := True, quit := False\<rparr>)))"

section \<open>Interleaving with other threads\<close>

text \<open>
  The loop's thread as a program counter over the statements of \<^verbatim>\<open>Loop\<close> and \<^verbatim>\<open>DoPendingTasks\<close>: before
  \<^verbatim>\<open>Loop\<close> (\<open>Idle\<close>), in it, and after it has returned (\<open>Exited\<close>), from where it may be called again.
  \<open>wakers\<close> counts the threads that have queued a task or set \<^verbatim>\<open>quit_\<close> and have not yet written
  to the wakeup descriptor. \<open>log_posted\<close> and \<open>log_done\<close> record the tasks queued and run. \<open>early\<close> are the tasks that
  the loop's own thread has queued outside \<^verbatim>\<open>Loop\<close> without writing to the wakeup descriptor while no wait
  for events has ended since.
\<close>

datatype loop_pc = Idle | Checking | Polling | Handling | Swapping | Running |
  Leaving | Draining | Exited

record loop_sys = event_loop +
  pc :: loop_pc
  local_tasks :: "task list"
  wakers :: nat
  log_posted :: "task list"
  log_done :: "task list"
  early :: "task list"

text \<open>\<^verbatim>\<open>QueueInLoop\<close> on the loop's own thread: in a callback, in a task, or outside \<^verbatim>\<open>Loop\<close>.\<close>

definition own_post :: "task \<Rightarrow> loop_sys \<Rightarrow> loop_sys" where
  "own_post t s = (QueueInLoop t s)\<lparr>log_posted := log_posted s @ [t],
     early := (if pc s \<in> {Idle, Exited} \<and> \<not> need_wakup s then early s @ [t] else early s)\<rparr>"

inductive sys_step :: "loop_sys \<Rightarrow> loop_sys \<Rightarrow> bool" where
  enter: "pc s \<in> {Idle, Exited} \<Longrightarrow> sys_step s (s\<lparr>looping := True, quit := False, pc := Checking\<rparr>)"
| check: "pc s = Checking \<Longrightarrow> 
    sys_step s (if quit s then s\<lparr>early := [], pc := Leaving\<rparr> else s\<lparr>pc := Polling\<rparr>)"
| poll: "pc s = Polling \<Longrightarrow> sys_step s (s\<lparr>early := [], pc := Handling\<rparr>)"
| wakeup: "pc s = Handling \<Longrightarrow> sys_step s (HandleWakeup s)"
| own_queue: "pc s \<in> {Idle, Handling, Running, Draining, Exited} \<Longrightarrow> sys_step s (own_post t s)"
| own_quit: "pc s \<in> {Idle, Handling, Running, Draining, Exited} \<Longrightarrow> sys_step s (Quit s)"
| pending: "pc s = Handling \<Longrightarrow> sys_step s (s\<lparr>need_wakup := True, pc := Swapping\<rparr>)"
| swap: "pc s = Swapping \<Longrightarrow>
    sys_step s (s\<lparr>local_tasks := task_list s, task_list := [], pc := Running\<rparr>)"
| final_swap: "pc s = Leaving \<Longrightarrow>
    sys_step s (s\<lparr>need_wakup := True, local_tasks := task_list s, task_list := [], pc := Draining\<rparr>)"
| run: "pc s \<in> {Running, Draining} \<Longrightarrow> local_tasks s = t # ts \<Longrightarrow>
    sys_step s (s\<lparr>local_tasks := ts, log_done := log_done s @ [t]\<rparr>)"
| finish: "pc s = Running \<Longrightarrow> local_tasks s = [] \<Longrightarrow> sys_step s (s\<lparr>need_wakup := False, pc := Checking\<rparr>)"
| leave: "pc s = Draining \<Longrightarrow> local_tasks s = [] \<Longrightarrow>
    sys_step s (s\<lparr>need_wakup := False, looping := False, pc := Exited\<rparr>)"
| foreign_push: "sys_step s ((QueueInLoop_push t s)\<lparr>log_posted := log_posted s @ [t], wakers := wakers s + 1\<rparr>)"
| foreign_quit: "sys_step s (s\<lparr>quit := True, wakers := wakers s + 1\<rparr>)"
| foreign_wake: "0 < wakers s \<Longrightarrow> sys_step s ((Wakeup s)\<lparr>wakers := wakers s - 1\<rparr>)"

text \<open>A loop that has been constructed and not started.\<close>

definition sys_start :: "loop_sys \<Rightarrow> bool" where
  "sys_start s \<longleftrightarrow> pc s = Idle \<and> IsInLoopThread s \<and> task_list s = [] \<and> local_tasks s = [] \<and>
     wakeup_count s = 0 \<and> wakers s = 0 \<and> log_posted s = [] \<and> log_done s = [] \<and> early s = []"

inductive sys_reach :: "loop_sys \<Rightarrow> bool" where
  init: "sys_start s \<Longrightarrow> sys_reach s"
| step: "sys_reach s \<Longrightarrow> sys_step s s' \<Longrightarrow> sys_reach s'"

text \<open>The wakeup descriptor is readable, or some thread is about to make it so.\<close>

definition woken :: "'z event_loop_scheme \<Rightarrow> nat \<Rightarrow> bool" where
  "woken s n \<longleftrightarrow> wakeup_count s \<noteq> 0 \<or> 0 < n"

definition sys_inv :: "loop_sys \<Rightarrow> bool" where
  "sys_inv s \<longleftrightarrow> IsInLoopThread s \<and> wakeup_count s \<noteq> - 1 \<and>
     (pc s \<in> {Swapping, Running, Draining} \<longrightarrow> need_wakup s) \<and>
     (pc s \<notin> {Running, Draining} \<longrightarrow> local_tasks s = []) \<and>
     (pc s \<notin> {Handling, Swapping, Leaving} \<longrightarrow> woken s (wakers s) \<or> task_list s = early s) \<and>
     (pc s \<in> {Handling, Swapping, Running, Leaving, Draining} \<longrightarrow> early s = []) \<and>
     (pc s = Polling \<longrightarrow> quit s \<longrightarrow> woken s (wakers s)) \<and>
     log_posted s = log_done s @ local_tasks s @ task_list s"

lemma Wakeup_count:
  assumes "wakeup_count s \<noteq> - 1"
  shows "wakeup_count (Wakeup s) \<noteq> 0" and "wakeup_count (Wakeup s) \<noteq> - 1"
proof -
  have "c + 1 = 0 \<Longrightarrow> c = - 1" for c :: uint64 by (simp only: eq_neg_iff_add_eq_0)
  moreover have "c + 1 = - 1 \<Longrightarrow> c = - 2" for c :: uint64 by (drule arg_cong [where f = "\<lambda>x. x - 1"]) simp
  ultimately show "wakeup_count (Wakeup s) \<noteq> 0" and "wakeup_count (Wakeup s) \<noteq> - 1"
    using assms by (auto simp: Wakeup_def)
qed

lemma Wakeup_fields [simp]:
  "task_list (Wakeup s) = task_list s" "quit (Wakeup s) = quit s" "need_wakup (Wakeup s) = need_wakup s"
  "IsInLoopThread (Wakeup s) = IsInLoopThread s" "loop_tid (Wakeup s) = loop_tid s" "current_tid (Wakeup s) = current_tid s"
  by (simp_all add: Wakeup_def IsInLoopThread_def)

lemma Wakeup_sys [simp]:
  fixes s :: loop_sys
  shows "pc (Wakeup s) = pc s" "wakers (Wakeup s) = wakers s" "local_tasks (Wakeup s) = local_tasks s"
    "log_posted (Wakeup s) = log_posted s" "log_done (Wakeup s) = log_done s" "early (Wakeup s) = early s"
  by (simp_all add: Wakeup_def)

text \<open>Queueing on the loop's own thread: the task is appended, and the loop is woken when \<^verbatim>\<open>need_wakup_\<close> is set.\<close>

lemma own_post_fields:
  assumes "IsInLoopThread s"
  shows "task_list (own_post t s) = task_list s @ [t]" "log_posted (own_post t s) = log_posted s @ [t]"
    "log_done (own_post t s) = log_done s" "pc (own_post t s) = pc s" "local_tasks (own_post t s) = local_tasks s"
    "wakers (own_post t s) = wakers s" "need_wakup (own_post t s) = need_wakup s" "quit (own_post t s) = quit s"
    "IsInLoopThread (own_post t s)"
    "wakeup_count (own_post t s) = wakeup_count (if need_wakup s then Wakeup s else s)"
    "early (own_post t s) = (if pc s \<in> {Idle, Exited} \<and> \<not> need_wakup s then early s @ [t] else early s)"
  using assms by (simp_all add: own_post_def QueueInLoop_def QueueInLoop_wake_def QueueInLoop_push_def IsInLoopThread_def Wakeup_def)

lemma sys_step_inv: "sys_step s s' \<Longrightarrow> sys_inv s \<Longrightarrow> sys_inv s'"
proof (induction rule: sys_step.induct)
  case (own_queue s t)
  have own: "IsInLoopThread s" and "wakeup_count s \<noteq> - 1" using own_queue.prems by (simp_all add: sys_inv_def)
  note w = Wakeup_count [OF this(2)]
  show ?case using own_queue w
    by (cases "need_wakup s") (auto simp: sys_inv_def own_post_fields [OF own] woken_def)
next
  case (foreign_wake s)
  then have "wakeup_count s \<noteq> - 1" by (simp add: sys_inv_def)
  from Wakeup_count [OF this] show ?case using foreign_wake.prems
    by (simp add: sys_inv_def woken_def IsInLoopThread_def)
next
  case (own_quit s)
  then show ?case by (simp add: sys_inv_def Quit_def IsInLoopThread_def woken_def) (elim disjE; simp)
next
  case (enter s)
  then consider "pc s = Idle" | "pc s = Exited" by blast
  then show ?case using enter.prems by cases (simp_all add: sys_inv_def IsInLoopThread_def woken_def)
next
  case (finish s)
  then have "woken s (wakers s) \<or> task_list s = []" by (auto simp: sys_inv_def)
  then show ?case using finish by (simp add: sys_inv_def IsInLoopThread_def woken_def)
next
  case (leave s)
  then have "woken s (wakers s) \<or> task_list s = []" by (auto simp: sys_inv_def)
  then show ?case using leave by (simp add: sys_inv_def IsInLoopThread_def woken_def)
qed (simp_all add: sys_inv_def IsInLoopThread_def woken_def HandleWakeup_def QueueInLoop_push_def)

lemma sys_reach_inv: "sys_reach s \<Longrightarrow> sys_inv s"
proof (induction rule: sys_reach.induct)
  case (init s)
  then show ?case by (simp add: sys_start_def sys_inv_def)
qed (rule sys_step_inv)

lemma sys_reach_steps: "sys_step\<^sup>*\<^sup>* s t \<Longrightarrow> sys_reach s \<Longrightarrow> sys_reach t"
  by (induction rule: rtranclp_induct) (auto intro: sys_reach.step)

section \<open>The loop's own channels\<close>

text \<open>A channel of the loop: alive, registered, waiting for input, with its read callback set.\<close>

definition own_channel :: "addr \<Rightarrow> 'z poller_scheme \<Rightarrow> bool" where
  "own_channel p s \<longleftrightarrow> (\<exists>c. heap s p = Some c \<and> ch_status c = kAdded \<and> ch_events c = kReadEvent)"

definition el_inv :: "'z event_loop_scheme \<Rightarrow> bool" where
  "el_inv s \<longleftrightarrow> ep_inv s \<and> tq_inv {} (tqueue s) \<and> on_loop (tqueue s) \<and>
     wakeup_channel s \<noteq> timer_channel s \<and>
     own_channel (wakeup_channel s) s \<and> own_channel (timer_channel s) s"

text \<open>
  What the loop asks of its users: a callback or a task keeps the invariant, and a callback
  frees no channel, because the poller's list of active channels still refers to it
  (connections are released in queued tasks for this reason).
\<close>

definition keeps_channels :: "'z event_loop_scheme \<Rightarrow> 'z event_loop_scheme \<Rightarrow> bool" where
  "keeps_channels s s' \<longleftrightarrow> dom (heap s) \<subseteq> dom (heap s') \<and> (quit s \<longrightarrow> quit s')"

definition callbacks_ok :: "(addr \<Rightarrow> callback \<Rightarrow> 'z event_loop_scheme \<Rightarrow> 'z event_loop_scheme outcome) \<Rightarrow> bool" where
  "callbacks_ok U \<longleftrightarrow> (\<forall>p k s. el_inv s \<longrightarrow> p \<in> dom (heap s) \<longrightarrow>
     safely (U p k s) (\<lambda>s'. el_inv s' \<and> keeps_channels s s'))"

definition tasks_ok :: "(nat \<Rightarrow> 'z event_loop_scheme \<Rightarrow> 'z event_loop_scheme outcome) \<Rightarrow> bool" where
  "tasks_ok exec \<longleftrightarrow> (\<forall>n s. el_inv s \<longrightarrow> safely (exec n s) (\<lambda>s'. el_inv s' \<and> (quit s \<longrightarrow> quit s')))"

lemma own_channel_same_registry:
  assumes "same_registry s t" and "own_channel p s"
  shows "own_channel p t"
proof -
  obtain c where "heap s p = Some c" "ch_status c = kAdded" "ch_events c = kReadEvent"
    using assms(2) by (auto simp: own_channel_def)
  moreover obtain d where "heap t p = Some d" "core d = core c"
    using same_registryD' [OF assms(1)] calculation(1) by blast
  ultimately show ?thesis by (simp add: own_channel_def core_def)
qed

lemma el_inv_same_registry:
  assumes "el_inv s" and "same_registry s t" and "ep_inv t" and "tqueue t = tqueue s"
    and "wakeup_channel t = wakeup_channel s" and "timer_channel t = timer_channel s"
  shows "el_inv t"
  using assms own_channel_same_registry [OF assms(2)] by (simp add: el_inv_def)

lemma ep_inv_ext:
  assumes "ep_inv s" and "heap t = heap s" "channels t = channels s" "active_channels t = active_channels s"
    "channel_nums t = channel_nums s" "cur_max_fd t = cur_max_fd s" "event_list t = event_list s"
    "interest t = interest s" "loop_self t = loop_self s" "loop_tid t = loop_tid s" "current_tid t = current_tid s"
  shows "ep_inv t"
  using assms(1) by (rule ep_inv_same_registry) (use assms in \<open>simp_all add: same_registry_def ep_inv_def\<close>)

lemma el_inv_fields [simp]:
  "el_inv (s\<lparr>wakeup_count := n\<rparr>) = el_inv s" "el_inv (s\<lparr>task_list := ts\<rparr>) = el_inv s"
  "el_inv (s\<lparr>need_wakup := b\<rparr>) = el_inv s" "el_inv (s\<lparr>iteration := i\<rparr>) = el_inv s"
  "el_inv (s\<lparr>quit := b\<rparr>) = el_inv s" "el_inv (s\<lparr>looping := b\<rparr>) = el_inv s"
  by (simp_all add: el_inv_def own_channel_def ep_inv_def used_def slot_ok_def channel_ok_def IsInLoopThread_def)

lemma el_inv_tqueue: "el_inv s \<Longrightarrow> tq_inv {} q \<Longrightarrow> on_loop q \<Longrightarrow> el_inv (s\<lparr>tqueue := q\<rparr>)"
  by (simp add: el_inv_def own_channel_def ep_inv_def used_def slot_ok_def channel_ok_def IsInLoopThread_def)

lemma el_inv_handling:
  assumes "el_inv s" and "heap s p = Some c"
  shows "el_inv (s\<lparr>heap := (heap s)(p \<mapsto> c\<lparr>ch_handling := h\<rparr>)\<rparr>)"
proof -
  let ?t = "s\<lparr>heap := (heap s)(p \<mapsto> c\<lparr>ch_handling := h\<rparr>)\<rparr>"
  have r: "same_registry s ?t" using assms(2) by (simp add: same_registry_def)
  have "ep_inv ?t"
    by (rule ep_inv_same_registry [OF _ r]) (use assms(1) in \<open>simp_all add: el_inv_def ep_inv_def\<close>)
  then show ?thesis by (rule el_inv_same_registry [OF assms(1) r]) simp_all
qed

lemma loop_call_ok:
  assumes "callbacks_ok U" and "alloc_ok T" and "el_inv s" and "p \<in> dom (heap s)"
  shows "safely (loop_call T U p k s) (\<lambda>s'. el_inv s' \<and> keeps_channels s s')"
proof -
  have q: "tq_inv {} (tqueue s)" "on_loop (tqueue s)" using assms(3) by (simp_all add: el_inv_def)
  have "safely (TimerQueue_HandleRead T (tqueue s)) (\<lambda>q. el_inv (s\<lparr>tqueue := q\<rparr>) \<and> keeps_channels s (s\<lparr>tqueue := q\<rparr>))"
    by (rule safely_mono [OF HandleRead_ok [OF q assms(2)]])
      (use assms(3) in \<open>simp add: el_inv_tqueue keeps_channels_def\<close>)
  then show ?thesis using assms by (auto simp: loop_call_def HandleWakeup_def keeps_channels_def callbacks_ok_def)
qed

lemma fire_ok:
  assumes "callbacks_ok U" and "alloc_ok T" and "el_inv s" and "p \<in> dom (heap s)"
  shows "safely (fire (loop_call T U p) k bits p s) (\<lambda>s'. el_inv s' \<and> keeps_channels s s')"
  using loop_call_ok [OF assms] assms(3,4) by (auto simp: fire_def keeps_channels_def)

lemma keeps_channels_trans: "keeps_channels s t \<Longrightarrow> keeps_channels t u \<Longrightarrow> keeps_channels s u"
  by (auto simp: keeps_channels_def)

lemma HandleEvent_impl_ok:
  assumes "callbacks_ok U" and "alloc_ok T" and "el_inv s" and "p \<in> dom (heap s)"
  shows "safely (HandleEvent_impl (loop_call T U p) p s) (\<lambda>s'. el_inv s' \<and> keeps_channels s s')"
proof -
  obtain c where c: "heap s p = Some c" using assms(4) by blast
  let ?s = "s\<lparr>heap := (heap s)(p \<mapsto> c\<lparr>ch_handling := True\<rparr>)\<rparr>"
  have s: "el_inv ?s" "p \<in> dom (heap ?s)" "keeps_channels s ?s"
    using el_inv_handling [OF assms(3) c] by (auto simp: keeps_channels_def)
  note f = fire_ok [OF assms(1,2) s(1,2)]
  have two: "safely (fire (loop_call T U p) ReadCb b p ?s) (\<lambda>s1. safely (fire (loop_call T U p) WriteCb b' p s1)
      (\<lambda>s'. el_inv s' \<and> keeps_channels ?s s'))" for b b'
  proof (rule safely_mono [OF f])
    fix s1 assume s1: "el_inv s1 \<and> keeps_channels ?s s1"
    then have "p \<in> dom (heap s1)" by (auto simp: keeps_channels_def)
    then show "safely (fire (loop_call T U p) WriteCb b' p s1) (\<lambda>s'. el_inv s' \<and> keeps_channels ?s s')"
      using s1 by (intro safely_mono [OF fire_ok [OF assms(1,2)]]) (auto intro: keeps_channels_trans)
  qed
  have reset: "safely (modify p (\<lambda>c. c\<lparr>ch_handling := False\<rparr>) s') (\<lambda>s''. el_inv s'' \<and> keeps_channels s s'')"
    if "el_inv s' \<and> keeps_channels ?s s'" for s'
  proof -
    have k: "keeps_channels s s'" using that s(3) keeps_channels_trans by blast
    then obtain d where d: "heap s' p = Some d" using assms(4) by (auto simp: keeps_channels_def)
    have "keeps_channels s (s'\<lparr>heap := (heap s')(p \<mapsto> d\<lparr>ch_handling := False\<rparr>)\<rparr>)"
      using k by (auto simp: keeps_channels_def)
    then show ?thesis using that d el_inv_handling [of s' p d False] by simp
  qed
  let ?hup = "has_event (ch_revents c) (EPOLLHUP OR EPOLLRDHUP)" and ?err = "has_event (ch_revents c) EPOLLERR"
  have "safely (if ?hup then fire (loop_call T U p) CloseCb (EPOLLHUP OR EPOLLRDHUP) p ?s
      else if ?err then fire (loop_call T U p) ErrorCb EPOLLERR p ?s
      else rbind (fire (loop_call T U p) ReadCb (EPOLLIN OR EPOLLPRI) p ?s) (fire (loop_call T U p) WriteCb EPOLLOUT p))
    (\<lambda>s'. el_inv s' \<and> keeps_channels ?s s')" (is "safely ?body _")
    using f two by simp
  then have "safely ?body (\<lambda>s'. safely (modify p (\<lambda>c. c\<lparr>ch_handling := False\<rparr>) s') (\<lambda>s''. el_inv s'' \<and> keeps_channels s s''))"
    by (rule safely_mono) (rule reset)
  then show ?thesis using c by (simp add: HandleEvent_impl_def split del: if_split cong: if_cong)
qed

lemma HandleEvent_ok:
  assumes "callbacks_ok U" and "alloc_ok T" and "el_inv s" and "p \<in> dom (heap s)"
  shows "safely (HandleEvent alive (loop_call T U p) p s) (\<lambda>s'. el_inv s' \<and> keeps_channels s s')"
  using HandleEvent_impl_ok [OF assms] assms(3,4)
  by (auto simp: HandleEvent_def keeps_channels_def split: option.splits)

lemma handle_active_ok:
  assumes "callbacks_ok U" and "alloc_ok T" and "el_inv s" and "set ps \<subseteq> dom (heap s)"
  shows "safely (handle_active alive T U ps s) (\<lambda>s'. el_inv s' \<and> keeps_channels s s')"
  using assms(3,4)
proof (induction ps arbitrary: s)
  case (Cons p ps)
  then have "p \<in> dom (heap s)" by simp
  note h = HandleEvent_ok [OF assms(1,2) Cons.prems(1) this, of alive]
  show ?case unfolding handle_active.simps safely_rbind
  proof (rule safely_mono [OF h])
    fix s1 assume s1: "el_inv s1 \<and> keeps_channels s s1"
    then have "set ps \<subseteq> dom (heap s1)" using Cons.prems by (auto simp: keeps_channels_def)
    then show "safely (handle_active alive T U ps s1) (\<lambda>s'. el_inv s' \<and> keeps_channels s s')"
      using s1 by (intro safely_mono [OF Cons.IH]) (auto intro: keeps_channels_trans)
  qed
qed (simp add: keeps_channels_def)

lemma run_task_ok:
  assumes "tasks_ok exec" and "el_inv s"
  shows "safely (run_task T exec t s) (\<lambda>s'. el_inv s' \<and> (quit s \<longrightarrow> quit s'))"
proof (cases t)
  case TimerTask
  have q: "tq_inv {} (tqueue s)" "on_loop (tqueue s)" using assms(2) by (simp_all add: el_inv_def)
  show ?thesis unfolding run_task_def TimerTask
    using safely_mono [OF succeeds_safely [OF run_posted_ok [OF q, of T]]] assms(2)
    by (simp add: el_inv_tqueue)
qed (use assms in \<open>simp add: run_task_def tasks_ok_def\<close>)

lemma run_tasks_ok:
  fixes s :: "'z event_loop_scheme"
  assumes "tasks_ok exec" and "el_inv s"
  shows "safely (run_tasks T exec ts s) (\<lambda>s'. el_inv s' \<and> (quit s \<longrightarrow> quit s'))"
  using assms(2)
proof (induction ts arbitrary: s)
  case (Cons t ts)
  show ?case unfolding run_tasks.simps safely_rbind
  proof (rule safely_mono [OF run_task_ok [OF assms(1) Cons.prems]])
    fix s1 :: "'z event_loop_scheme" assume "el_inv s1 \<and> (quit s \<longrightarrow> quit s1)"
    then show "safely (run_tasks T exec ts s1) (\<lambda>s'. el_inv s' \<and> (quit s \<longrightarrow> quit s'))"
      by (intro safely_mono [OF Cons.IH]) auto
  qed
qed simp

lemma DoPendingTasks_ok:
  "tasks_ok exec \<Longrightarrow> el_inv s \<Longrightarrow> safely (DoPendingTasks T exec s) (\<lambda>s'. el_inv s' \<and> (quit s \<longrightarrow> quit s'))"
  using run_tasks_ok [of exec "s\<lparr>need_wakup := True, task_list := []\<rparr>" T "task_list s"]
  by (simp add: DoPendingTasks_def Let_def)

section \<open>Rounds and runs of the loop\<close>

text \<open>Polling changes only fields of the poller.\<close>

lemma Fill_loop_more: "Fill_loop evs i s = Inr t \<Longrightarrow> poller.more t = poller.more s"
proof (induction evs arbitrary: i s)
  case Nil
  then show ?case by (auto simp: rbind_Inr_conv)
next
  case (Cons e evs)
  obtain ev p where e: "e = (ev, p)" by (cases e)
  from Cons.prems obtain c where "deref p s = Inr c" by (auto simp: e rbind_Inr_conv)
  with Cons.prems show ?case
    by (auto simp: e rbind_Inr_conv modify_def dest!: Cons.IH split: if_splits)
qed

lemma Poll_more:
  assumes "Epoller_Poll E a s = Inr t"
  shows "poller.more t = poller.more s"
proof (cases a)
  case (Inr evs)
  then show ?thesis using assms
    by (auto simp: Epoller_Poll_def FillActiveChannel_def rbind_Inr_conv Let_def dest!: Fill_loop_more split: if_splits)
qed (use assms in \<open>auto simp: Epoller_Poll_def rbind_Inr_conv Let_def\<close>)

lemma more_fields:
  fixes s t :: "'z event_loop_scheme"
  assumes "poller.more t = poller.more s"
  shows "wakeup_channel t = wakeup_channel s" "timer_channel t = timer_channel s" "tqueue t = tqueue s" "quit t = quit s"
  using assms by (cases s; cases t; simp)+

definition kernel_answer_ok :: "'z poller_scheme \<Rightarrow> (int, (events \<times> addr) list) sum \<Rightarrow> bool" where
  "kernel_answer_ok s a \<longleftrightarrow> (case a of Inl err \<Rightarrow> True | Inr evs \<Rightarrow> answer_ok s evs)"

lemma Poll_el:
  assumes "el_inv s" and "kernel_answer_ok s a"
  shows "succeeds (Epoller_Poll E a s) (\<lambda>t. el_inv t \<and> set (dispatched t) \<subseteq> dom (heap t) \<and> (quit s \<longrightarrow> quit t))"
proof -
  have inv: "ep_inv s" using assms(1) by (simp add: el_inv_def)
  obtain t ps where t: "Epoller_Poll E a s = Inr t" "ep_inv t" "same_registry s t" "dispatched t = ps"
      "set ps \<subseteq> dom (heap s)"
  proof (cases a)
    case (Inl err)
    then show ?thesis using that Poll_quiet(1) [OF inv, of E err] by (auto elim!: succeedsE)
  next
    case (Inr evs)
    then have "answer_ok s evs" using assms(2) by (simp add: kernel_answer_ok_def)
    moreover have "snd ` set evs \<subseteq> dom (heap s)"
      using kernel_interest_owner [OF inv] calculation by (fastforce simp: answer_ok_def)
    ultimately show ?thesis using that Inr Poll_ok [OF inv, of evs E] by (auto elim!: succeedsE)
  qed
  note m = more_fields [OF Poll_more [OF t(1)]]
  have "set ps \<subseteq> dom (heap t)" using t(5) same_registryD' [OF t(3)] by blast
  then show ?thesis using t m el_inv_same_registry [OF assms(1) t(3,2) m(3,1,2)] by simp
qed

lemma Loop_round_ok:
  fixes s :: "'z event_loop_scheme"
  assumes "callbacks_ok U" and "tasks_ok exec" and "alloc_ok T" and "el_inv s" and "kernel_answer_ok s a"
  shows "safely (Loop_round E T alive U exec a s) (\<lambda>s'. el_inv s' \<and> (quit s \<longrightarrow> quit s'))"
  unfolding Loop_round_def safely_rbind Let_def
proof (rule safely_mono [OF succeeds_safely [OF Poll_el [OF assms(4,5)]]])
  fix t :: "'z event_loop_scheme" assume t: "el_inv t \<and> set (dispatched t) \<subseteq> dom (heap t) \<and> (quit s \<longrightarrow> quit t)"
  let ?t = "t\<lparr>iteration := iteration t + 1\<rparr>"
  have "set (dispatched ?t) \<subseteq> dom (heap ?t)" using t by (simp add: dispatched_def)
  then show "safely (handle_active alive T U (dispatched ?t) ?t)
      (\<lambda>x. safely (DoPendingTasks T exec x) (\<lambda>s'. el_inv s' \<and> (quit s \<longrightarrow> quit s')))"
    using t by (intro safely_mono [OF handle_active_ok [OF assms(1,3)]] safely_mono [OF DoPendingTasks_ok [OF assms(2)]])
      (auto simp: keeps_channels_def)
qed

lemma foreign_act_fields:
  "heap (foreign_act tid a s) = heap s" "channels (foreign_act tid a s) = channels s"
  "active_channels (foreign_act tid a s) = active_channels s" "channel_nums (foreign_act tid a s) = channel_nums s"
  "cur_max_fd (foreign_act tid a s) = cur_max_fd s" "event_list (foreign_act tid a s) = event_list s"
  "interest (foreign_act tid a s) = interest s" "loop_self (foreign_act tid a s) = loop_self s"
  "loop_tid (foreign_act tid a s) = loop_tid s" "current_tid (foreign_act tid a s) = current_tid s"
  "wakeup_channel (foreign_act tid a s) = wakeup_channel s" "timer_channel (foreign_act tid a s) = timer_channel s"
  "tqueue (foreign_act tid a s) = tqueue s" "quit (foreign_act tid a s) = (quit s \<or> a = ForeignQuit)"
  by (cases a; simp add: foreign_act_def QueueInLoop_def QueueInLoop_wake_def QueueInLoop_push_def Quit_def
      Wakeup_def Let_def)+

lemma foreign_act_ok: "el_inv s \<Longrightarrow> el_inv (foreign_act tid a s)"
  by (rule el_inv_same_registry [of s]) (auto simp: same_registry_def el_inv_def foreign_act_fields intro: ep_inv_ext)

lemma foreign_acts_ok:
  assumes "el_inv s"
  shows "el_inv (fold (\<lambda>(tid, act). foreign_act tid act) acts s)"
    and "quit (fold (\<lambda>(tid, act). foreign_act tid act) acts s) = (quit s \<or> ForeignQuit \<in> snd ` set acts)"
  using assms by (induction acts arbitrary: s) (auto simp: foreign_act_ok foreign_act_fields)

text \<open>The kernel's answers of a run, and a run in which some thread asks the loop to quit.\<close>

definition rounds_ok :: "((int \<times> foreign) list \<times> ('z event_loop_scheme \<Rightarrow> (int, (events \<times> addr) list) sum)) list \<Rightarrow> bool" where
  "rounds_ok rounds \<longleftrightarrow> (\<forall>(acts, a) \<in> set rounds. \<forall>s. el_inv s \<longrightarrow> kernel_answer_ok s (a s))"

definition asks_quit :: "((int \<times> foreign) list \<times> 'b) list \<Rightarrow> bool" where
  "asks_quit rounds \<longleftrightarrow> (\<exists>(acts, a) \<in> set rounds. ForeignQuit \<in> snd ` set acts)"

lemma Loop_while_ok:
  fixes s :: "'z event_loop_scheme"
  assumes "callbacks_ok U" and "tasks_ok exec" and "alloc_ok T" and "rounds_ok rounds" and "el_inv s"
  shows "(case Loop_while (\<lambda>s a. Loop_round E T alive U exec (a s) s) rounds s of
      None \<Rightarrow> \<not> asks_quit rounds | Some r \<Rightarrow> safely r (\<lambda>s'. el_inv s' \<and> quit s'))"
  using assms(4,5)
proof (induction rounds arbitrary: s)
  case Nil
  then show ?case by (simp add: asks_quit_def)
next
  case (Cons r rounds)
  obtain acts a where r: "r = (acts, a)" by (cases r)
  let ?s = "fold (\<lambda>(tid, act). foreign_act tid act) acts s"
  note f = foreign_acts_ok [OF Cons.prems(2), of acts]
  have "kernel_answer_ok ?s (a ?s)" using Cons.prems(1) f(1) by (simp add: rounds_ok_def r)
  note ok = Loop_round_ok [OF assms(1-3) f(1) this, of E alive]
  have rest: "rounds_ok rounds" using Cons.prems(1) by (simp add: rounds_ok_def)
  show ?case
  proof (cases "Loop_round E T alive U exec (a ?s) ?s")
    case (Inl e)
    then show ?thesis using ok Cons.prems(2) by (simp add: r)
  next
    case (Inr s1)
    then have s1: "el_inv s1" "quit ?s \<longrightarrow> quit s1" using ok by auto
    have "Loop_while (\<lambda>s a. Loop_round E T alive U exec (a s) s) rounds s1 = Some (Inr s1)" if "quit s1"
      using that by (cases rounds) auto
    then show ?thesis using Inr Cons.IH [OF rest s1(1)] s1 f(2) Cons.prems(2)
      by (auto simp: r asks_quit_def split: option.splits)
  qed
qed

text \<open>Removing one of the loop's channels.\<close>

lemma drop_channel_eq:
  assumes "env_ok E" and "ep_inv s" and "heap s p = Some c" and "ch_status c \<noteq> kNew"
  shows "drop_channel E p s = Inr (unregistered p (c\<lparr>ch_events := kNoneEvent, ch_status := kDel\<rparr>)
           (registered p c kNoneEvent s))"
    and "ep_inv (unregistered p (c\<lparr>ch_events := kNoneEvent, ch_status := kDel\<rparr>) (registered p c kNoneEvent s))"
proof -
  let ?c = "c\<lparr>ch_events := kNoneEvent, ch_status := kDel\<rparr>" and ?s = "registered p c kNoneEvent s"
  have up: "updatable p c s" using assms(3,4) by (simp add: updatable_def)
  have inv: "ep_inv ?s" by (rule ep_inv_registered [OF assms(2) up])
  have c: "heap ?s p = Some ?c" by (simp add: registered_def expected_status_def)
  have n: "ch_status ?c \<noteq> kNew" by (simp add: status_defs)
  show "drop_channel E p s = Inr (unregistered p ?c ?s)"
    using set_events_eq [OF assms(1,2) up, of "\<lambda>_. kNoneEvent"] Channel_Remove_eq [OF assms(1) inv c] n
    by (simp add: drop_channel_def DisableAll_def)
  show "ep_inv (unregistered p ?c ?s)" by (rule ep_inv_unregistered [OF inv c n])
qed

lemma used_drop:
  assumes "ep_inv s" and "heap s p = Some c"
  shows "used (unregistered p (c\<lparr>ch_events := kNoneEvent, ch_status := kDel\<rparr>) (registered p c kNoneEvent s))
    = used s - {nat (ch_fd c)}"
proof -
  have "nat (ch_fd c) < length (channels s)" using ep_inv_channel [OF assms] by (simp add: channel_ok_def)
  then show ?thesis by (auto simp: used_unregistered used_registered)
qed

lemma own_channel_used:
  assumes "ep_inv s" and "own_channel p s"
  obtains c where "heap s p = Some c" "ch_status c \<noteq> kNew" "nat (ch_fd c) \<in> used s"
    "channels s ! nat (ch_fd c) = Some p" "0 < ch_fd c"
proof -
  obtain c where c: "heap s p = Some c" "ch_status c \<noteq> kNew"
    using assms(2) by (auto simp: own_channel_def status_defs)
  then have "channel_ok s p c" using ep_inv_channel [OF assms(1)] by simp
  then show ?thesis using c by (intro that [of c]) (auto simp: channel_ok_def used_def)
qed

lemma ep_inv_core_upd:
  assumes "ep_inv s" and "heap s p = Some c" and "core d = core c"
  shows "ep_inv (s\<lparr>heap := (heap s)(p \<mapsto> d)\<rparr>)"
  using assms(1) by (rule ep_inv_same_registry) (use assms in \<open>simp_all add: same_registry_def ep_inv_def\<close>)

lemma ctor_base:
  "ep_inv (poller.extend ((Epoller_ctor ke self tid Map.empty)\<lparr>loop_fds := fds\<rparr>) m)"
  by (rule ep_inv_same_registry [OF ep_inv_ctor [of ke self tid]])
    (simp_all add: same_registry_def poller.defs Epoller_ctor_def kInitActiveChannelSize_def)

text \<open>Creating a channel with a read callback and enabling it for reading, on a free descriptor.\<close>

lemma enable_fresh:
  assumes "env_ok E" and "ep_inv s" and "heap s p = Some c" and "c = Channel_ctor (Some (loop_self s)) fd nm"
    and "0 < fd" "nat fd < length (channels s)" "channels s ! nat fd = None"
  shows "rbind (modify p (\<lambda>c. c\<lparr>ch_has_read := True\<rparr>) s) (EnableReading E p)
    = Inr (registered p (c\<lparr>ch_has_read := True\<rparr>) kReadEvent (s\<lparr>heap := (heap s)(p \<mapsto> c\<lparr>ch_has_read := True\<rparr>)\<rparr>))"
    and "ep_inv (registered p (c\<lparr>ch_has_read := True\<rparr>) kReadEvent (s\<lparr>heap := (heap s)(p \<mapsto> c\<lparr>ch_has_read := True\<rparr>)\<rparr>))"
proof -
  let ?c = "c\<lparr>ch_has_read := True\<rparr>" and ?s = "s\<lparr>heap := (heap s)(p \<mapsto> c\<lparr>ch_has_read := True\<rparr>)\<rparr>"
  have inv: "ep_inv ?s" by (rule ep_inv_core_upd [OF assms(2,3)]) (simp add: core_def)
  have up: "updatable p ?c ?s" using assms(4,7) by (simp add: updatable_def Channel_ctor_def)
  have "ch_events ?c OR kReadEvent = kReadEvent" using assms(4) by (simp add: Channel_ctor_def kNoneEvent_def)
  then show "rbind (modify p (\<lambda>c. c\<lparr>ch_has_read := True\<rparr>) s) (EnableReading E p) = Inr (registered p ?c kReadEvent ?s)"
    using set_events_eq [OF assms(1) inv up, of "\<lambda>ev. ev OR kReadEvent"] assms(3) by (simp add: EnableReading_def)
  show "ep_inv (registered p ?c kReadEvent ?s)" by (rule ep_inv_registered [OF inv up])
qed

lemma read_event_status: "expected_status kReadEvent = kAdded" "kReadEvent \<noteq> kNoneEvent"
  by (simp_all add: expected_status_def event_masks)

lemma EventLoop_ctor_ok:
  assumes "env_ok E" and "wp \<noteq> tp" and "wfd \<noteq> tfd" and "0 < wfd" "wfd < 1048576" and "0 < tfd" "tfd < 1048576"
  shows "succeeds (EventLoop_ctor E self tid wp wfd ke tp tfd None nw) (\<lambda>s. el_inv s \<and> \<not> looping s \<and>
      channel_nums s = 2 \<and> sig_channel s = None \<and> loop_in_thread s = Some self \<and> task_list s = [] \<and> wakeup_count s = 0 \<and>
      wakeup_channel s = wp \<and> timer_channel s = tp \<and>
      interest s = [wfd \<mapsto> (kReadEvent, wp), tfd \<mapsto> (kReadEvent, tp)] \<and>
      (\<forall>p c. heap s p = Some c \<longrightarrow> \<not> ch_handling c) \<and>
      dom (heap s) = {wp, tp} \<and> used s = {nat wfd, nat tfd} \<and> length (channels s) = kInitTotalChannelSize \<and>
      wakeupfd s = wfd \<and> timerfd s = tfd \<and> efd s = ke \<and> loop_fds s = [wfd, ke, tfd] \<and> tqueue s = TimerQueue_ctor)"
proof -
  define s0 :: event_loop where "s0 = poller.extend ((Epoller_ctor ke self tid Map.empty)\<lparr>loop_fds := [wfd, ke, tfd]\<rparr>)
      (event_loop.fields False False 0 [] nw 0 wp tp None None None None None TimerQueue_ctor None wfd tfd 0)"
  have i0: "ep_inv s0" unfolding s0_def by (rule ctor_base)
  let ?cw = "Channel_ctor (Some self) wfd ''wakeup''" and ?ct = "Channel_ctor (Some self) tfd ''queue''"
  let ?s2 = "s0\<lparr>heap := [wp \<mapsto> ?cw, tp \<mapsto> ?ct]\<rparr>"
  have f0: "heap s0 = Map.empty" "loop_self s0 = self" "channels s0 = replicate kInitTotalChannelSize None"
      "tqueue s0 = TimerQueue_ctor" "interest s0 = Map.empty" "channel_nums s0 = 0"
    by (simp_all add: s0_def poller.defs event_loop.defs Epoller_ctor_def)
  have len: "nat wfd < kInitTotalChannelSize" "nat tfd < kInitTotalChannelSize"
    using assms by (simp_all add: kInitTotalChannelSize_def)
  have "ep_inv (s0\<lparr>heap := (heap s0)(wp \<mapsto> ?cw)\<rparr>)"
    using ep_inv_heap_new [OF i0, of wp wfd "''wakeup''"] f0 len assms by simp
  from ep_inv_heap_new [OF this, of tp tfd "''queue''"] have i2: "ep_inv ?s2"
    using f0 len assms by simp
  have new: "rbind (new_Channel E wp wfd ''wakeup'' s0) (new_Channel E tp tfd ''queue'') = Inr ?s2"
    using assms f0 by (simp add: new_Channel_def)
  let ?s4 = "registered tp (?ct\<lparr>ch_has_read := True\<rparr>) kReadEvent (?s2\<lparr>heap := (heap ?s2)(tp \<mapsto> ?ct\<lparr>ch_has_read := True\<rparr>)\<rparr>)"
  have "rbind (modify tp (\<lambda>c. c\<lparr>ch_has_read := True\<rparr>) ?s2) (EnableReading E tp) = Inr ?s4" "ep_inv ?s4"
    using enable_fresh [OF assms(1) i2, of tp ?ct tfd "''queue''"] f0 len assms by simp_all
  note s4 = this
  let ?s5 = "?s4\<lparr>loop_in_thread := Some self\<rparr>"
  have i5: "ep_inv ?s5" by (rule ep_inv_ext [OF s4(2)]) simp_all
  have f5: "heap ?s5 wp = Some ?cw" "loop_self ?s5 = self" "channels ?s5 = (replicate kInitTotalChannelSize None)[nat tfd := Some tp]"
    using assms(2) f0 by (simp_all add: registered_def Channel_ctor_def)
  let ?s7 = "registered wp (?cw\<lparr>ch_has_read := True\<rparr>) kReadEvent (?s5\<lparr>heap := (heap ?s5)(wp \<mapsto> ?cw\<lparr>ch_has_read := True\<rparr>)\<rparr>)"
  have s7: "rbind (modify wp (\<lambda>c. c\<lparr>ch_has_read := True\<rparr>) ?s5) (EnableReading E wp) = Inr ?s7" "ep_inv ?s7"
    using enable_fresh [OF assms(1) i5 f5(1), of wfd "''wakeup''"] f5 len assms by (simp_all add: nth_list_update)
  have r: "EventLoop_ctor E self tid wp wfd ke tp tfd None nw = Inr ?s7"
  proof -
    have "EventLoop_ctor E self tid wp wfd ke tp tfd None nw =
      rbind (rbind (new_Channel E wp wfd ''wakeup'' s0) (new_Channel E tp tfd ''queue'')) (\<lambda>s2.
      rbind (rbind (modify tp (\<lambda>c. c\<lparr>ch_has_read := True\<rparr>) s2) (EnableReading E tp)) (\<lambda>s4.
      rbind (modify wp (\<lambda>c. c\<lparr>ch_has_read := True\<rparr>) (s4\<lparr>loop_in_thread := Some self\<rparr>)) (EnableReading E wp)))"
      by (simp add: EventLoop_ctor_def rbind_assoc s0_def Let_def Epoller_ctor_def)
    then show ?thesis by (simp only: new s4(1) s7(1) rbind_simps)
  qed
  have own: "own_channel wp ?s7" "own_channel tp ?s7"
    using assms(2) by (simp_all add: own_channel_def registered_def read_event_status)
  have w: "wakeup_channel ?s7 = wp" "timer_channel ?s7 = tp" "tqueue ?s7 = TimerQueue_ctor" "\<not> looping ?s7"
      "sig_channel ?s7 = None" "loop_in_thread ?s7 = Some self" "task_list ?s7 = []" "wakeup_count ?s7 = 0"
      "wakeupfd ?s7 = wfd" "timerfd ?s7 = tfd" "efd ?s7 = ke" "loop_fds ?s7 = [wfd, ke, tfd]"
    by (simp_all add: registered_def s0_def poller.defs event_loop.defs Epoller_ctor_def)
  have "el_inv ?s7" using s7(2) own w assms(2) ctor_tq_inv by (simp add: el_inv_def) (simp add: TimerQueue_ctor_def)
  moreover have "channel_nums ?s7 = 2" using f0 by (simp add: registered_def Channel_ctor_def status_defs)
  moreover have "interest ?s7 = [wfd \<mapsto> (kReadEvent, wp), tfd \<mapsto> (kReadEvent, tp)]"
    using f0 assms(3) by (simp add: registered_def Channel_ctor_def expected_interest_def read_event_status fun_upd_twist)
  moreover have "\<forall>p c. heap ?s7 p = Some c \<longrightarrow> \<not> ch_handling c"
    by (auto simp: registered_def Channel_ctor_def f0)
  moreover have "dom (heap ?s7) = {wp, tp}" using f0 by (auto simp: registered_def)
  moreover have "length (channels ?s7) = kInitTotalChannelSize" "used ?s7 = {nat wfd, nat tfd}"
    using f0 len by (auto simp: registered_def Channel_ctor_def used_def nth_list_update)
  ultimately show ?thesis using r w by simp
qed

section \<open>Properties\<close>

text \<open>A client that does nothing, and a run in which another thread asks the loop to quit.\<close>

definition idle_call :: "addr \<Rightarrow> callback \<Rightarrow> event_loop \<Rightarrow> event_loop outcome" where
  "idle_call p k s = Inr s"

definition idle_task :: "nat \<Rightarrow> event_loop \<Rightarrow> event_loop outcome" where
  "idle_task n s = Inr s"

definition quit_run :: "((int \<times> foreign) list \<times> (event_loop \<Rightarrow> (int, (events \<times> addr) list) sum)) list" where
  "quit_run = [([(8, ForeignQueue (UserTask 0))], \<lambda>s. Inr []), ([(8, ForeignQuit)], \<lambda>s. Inr [])]"

lemma idle_ok: "callbacks_ok idle_call" "tasks_ok idle_task"
  by (auto simp: callbacks_ok_def tasks_ok_def idle_call_def idle_task_def keeps_channels_def)

lemma quit_run_ok: "rounds_ok quit_run" "asks_quit quit_run"
  by (auto simp: rounds_ok_def quit_run_def kernel_answer_ok_def answer_ok_def asks_quit_def)

definition sample_sys :: loop_sys where
  "sample_sys = event_loop.extend
     (poller.extend (Epoller_ctor 3 1 7 Map.empty)
       (event_loop.fields False False 0 [] False 0 10 11 None None None None None TimerQueue_ctor None 5 6 0))
     (loop_sys.fields Idle [] 0 [] [] [])"

lemma sample_sys_start: "sys_start sample_sys"
  by (simp add: sample_sys_def sys_start_def loop_sys.defs event_loop.defs poller.defs IsInLoopThread_def
      Epoller_ctor_def)


text \<open>Entering the loop, with the tasks that its thread has queued before.\<close>

lemma sample_polling:
  "sys_reach (sample_sys\<lparr>looping := True, quit := False, pc := Polling\<rparr>)"
  "sys_reach ((own_post (UserTask 4) sample_sys)\<lparr>looping := True, quit := False, pc := Polling\<rparr>)"
proof -
  have go: "sys_reach (s\<lparr>looping := True, quit := False, pc := Polling\<rparr>)" if "sys_reach s" "pc s = Idle" for s
  proof -
    have "sys_reach (s\<lparr>looping := True, quit := False, pc := Checking\<rparr>)"
      using sys_reach.step [OF that(1) sys_step.enter] that(2) by simp
    from sys_reach.step [OF this sys_step.check] show ?thesis by simp
  qed
  have s: "sys_reach sample_sys" "pc sample_sys = Idle" "IsInLoopThread sample_sys"
    using sample_sys_start by (auto simp: sys_start_def intro: sys_reach.init)
  then show "sys_reach (sample_sys\<lparr>looping := True, quit := False, pc := Polling\<rparr>)" by (intro go)
  show "sys_reach ((own_post (UserTask 4) sample_sys)\<lparr>looping := True, quit := False, pc := Polling\<rparr>)"
    using sys_reach.step [OF s(1) sys_step.own_queue] s by (intro go) (simp_all add: own_post_fields)
qed


text \<open>
  The relation takes the steps of \<^verbatim>\<open>DoPendingTasks\<close> one by one, so that other threads can act between them. \<open>scripted\<close>
  are tasks that record their run and queue further tasks; with them \<open>DoPendingTasks\<close>, undisturbed, is a run of the relation.
\<close>

definition scripted :: "(nat \<Rightarrow> task list) \<Rightarrow> nat \<Rightarrow> loop_sys \<Rightarrow> loop_sys outcome" where
  "scripted todo n s = Inr (fold own_post (todo n) (s\<lparr>log_done := log_done s @ [UserTask n]\<rparr>))"

definition queued_by :: "(nat \<Rightarrow> task list) \<Rightarrow> task \<Rightarrow> task list" where
  "queued_by todo t = (case t of UserTask n \<Rightarrow> todo n | TimerTask \<Rightarrow> [])"

lemma own_posts:
  assumes "IsInLoopThread s"
  shows "IsInLoopThread (fold own_post ts s)" "task_list (fold own_post ts s) = task_list s @ ts"
    "log_done (fold own_post ts s) = log_done s" "pc (fold own_post ts s) = pc s"
    "local_tasks (fold own_post ts s) = local_tasks s"
  using assms by (induction ts arbitrary: s) (simp_all add: own_post_fields)

lemma own_post_at:
  assumes "pc s \<notin> {Idle, Exited}" and "P \<in> {Running, Draining}"
  shows "own_post t (s\<lparr>local_tasks := ks, pc := P\<rparr>) = (own_post t s)\<lparr>local_tasks := ks, pc := P\<rparr>"
  using assms by (auto simp: own_post_def QueueInLoop_def QueueInLoop_wake_def QueueInLoop_push_def IsInLoopThread_def Wakeup_def)

lemma own_posts_steps:
  assumes "pc s \<notin> {Idle, Exited}" and "P \<in> {Running, Draining}" and "IsInLoopThread s"
  shows "sys_step\<^sup>*\<^sup>* (s\<lparr>local_tasks := ks, pc := P\<rparr>) ((fold own_post ts s)\<lparr>local_tasks := ks, pc := P\<rparr>)"
  using assms(1,3)
proof (induction ts arbitrary: s)
  case (Cons t ts)
  have "sys_step (s\<lparr>local_tasks := ks, pc := P\<rparr>) ((own_post t s)\<lparr>local_tasks := ks, pc := P\<rparr>)"
    using sys_step.own_queue [of "s\<lparr>local_tasks := ks, pc := P\<rparr>" t] own_post_at [OF Cons.prems(1) assms(2)] assms(2) by auto
  then show ?case using Cons.IH [of "own_post t s"] Cons.prems by (simp add: own_post_fields converse_rtranclp_into_rtranclp)
qed simp

lemma run_scripted:
  assumes "pc s \<notin> {Idle, Exited}" and "P \<in> {Running, Draining}" and "IsInLoopThread s" and "TimerTask \<notin> set ts"
  shows "\<exists>s'. run_tasks T (scripted todo) ts s = Inr s' \<and> log_done s' = log_done s @ ts \<and>
    task_list s' = task_list s @ concat (map (queued_by todo) ts) \<and>
    sys_step\<^sup>*\<^sup>* (s\<lparr>local_tasks := ts, pc := P\<rparr>) (s'\<lparr>local_tasks := [], pc := P\<rparr>)"
  using assms(1,3,4)
proof (induction ts arbitrary: s)
  case (Cons t ts)
  then obtain n where t: "t = UserTask n" by (cases t) auto
  let ?s = "s\<lparr>log_done := log_done s @ [t]\<rparr>" and ?u = "fold own_post (todo n) (s\<lparr>log_done := log_done s @ [t]\<rparr>)"
  have own: "IsInLoopThread ?s" using Cons.prems by (simp add: IsInLoopThread_def)
  note u = own_posts [OF own, of "todo n"]
  have "TimerTask \<notin> set ts" "pc ?u \<notin> {Idle, Exited}" using Cons.prems u(4) by simp_all
  from Cons.IH [OF this(2) u(1) this(1)] obtain s' where s': "run_tasks T (scripted todo) ts ?u = Inr s'"
      "log_done s' = log_done s @ t # ts" "task_list s' = task_list s @ todo n @ concat (map (queued_by todo) ts)"
      "sys_step\<^sup>*\<^sup>* (?u\<lparr>local_tasks := ts, pc := P\<rparr>) (s'\<lparr>local_tasks := [], pc := P\<rparr>)"
    using u(2,3) by auto
  have "sys_step (s\<lparr>local_tasks := t # ts, pc := P\<rparr>) (?s\<lparr>local_tasks := ts, pc := P\<rparr>)"
    using sys_step.run [of "s\<lparr>local_tasks := t # ts, pc := P\<rparr>" t ts] assms(2) by (cases s) simp
  moreover have "sys_step\<^sup>*\<^sup>* (?s\<lparr>local_tasks := ts, pc := P\<rparr>) (?u\<lparr>local_tasks := ts, pc := P\<rparr>)"
    using own_posts_steps [of ?s P ts] Cons.prems(1) assms(2) own by simp
  ultimately have "sys_step\<^sup>*\<^sup>* (s\<lparr>local_tasks := t # ts, pc := P\<rparr>) (s'\<lparr>local_tasks := [], pc := P\<rparr>)"
    using s'(4) by (meson converse_rtranclp_into_rtranclp rtranclp_trans)
  moreover have "run_task T (scripted todo) t s = Inr ?u" "queued_by todo t = todo n"
    by (simp_all add: t run_task_def scripted_def queued_by_def)
  ultimately show ?case using s'(1-3) by auto
qed simp

lemma run_scripted_keeps:
  assumes "run_tasks T (scripted todo) ts s = Inr s'" and "TimerTask \<notin> set ts" and "IsInLoopThread s"
  shows "local_tasks s' = local_tasks s \<and> pc s' = pc s"
  using assms
proof (induction ts arbitrary: s)
  case (Cons t ts)
  then obtain n where t: "t = UserTask n" by (cases t) auto
  let ?s = "s\<lparr>log_done := log_done s @ [t]\<rparr>"
  have own: "IsInLoopThread ?s" using Cons.prems by (simp add: IsInLoopThread_def)
  note u = own_posts [OF own, of "todo n"]
  show ?case using Cons.prems Cons.IH [of "fold own_post (todo n) ?s"] u by (simp add: t run_task_def scripted_def)
qed simp

text \<open>\<open>DoPendingTasks\<close> in a round of the loop and after the last one.\<close>

lemma DoPendingTasks_run:
  assumes "pc s \<in> {Handling, Leaving}" and "local_tasks s = []" and "IsInLoopThread s" and "TimerTask \<notin> set (task_list s)"
  shows "\<exists>s'. DoPendingTasks T (scripted todo) s = Inr s' \<and> log_done s' = log_done s @ task_list s \<and>
    task_list s' = concat (map (queued_by todo) (task_list s)) \<and>
    sys_step\<^sup>*\<^sup>* s (if pc s = Handling then s'\<lparr>pc := Checking\<rparr> else s'\<lparr>looping := False, pc := Exited\<rparr>)"
proof -
  let ?P = "if pc s = Handling then Running else Draining" and ?s = "s\<lparr>need_wakup := True, task_list := []\<rparr>"
  have "pc ?s \<notin> {Idle, Exited}" "?P \<in> {Running, Draining}" "IsInLoopThread ?s" using assms by (auto simp: IsInLoopThread_def)
  from run_scripted [OF this assms(4), of T todo] obtain u where
    u: "run_tasks T (scripted todo) (task_list s) ?s = Inr u" "log_done u = log_done s @ task_list s"
      "task_list u = concat (map (queued_by todo) (task_list s))"
      "sys_step\<^sup>*\<^sup>* (?s\<lparr>local_tasks := task_list s, pc := ?P\<rparr>) (u\<lparr>local_tasks := [], pc := ?P\<rparr>)"
    by auto
  have k: "local_tasks u = []" "pc u = pc s"
    using run_scripted_keeps [OF u(1) assms(4)] assms(2,3) by (simp_all add: IsInLoopThread_def)
  then have eq: "u\<lparr>local_tasks := []\<rparr> = u" by (cases u) simp
  let ?u = "u\<lparr>need_wakup := False\<rparr>"
  have d: "DoPendingTasks T (scripted todo) s = Inr ?u" using u(1) by (simp add: DoPendingTasks_def)
  have pre: "sys_step\<^sup>*\<^sup>* s (?s\<lparr>local_tasks := task_list s, pc := ?P\<rparr>)"
  proof (cases "pc s = Handling")
    case True
    have "sys_step s (s\<lparr>need_wakup := True, pc := Swapping\<rparr>)" by (rule sys_step.pending [OF True])
    moreover have "sys_step (s\<lparr>need_wakup := True, pc := Swapping\<rparr>) (?s\<lparr>local_tasks := task_list s, pc := ?P\<rparr>)"
      using sys_step.swap [of "s\<lparr>need_wakup := True, pc := Swapping\<rparr>"] True by (cases s) simp
    ultimately show ?thesis by (simp add: converse_rtranclp_into_rtranclp)
  next
    case False
    then have "pc s = Leaving" using assms(1) by simp
    moreover have "?s\<lparr>local_tasks := task_list s, pc := ?P\<rparr>
        = s\<lparr>need_wakup := True, local_tasks := task_list s, task_list := [], pc := Draining\<rparr>"
      using False by simp
    ultimately show ?thesis using sys_step.final_swap by (simp only: r_into_rtranclp)
  qed
  have post: "sys_step (u\<lparr>local_tasks := [], pc := ?P\<rparr>)
      (if pc s = Handling then ?u\<lparr>pc := Checking\<rparr> else ?u\<lparr>looping := False, pc := Exited\<rparr>)"
    using sys_step.finish [of "u\<lparr>pc := Running\<rparr>"] sys_step.leave [of "u\<lparr>pc := Draining\<rparr>"] k unfolding eq by simp
  show ?thesis using d u(2-4) pre post by (intro exI [of _ ?u]) (auto intro: rtranclp_trans rtranclp.rtrancl_into_rtrancl)
qed

text \<open>
  C16: Tasks are run in the order in which they were queued, each at most once and none skipped: at every moment
  the tasks queued so far, by any thread, are those already run, then those of the batch being
  run, then those still in the queue. \<open>DoPendingTasks\<close> runs all tasks that are queued when it starts, in order, leaves those that
  they queue for the next round, and is a run of the relation. Tasks still queued when \<^verbatim>\<open>Loop\<close> returns stay
  in the queue, for a later call of \<^verbatim>\<open>Loop\<close>.
\<close>

theorem tasks_fifo:
  assumes "sys_reach s"
  shows "log_posted s = log_done s @ local_tasks s @ task_list s \<and>
    (pc s \<notin> {Running, Draining} \<longrightarrow> local_tasks s = []) \<and>
    (pc s \<in> {Handling, Leaving} \<and> TimerTask \<notin> set (task_list s) \<longrightarrow>
      (\<exists>s'. DoPendingTasks T (scripted todo) s = Inr s' \<and> log_done s' = log_done s @ task_list s \<and>
        task_list s' = concat (map (queued_by todo) (task_list s)) \<and>
        sys_step\<^sup>*\<^sup>* s (if pc s = Handling then s'\<lparr>pc := Checking\<rparr> else s'\<lparr>looping := False, pc := Exited\<rparr>)))"
proof -
  have "sys_inv s" by (rule sys_reach_inv [OF assms])
  then have "log_posted s = log_done s @ local_tasks s @ task_list s" "pc s \<notin> {Running, Draining} \<longrightarrow> local_tasks s = []"
      "IsInLoopThread s"
    by (simp_all add: sys_inv_def)
  then show ?thesis using DoPendingTasks_run [of s T todo] by auto
qed

text \<open>Two tasks queued by another thread, the first of which queues a third: one round runs the two and leaves the third.\<close>

theorem tasks_fifo_witness:
  "\<exists>s s'. sys_reach s \<and> pc s = Handling \<and> task_list s = [UserTask 1, UserTask 2] \<and> log_done s = [] \<and>
     DoPendingTasks sample_env (scripted (\<lambda>n. if n = 1 then [UserTask 3] else [])) s = Inr s' \<and>
     log_done s' = [UserTask 1, UserTask 2] \<and> task_list s' = [UserTask 3] \<and> sys_reach (s'\<lparr>pc := Checking\<rparr>)"
proof -
  let ?push = "\<lambda>t s. (QueueInLoop_push t s)\<lparr>log_posted := log_posted s @ [t], wakers := wakers s + 1\<rparr>"
  let ?p = "sample_sys\<lparr>looping := True, quit := False, pc := Polling\<rparr>"
  let ?q = "?push (UserTask 2) (?push (UserTask 1) ?p)" and ?todo = "\<lambda>n :: nat. if n = 1 then [UserTask 3] else []"
  let ?s = "?q\<lparr>early := [], pc := Handling\<rparr>"
  have 0: "task_list sample_sys = []" "log_done sample_sys = []" using sample_sys_start by (simp_all add: sys_start_def)
  have "sys_reach (?push (UserTask 1) ?p)" by (rule sys_reach.step [OF sample_polling(1) sys_step.foreign_push])
  then have "sys_reach ?q" by (rule sys_reach.step [OF _ sys_step.foreign_push])
  then have r: "sys_reach ?s" by (rule sys_reach.step [OF _ sys_step.poll]) (simp add: QueueInLoop_push_def)
  have f: "pc ?s = Handling" "task_list ?s = [UserTask 1, UserTask 2]" "log_done ?s = []"
    using 0 by (simp_all add: QueueInLoop_push_def)
  from tasks_fifo [OF r, of sample_env ?todo] obtain s' where s': "DoPendingTasks sample_env (scripted ?todo) ?s = Inr s'"
      "log_done s' = [UserTask 1, UserTask 2]" "task_list s' = [UserTask 3]" "sys_step\<^sup>*\<^sup>* ?s (s'\<lparr>pc := Checking\<rparr>)"
    using f by (auto simp: queued_by_def)
  have "sys_reach (s'\<lparr>pc := Checking\<rparr>)" using sys_reach_steps [OF s'(4) r] .
  then show ?thesis using r f s' by blast
qed

text \<open>
  C9: The loop is safe and can be stopped. With callbacks and tasks that keep the loop's invariant,
  and whatever the kernel reports and other threads do, every round of \<^verbatim>\<open>Loop\<close> ends without a
  failing assertion, an index out of range or the use of a freed channel or timer; once a
  thread has called \<^verbatim>\<open>Quit\<close> the loop returns, and it leaves the invariant intact.
\<close>

theorem EventLoop_Loop_safe:
  fixes s :: "'z event_loop_scheme"
  assumes "callbacks_ok U" and "tasks_ok exec" and "alloc_ok T" and "rounds_ok rounds"
    and "el_inv s" and "\<not> looping s" and "asks_quit rounds"
  shows "\<exists>r. EventLoop_Loop E T alive U exec rounds s = Some r \<and>
    safely r (\<lambda>s'. el_inv s' \<and> \<not> looping s' \<and> quit s')"
proof -
  let ?s = "s\<lparr>looping := True, quit := False\<rparr>"
  have "IsInLoopThread s" using assms(5) by (simp add: el_inv_def ep_inv_def)
  then have g: "rbind (dassert E (\<not> looping s)) (\<lambda>_. AssertInLoopThread E s) = Inr ()"
    using assms(6) by (simp add: AssertInLoopThread_def)
  have "el_inv ?s" using assms(5) by simp
  from Loop_while_ok [OF assms(1-4) this, of E alive] assms(7)
  obtain r where r: "Loop_while (\<lambda>s a. Loop_round E T alive U exec (a s) s) rounds ?s = Some r"
      "safely r (\<lambda>s'. el_inv s' \<and> quit s')"
    by (auto split: option.splits)
  have "safely r (\<lambda>s1. safely (DoPendingTasks T exec s1) (\<lambda>s'. el_inv s' \<and> quit s'))"
    by (rule safely_mono [OF r(2)]) (rule safely_mono [OF DoPendingTasks_ok [OF assms(2)]], auto)
  then show ?thesis using g r(1) by (simp add: EventLoop_Loop_def)
qed

theorem EventLoop_Loop_safe_witness:
  "\<exists>s r. EventLoop_ctor linux_env 1 7 10 5 3 11 6 None False = Inr s \<and>
     EventLoop_Loop linux_env sample_env (\<lambda>_ _. True) idle_call idle_task quit_run s = Some r \<and>
     safely r (\<lambda>s'. el_inv s' \<and> \<not> looping s')"
proof -
  obtain s where s: "EventLoop_ctor linux_env 1 7 10 5 3 11 6 None False = Inr s" "el_inv s" "\<not> looping s"
    using EventLoop_ctor_ok [OF linux_env_ok, of 10 11 5 6 1 7 3 False] by (auto elim!: succeedsE)
  from EventLoop_Loop_safe [OF idle_ok sample_alloc_ok quit_run_ok(1) s(2,3) quit_run_ok(2)]
  obtain r where r: "EventLoop_Loop linux_env sample_env (\<lambda>_ _. True) idle_call idle_task quit_run s = Some r"
      "safely r (\<lambda>s'. el_inv s' \<and> \<not> looping s' \<and> quit s')"
    by blast
  have "safely r (\<lambda>s'. el_inv s' \<and> \<not> looping s')" by (rule safely_mono [OF r(2)]) simp
  then show ?thesis using s(1) r(1) by blast
qed

text \<open>
  The constructor, on a thread without a loop, registers exactly the wakeup and the timer
  descriptor with the kernel and establishes the loop's invariant; on a thread that has a loop
  its assertion fails.
\<close>

theorem EventLoop_ctor_establishes:
  assumes "env_ok E" and "wp \<noteq> tp" and "wfd \<noteq> tfd" and "0 < wfd" "wfd < 1048576" and "0 < tfd" "tfd < 1048576"
  shows "succeeds (EventLoop_ctor E self tid wp wfd ke tp tfd None nw) (\<lambda>s. el_inv s \<and> \<not> looping s \<and>
      channel_nums s = 2 \<and> loop_in_thread s = Some self \<and> task_list s = [] \<and>
      interest s = [wfd \<mapsto> (kReadEvent, wp), tfd \<mapsto> (kReadEvent, tp)])"
  using succeeds_mono [OF EventLoop_ctor_ok [OF assms, of self tid ke nw]] by simp

theorem EventLoop_ctor_establishes_witness:
  "succeeds (EventLoop_ctor linux_env 1 7 10 5 3 11 6 None True) (\<lambda>s. interest s 5 = Some (kReadEvent, 10))"
  by (rule succeeds_mono [OF EventLoop_ctor_establishes [OF linux_env_ok, of 10 11 5 6 1 7 3 True]]) simp_all

text \<open>Dropping one of the loop's own channels, and freeing it once it is dropped.\<close>

definition loop_rest :: "'z event_loop_scheme \<Rightarrow> addr \<times> addr \<times> addr option \<times> timer_queue \<times> addr option \<times> int \<times> int \<times> int \<times> int" where
  "loop_rest s = (wakeup_channel s, timer_channel s, sig_channel s, tqueue s, loop_in_thread s, wakeupfd s, timerfd s, sig_fd s, efd s)"

lemma drop_own:
  fixes s :: "'z event_loop_scheme"
  assumes "env_ok E" and "ep_inv s" and "own_channel p s" and "\<forall>c. heap s p = Some c \<longrightarrow> \<not> ch_handling c"
  obtains t c where "drop_channel E p s = Inr t" "ep_inv t" "heap t = (heap s)(p \<mapsto> c)" "ch_status c = kNew" "\<not> ch_handling c"
    "card (used t) + 1 = card (used s)" "loop_rest t = loop_rest s" "loop_fds t = loop_fds s"
proof -
  obtain c where c: "heap s p = Some c" "ch_status c \<noteq> kNew" "nat (ch_fd c) \<in> used s" by (rule own_channel_used [OF assms(2,3)])
  let ?t = "unregistered p (c\<lparr>ch_events := kNoneEvent, ch_status := kDel\<rparr>) (registered p c kNoneEvent s)"
  have "finite (used s)" by (simp add: used_def)
  then have "card (used ?t) + 1 = card (used s)" unfolding used_drop [OF assms(2) c(1)] using c(3)
    by (metis card_Suc_Diff1 Suc_eq_plus1)
  moreover have "heap ?t = (heap s)(p \<mapsto> c\<lparr>ch_events := kNoneEvent, ch_status := kNew\<rparr>)" "loop_rest ?t = loop_rest s" "loop_fds ?t = loop_fds s"
    by (simp_all add: unregistered_def registered_def expected_status_def loop_rest_def)
  ultimately show ?thesis using that drop_channel_eq [OF assms(1,2) c(1,2)] assms(4) c(1)
    by (metis (no_types, lifting) channel.select_convs channel.surjective channel.update_convs)
qed

lemma delete_dropped:
  assumes "heap s p = Some c" and "ch_status c = kNew" and "\<not> ch_handling c" and "ep_inv s"
  shows "delete_Channel E p s = Inr (s\<lparr>heap := (heap s)(p := None)\<rparr>)" "ep_inv (s\<lparr>heap := (heap s)(p := None)\<rparr>)"
  using assms ep_inv_heap_None by (simp_all add: delete_Channel_def deref_def)

lemma loop_close_ok:
  fixes s :: "'z event_loop_scheme"
  assumes "fd \<in> set (loop_fds s)" and "ep_inv s"
  obtains t where "loop_close fd s = Inr t" "t = s\<lparr>loop_fds := remove1 fd (loop_fds s)\<rparr>" "ep_inv t" "heap t = heap s" "used t = used s"
    "loop_rest t = loop_rest s" "loop_fds t = remove1 fd (loop_fds s)" "channel_nums t = channel_nums s"
  using assms ep_inv_ext [of s "s\<lparr>loop_fds := remove1 fd (loop_fds s)\<rparr>"]
  by (simp add: loop_close_def loop_rest_def used_def)

text \<open>The descriptors that the destructor closes, in its order.\<close>

definition own_fds :: "'z event_loop_scheme \<Rightarrow> int list" where
  "own_fds s = wakeupfd s # (if sig_channel s = None then [] else [sig_fd s]) @ [timerfd s, efd s]"

lemma drop_sig:
  fixes t :: "'z event_loop_scheme"
  assumes "env_ok E" and "ep_inv t" and "sig_channel t = sig_channel s" and "sig_fd t = sig_fd s"
    and "\<forall>p. sig_channel s = Some p \<longrightarrow> own_channel p t" and "\<forall>p c. heap t p = Some c \<longrightarrow> \<not> ch_handling c"
    and "sig_channel s \<noteq> None \<longrightarrow> sig_fd s \<in> set (loop_fds t)"
  obtains u where "(case sig_channel t of None \<Rightarrow> Inr t
      | Some p \<Rightarrow> rbind (drop_channel E p t) (\<lambda>s. rbind (loop_close (sig_fd s) s) (delete_Channel E p))) = Inr u" "ep_inv u"
    "\<forall>p. heap u p = (if sig_channel s = Some p then None else heap t p)" "loop_rest u = loop_rest t"
    "card (used u) + (if sig_channel s = None then 0 else 1) = card (used t)"
    "loop_fds u = (if sig_channel s = None then id else remove1 (sig_fd s)) (loop_fds t)"
proof (cases "sig_channel s")
  case None
  then show ?thesis using that [of t] assms(2,3) by simp
next
  case (Some p)
  have "own_channel p t" "\<forall>c. heap t p = Some c \<longrightarrow> \<not> ch_handling c" using Some assms(5,6) by auto
  then obtain u c where u: "drop_channel E p t = Inr u" "ep_inv u" "heap u = (heap t)(p \<mapsto> c)" "ch_status c = kNew" "\<not> ch_handling c"
      "card (used u) + 1 = card (used t)" "loop_rest u = loop_rest t" "loop_fds u = loop_fds t"
    by (rule drop_own [OF assms(1,2)])
  have f: "sig_fd u = sig_fd s" using u(7) assms(4) by (simp add: loop_rest_def)
  have "sig_fd u \<in> set (loop_fds u)" using f u(8) assms(7) Some by simp
  then obtain v where v: "loop_close (sig_fd u) u = Inr v" "ep_inv v" "heap v = heap u" "used v = used u"
      "loop_rest v = loop_rest u" "loop_fds v = remove1 (sig_fd u) (loop_fds u)"
    using u(2) by (rule loop_close_ok)
  have "heap v p = Some c" using v(3) u(3) by simp
  note d = delete_dropped [OF this u(4,5) v(2)]
  show ?thesis
    by (rule that [of "v\<lparr>heap := (heap v)(p := None)\<rparr>"])
      (use Some assms(3) u v d f in \<open>simp_all add: loop_rest_def used_def\<close>)
qed

text \<open>
  The destructor of a loop that is not running and has only its own channels left, with or without that for
  signals, runs to the end: the channels leave the kernel's interest list before the poller is
  destroyed (whose destructor asserts that no channel is left), they are freed, their descriptors and the
  epoll descriptor are closed, each once, and so is every scheduled timer.
\<close>

theorem EventLoop_dtor_releases:
  fixes s :: "'z event_loop_scheme"
  assumes "env_ok E" and "el_inv s" and "\<not> looping s" and sig: "\<forall>p. sig_channel s = Some p \<longrightarrow> own_channel p s \<and> p \<noteq> wakeup_channel s \<and> p \<noteq> timer_channel s"
    and "channel_nums s = (if sig_channel s = None then 2 else 3)" and h: "\<forall>p c. heap s p = Some c \<longrightarrow> \<not> ch_handling c"
    and fds: "distinct (own_fds s)" "set (own_fds s) \<subseteq> set (loop_fds s)"
  shows "succeeds (EventLoop_dtor E s) (\<lambda>s'. loop_in_thread s' = None \<and> channel_nums s' = 0 \<and>
      (\<forall>p. heap s' p = (if p = wakeup_channel s \<or> p = timer_channel s \<or> sig_channel s = Some p then None else heap s p)) \<and>
      loop_fds s' = foldl (\<lambda>fds fd. remove1 fd fds) (loop_fds s) (own_fds s) \<and>
      dom (theap (tqueue s')) = set (posted_ptrs (posted (tqueue s))))"
proof -
  let ?w = "wakeup_channel s" and ?t = "timer_channel s" and ?s = "s\<lparr>loop_in_thread := None\<rparr>"
  let ?sig = "if sig_channel s = None then id else remove1 (sig_fd s)"
  have inv: "ep_inv ?s" "own_channel ?w ?s" "own_channel ?t ?s" "?w \<noteq> ?t"
    using assms(2) by (auto simp: el_inv_def own_channel_def intro: ep_inv_ext)
  obtain s1 cw where s1: "drop_channel E ?w ?s = Inr s1" "ep_inv s1" "heap s1 = (heap s)(?w \<mapsto> cw)" "ch_status cw = kNew" "\<not> ch_handling cw"
      "card (used s1) + 1 = card (used ?s)" "loop_rest s1 = loop_rest ?s" "loop_fds s1 = loop_fds s"
    by (rule drop_own [OF assms(1) inv(1,2)]) (use h in auto)
  have "wakeupfd s1 \<in> set (loop_fds s1)" using s1(7,8) fds(2) by (simp add: loop_rest_def own_fds_def)
  then obtain s2 where s2: "loop_close (wakeupfd s1) s1 = Inr s2" "ep_inv s2" "heap s2 = heap s1" "used s2 = used s1"
      "loop_rest s2 = loop_rest s1" "loop_fds s2 = remove1 (wakeupfd s1) (loop_fds s1)"
    using s1(2) by (rule loop_close_ok)
  have l2: "loop_fds s2 = remove1 (wakeupfd s) (loop_fds s)" using s2(6) s1(7,8) by (simp add: loop_rest_def)
  obtain s3 where s3: "(case sig_channel s2 of None \<Rightarrow> Inr s2
        | Some p \<Rightarrow> rbind (drop_channel E p s2) (\<lambda>s. rbind (loop_close (sig_fd s) s) (delete_Channel E p))) = Inr s3" "ep_inv s3"
      "\<forall>p. heap s3 p = (if sig_channel s = Some p then None else heap s2 p)" "loop_rest s3 = loop_rest s2"
      "card (used s3) + (if sig_channel s = None then 0 else 1) = card (used s2)"
      "loop_fds s3 = ?sig (loop_fds s2)"
    by (rule drop_sig [OF assms(1) s2(2), of s])
      (use s1(3,5,7) s2(3,5) l2 sig h fds in \<open>auto simp: loop_rest_def own_channel_def own_fds_def in_set_remove1\<close>)
  have t3: "own_channel ?t s3" "\<forall>c. heap s3 ?t = Some c \<longrightarrow> \<not> ch_handling c" "timer_channel s3 = ?t" "wakeup_channel s3 = ?w" "timerfd s3 = timerfd s"
      "tqueue s3 = tqueue s" "loop_in_thread s3 = None" "efd s3 = efd s"
    using s3(3,4) s2(3,5) s1(3,7) inv(3,4) sig h by (auto simp: own_channel_def loop_rest_def)
  obtain s4 ct where s4: "drop_channel E ?t s3 = Inr s4" "ep_inv s4" "heap s4 = (heap s3)(?t \<mapsto> ct)" "ch_status ct = kNew" "\<not> ch_handling ct"
      "card (used s4) + 1 = card (used s3)" "loop_rest s4 = loop_rest s3" "loop_fds s4 = loop_fds s3"
    by (rule drop_own [OF assms(1) s3(2) t3(1,2)])
  have n: "channel_nums s4 = 0"
    using s4(6) s3(5) s2(4) s1(6) assms(5) ep_inv_nums [OF inv(1)] ep_inv_nums [OF s4(2)] by (auto split: if_splits)
  have f4: "tqueue s4 = tqueue s" "timer_channel s4 = ?t" "wakeup_channel s4 = ?w" "timerfd s4 = timerfd s" "loop_in_thread s4 = None"
      "efd s4 = efd s" "loop_fds s4 = ?sig (remove1 (wakeupfd s) (loop_fds s))"
    using s4(7,8) t3 s3(6) l2 by (simp_all add: loop_rest_def)
  have "timerfd s4 \<in> set (loop_fds s4)" using f4(4,7) fds by (auto simp: own_fds_def in_set_remove1)
  then obtain s5 where s5: "loop_close (timerfd s4) s4 = Inr s5" "heap s5 = heap s4" "loop_rest s5 = loop_rest s4"
      "loop_fds s5 = remove1 (timerfd s4) (loop_fds s4)" "channel_nums s5 = channel_nums s4"
    using s4(2) by (rule loop_close_ok)
  obtain q where q: "TimerQueue_dtor (tqueue s) = Inr q" "dom (theap q) = set (posted_ptrs (posted (tqueue s)))"
    using dtor_ok [of "tqueue s"] assms(2) by (auto simp: el_inv_def elim!: succeedsE)
  let ?s6 = "s5\<lparr>tqueue := q, heap := (heap s5)(?t := None)\<rparr>"
  have f6: "tqueue s5 = tqueue s" "timer_channel s5 = ?t" "wakeup_channel s5 = ?w" "efd s5 = efd s" "loop_in_thread s5 = None"
    using s5(3) f4 by (simp_all add: loop_rest_def)
  have dq: "drop_timer_queue E s3 = Inr ?s6"
    using s4(1,3,5) t3(3) f6 q(1) s5(1,2) by (simp add: drop_timer_queue_def delete_Channel_def deref_def)
  have hw: "heap ?s6 ?w = Some cw" using s5(2) s4(3) s3(3) s2(3) s1(3) sig inv(4) by auto
  have l6: "efd ?s6 \<in> set (loop_fds ?s6)" using s5(4) f6 f4 fds by (auto simp: own_fds_def in_set_remove1)
  let ?s7 = "?s6\<lparr>loop_fds := remove1 (efd s) (loop_fds s5)\<rparr>"
  have "Epoller_dtor E ?s6 = Inr ?s7" using l6 n s5(5) f6 by (simp add: Epoller_dtor_def loop_close_def)
  moreover have "EventLoop_dtor E s = rbind (Epoller_dtor E ?s6) (\<lambda>s. delete_Channel E (wakeup_channel s) s)"
    using assms(3) unfolding EventLoop_dtor_def s1(1) rbind_simps s2(1) s3(1) dq by simp
  ultimately have "EventLoop_dtor E s = Inr (?s7\<lparr>heap := (heap ?s6)(?w := None)\<rparr>)"
    using s1(5) hw f6 by (simp add: delete_Channel_def deref_def)
  moreover have "(heap ?s6)(?w := None) = (\<lambda>p. if p = ?w \<or> p = ?t \<or> sig_channel s = Some p then None else heap s p)"
    using s5(2) s4(3) s3(3) s2(3) s1(3) by (auto simp: fun_eq_iff)
  ultimately show ?thesis using n f4 f6 q(2) s5(4,5) by (simp add: own_fds_def)
qed

theorem EventLoop_dtor_releases_witness:
  "\<exists>s. EventLoop_ctor linux_env 1 7 10 5 3 11 6 None False = Inr s \<and>
     succeeds (EventLoop_dtor linux_env s) (\<lambda>s'. channel_nums s' = 0 \<and> loop_fds s' = [])"
proof -
  obtain s where s: "EventLoop_ctor linux_env 1 7 10 5 3 11 6 None False = Inr s" "el_inv s" "\<not> looping s"
      "sig_channel s = None" "channel_nums s = 2" "\<forall>p c. heap s p = Some c \<longrightarrow> \<not> ch_handling c"
      "wakeupfd s = 5" "timerfd s = 6" "efd s = 3" "loop_fds s = [5, 3, 6]"
    using EventLoop_ctor_ok [OF linux_env_ok, of 10 11 5 6 1 7 3 False] by (auto elim!: succeedsE)
  from EventLoop_dtor_releases [OF linux_env_ok s(2,3)] show ?thesis
    using s(1,4-10) by (auto simp: own_fds_def elim: succeeds_mono)
qed

text \<open>
  A request to quit that is made before the loop runs has no effect: \<^verbatim>\<open>Loop\<close> starts by
  clearing \<^verbatim>\<open>quit_\<close>, so the run is the same as without the request.
\<close>

theorem Quit_before_Loop_is_lost:
  assumes "IsInLoopThread s"
  shows "EventLoop_Loop E T alive U exec rounds (Quit s) = EventLoop_Loop E T alive U exec rounds s"
proof -
  have "(Quit s)\<lparr>looping := True, quit := False\<rparr> = s\<lparr>looping := True, quit := False\<rparr>" "looping (Quit s) = looping s"
    "IsInLoopThread (Quit s) = IsInLoopThread s"
    using assms by (simp_all add: Quit_def IsInLoopThread_def)
  then show ?thesis unfolding EventLoop_Loop_def AssertInLoopThread_def by (simp only:)
qed

theorem Quit_before_Loop_is_lost_witness:
  "\<exists>s. EventLoop_ctor linux_env 1 7 10 5 3 11 6 None False = Inr s \<and>
     EventLoop_Loop linux_env sample_env (\<lambda>_ _. True) idle_call idle_task [] (Quit s) = None"
proof -
  obtain s where s: "EventLoop_ctor linux_env 1 7 10 5 3 11 6 None False = Inr s" "el_inv s" "\<not> looping s"
    using EventLoop_ctor_ok [OF linux_env_ok, of 10 11 5 6 1 7 3 False] by (auto elim!: succeedsE)
  then have t: "IsInLoopThread s" by (simp add: el_inv_def ep_inv_def)
  have "EventLoop_Loop linux_env sample_env (\<lambda>_ _. True) idle_call idle_task [] s = None"
    using s(3) t by (simp add: EventLoop_Loop_def AssertInLoopThread_def)
  then show ?thesis using s(1) Quit_before_Loop_is_lost [OF t] by metis
qed

end
