(* ===== verification/TCPConnection.thy ===== *)
theory TCPConnection
  imports Buffer EventLoop
begin

unbundle bit_operations_syntax

text \<open>
  One TCP connection (\<^verbatim>\<open>src/tcp_connection.h\<close>, \<^verbatim>\<open>src/tcp_connection.cc\<close>) inside its event loop. The
  state extends the loop's: other channels of the loop are in the same heap and poller.
  Parameters (record \<open>conn_env\<close>): the kernel's answers to \<^verbatim>\<open>send\<close> and the user's callbacks, each
  of which may use the connection. Closures that the connection queues in its loop are entries
  of \<open>closures\<close>; the loop's task carries the index.
\<close>

section \<open>State\<close>

datatype conn_state = DISCONNECTED | CONNECTING | CONNECTED | DISCONNECTING

text \<open>The callbacks of the connection's user and of its server or client (\<^verbatim>\<open>remove_cb_\<close>).\<close>

datatype conn_event =
    EvConnected | EvRead | EvDisconnected | EvWriteComplete | EvHighWater nat | EvRemove

datatype conn_task =
    SendTask "byte list" | ShutdownTask | ForceCloseTask | WriteCompleteTask | HighWaterTask nat

text \<open>What a callback may do with the connection. \<open>OpTake\<close> consumes input that is there.\<close>

datatype conn_op = OpSend "byte list" | OpShutdown | OpForceClose | OpTake nat | OpAddRequests

record conn = event_loop +
  c_self :: addr
  c_state :: conn_state
  c_requests :: "32 word"
  c_input :: buffer
  c_output :: buffer
  c_channel :: addr
  overstock_size :: nat
  has_connection_cb :: bool
  has_disconnection_cb :: bool
  has_read_cb :: bool
  has_write_complete_cb :: bool
  has_high_water_mark_cb :: bool
  closures :: "conn_task list"
  sent :: "byte list"
  sends :: nat
  accepted :: "byte list"
  shut_wr :: bool
  trace :: "conn_event list"
  due :: "callback list"
  consumed :: "byte list"

text \<open>\<open>k_send i n\<close>: the answer to the \<open>i\<close>-th call of \<^verbatim>\<open>send\<close>, for \<open>n\<close> bytes: an error number, or
  how many bytes the kernel took. \<open>sent\<close> collects the bytes taken. \<open>accepted\<close> is a history
  variable without counterpart in the code: the data that \<^verbatim>\<open>_Send\<close> was given on a connected
  connection, except where \<^verbatim>\<open>send\<close> failed. So are \<open>trace\<close>, the callbacks made, \<open>consumed\<close>, the bytes that
  the user has retrieved from the input, and \<open>due\<close>, the handlers that the channel has still to call for
  the events reported in the current round of the loop.\<close>

record conn_env =
  cpenv :: poller_env
  k_send :: "nat \<Rightarrow> nat \<Rightarrow> int + nat"
  user :: "conn_event \<Rightarrow> conn \<Rightarrow> conn_op list"

definition conn_channel :: "conn \<Rightarrow> channel outcome" where
  "conn_channel s = deref (c_channel s) s"

section \<open>Setting the callbacks\<close>

definition set_connection_cb :: "conn \<Rightarrow> conn" where
  "set_connection_cb s = s\<lparr>has_connection_cb := True\<rparr>"

definition set_disconnection_cb :: "conn \<Rightarrow> conn" where
  "set_disconnection_cb s = s\<lparr>has_disconnection_cb := True\<rparr>"

definition set_read_cb :: "conn \<Rightarrow> conn" where
  "set_read_cb s = s\<lparr>has_read_cb := True\<rparr>"

definition set_write_complete_cb :: "conn \<Rightarrow> conn" where
  "set_write_complete_cb s = s\<lparr>has_write_complete_cb := True\<rparr>"

definition set_high_water_mark_cb :: "nat \<Rightarrow> conn \<Rightarrow> conn" where
  "set_high_water_mark_cb n s = s\<lparr>has_high_water_mark_cb := True, overstock_size := n\<rparr>"

section \<open>Queueing and sending\<close>

definition post_task :: "conn_task \<Rightarrow> conn \<Rightarrow> conn" where
  "post_task k s = QueueInLoop (UserTask (length (closures s))) (s\<lparr>closures := closures s @ [k]\<rparr>)"

text \<open>\<^verbatim>\<open>::send\<close>.\<close>

definition sys_send :: "conn_env \<Rightarrow> byte list \<Rightarrow> conn \<Rightarrow> (int + nat) \<times> conn" where
  "sys_send E dat s =
     (let r = k_send E (sends s) (length dat);
          s1 = s\<lparr>sends := sends s + 1\<rparr>
      in (r, case r of Inl err \<Rightarrow> s1 | Inr n \<Rightarrow> s1\<lparr>sent := sent s1 @ take n dat\<rparr>))"

text \<open>\<^verbatim>\<open>_SendMostPossible\<close>: the number of bytes left, or -1.\<close>

definition SendMostPossible :: "conn_env \<Rightarrow> byte list \<Rightarrow> conn \<Rightarrow> (int \<times> conn) outcome" where
  "SendMostPossible E dat s =
     rbind (conn_channel s) (\<lambda>c.
       if \<not> IsWriting c then
         rbind (dassert (cpenv E) (0 = ReadableBytes (c_output s))) (\<lambda>_.
         case sys_send E dat s of
           (Inl err, s1) \<Rightarrow> Inr (-1, s1)
         | (Inr wlen, s1) \<Rightarrow> Inr (int (length dat) - int wlen, s1))
       else Inr (int (length dat), s))"

definition SendDatQueueInBuffer :: "conn_env \<Rightarrow> byte list \<Rightarrow> conn \<Rightarrow> conn outcome" where
  "SendDatQueueInBuffer E rest s =
     (let wait_send_size = ReadableBytes (c_output s) + length rest;
          s1 = (if overstock_size s \<le> wait_send_size \<and> has_high_water_mark_cb s
                then post_task (HighWaterTask wait_send_size) s else s)
      in rbind (Append (c_output s1) rest) (\<lambda>b.
         let s2 = s1\<lparr>c_output := b\<rparr> in
         rbind (conn_channel s2) (\<lambda>c.
           if \<not> IsWriting c then EnableWriting (cpenv E) (c_channel s2) s2 else Inr s2)))"

definition Send_impl :: "conn_env \<Rightarrow> byte list \<Rightarrow> conn \<Rightarrow> conn outcome" where
  "Send_impl E dat s =
     rbind (AssertInLoopThread (cpenv E) s) (\<lambda>_.
       if CONNECTED = c_state s then
         rbind (SendMostPossible E dat s) (\<lambda>(remain, s1).
           if -1 = remain then Inr s1
           else let s2 = s1\<lparr>accepted := accepted s1 @ dat\<rparr> in
             if 0 \<noteq> remain
             then SendDatQueueInBuffer E (drop (length dat - nat remain) dat) s2
             else if has_write_complete_cb s2 then Inr (post_task WriteCompleteTask s2)
             else Inr s2)
       else Inr s)"

definition Send :: "conn_env \<Rightarrow> byte list \<Rightarrow> conn \<Rightarrow> conn outcome" where
  "Send E dat s =
     (if CONNECTED = c_state s then
        if IsInLoopThread s then Send_impl E dat s else Inr (post_task (SendTask dat) s)
      else Inr s)"

definition ShutdownWirte :: "conn \<Rightarrow> conn" where
  "ShutdownWirte s = (if CONNECTED = c_state s then post_task ShutdownTask s else s)"

definition ForceClose :: "conn \<Rightarrow> conn" where
  "ForceClose s = (if CONNECTED = c_state s then post_task ForceCloseTask s else s)"

text \<open>\<^verbatim>\<open>requests_\<close> is a \<^verbatim>\<open>std::atomic<int>\<close>, whose increment wraps.\<close>

definition AddRequests :: "conn \<Rightarrow> conn" where
  "AddRequests s = s\<lparr>c_requests := c_requests s + 1\<rparr>"

section \<open>Callbacks\<close>

fun run_conn_ops :: "conn_env \<Rightarrow> conn_op list \<Rightarrow> conn \<Rightarrow> conn outcome" where
  "run_conn_ops E [] s = Inr s"
| "run_conn_ops E (OpSend dat # ops) s = rbind (Send E dat s) (run_conn_ops E ops)"
| "run_conn_ops E (OpShutdown # ops) s = run_conn_ops E ops (ShutdownWirte s)"
| "run_conn_ops E (OpForceClose # ops) s = run_conn_ops E ops (ForceClose s)"
| "run_conn_ops E (OpTake n # ops) s =
     rbind (Retrieve (c_input s) (min n (ReadableBytes (c_input s)))) (\<lambda>b.
       run_conn_ops E ops (s\<lparr>c_input := b,
         consumed := consumed s @ peek_bytes (c_input s) (min n (ReadableBytes (c_input s)))\<rparr>))"
| "run_conn_ops E (OpAddRequests # ops) s = run_conn_ops E ops (AddRequests s)"

definition notify :: "conn_env \<Rightarrow> conn_event \<Rightarrow> conn \<Rightarrow> conn outcome" where
  "notify E ev s = run_conn_ops E (user E ev s) (s\<lparr>trace := trace s @ [ev]\<rparr>)"

section \<open>Handlers\<close>

definition TCPConnection_HandleClose :: "conn_env \<Rightarrow> conn \<Rightarrow> conn outcome" where
  "TCPConnection_HandleClose E s =
     rbind (AssertInLoopThread (cpenv E) s) (\<lambda>_.
     rbind (DisableAll (cpenv E) (c_channel s) (s\<lparr>c_state := DISCONNECTING\<rparr>)) (\<lambda>s1.
     rbind (if has_disconnection_cb s1 then notify E EvDisconnected s1 else Inr s1) (\<lambda>s2.
       notify E EvRemove s2)))"

definition TCPConnection_HandleRead :: "conn_env \<Rightarrow> (int, byte list) sum \<Rightarrow> conn \<Rightarrow> conn outcome" where
  "TCPConnection_HandleRead E answer s =
     rbind (AssertInLoopThread (cpenv E) s) (\<lambda>_.
     rbind (dassert (cpenv E) (CONNECTED = c_state s)) (\<lambda>_.
     rbind (ReadFd (c_input s) answer) (\<lambda>(rlen, err_no, b).
     let s1 = s\<lparr>c_input := b\<rparr> in
       if 0 < rlen then (if has_read_cb s1 then notify E EvRead s1 else Inr s1)
       else if 0 = rlen then TCPConnection_HandleClose E s1
       else Inr s1)))"

definition TCPConnection_HandleWrite :: "conn_env \<Rightarrow> conn \<Rightarrow> conn outcome" where
  "TCPConnection_HandleWrite E s =
     rbind (AssertInLoopThread (cpenv E) s) (\<lambda>_.
     rbind (dassert (cpenv E) (CONNECTED = c_state s)) (\<lambda>_.
     let readable_len = ReadableBytes (c_output s) in
     case sys_send E (peek_bytes (c_output s) readable_len) s of
       (Inl err, s1) \<Rightarrow> Inr s1
     | (Inr wlen, s1) \<Rightarrow>
         if 0 < wlen then
           rbind (Retrieve (c_output s1) wlen) (\<lambda>b.
           let s2 = s1\<lparr>c_output := b\<rparr> in
             if readable_len = wlen then
               rbind (DisableWriting (cpenv E) (c_channel s2) s2) (\<lambda>s3.
                 if has_write_complete_cb s3 then Inr (post_task WriteCompleteTask s3) else Inr s3)
             else Inr s2)
         else Inr s1))"

definition TCPConnection_HandleError :: "conn_env \<Rightarrow> conn \<Rightarrow> conn outcome" where
  "TCPConnection_HandleError E s = rbind (AssertInLoopThread (cpenv E) s) (\<lambda>_. Inr s)"

text \<open>The callbacks that \<^verbatim>\<open>Initialize\<close> binds to the channel; \<open>answer\<close> is the kernel's to \<^verbatim>\<open>readv\<close>.\<close>

definition conn_call :: "conn_env \<Rightarrow> (int, byte list) sum \<Rightarrow> callback \<Rightarrow> conn \<Rightarrow> conn outcome" where
  "conn_call E answer k s =
     (case k of
        ReadCb \<Rightarrow> TCPConnection_HandleRead E answer s
      | WriteCb \<Rightarrow> TCPConnection_HandleWrite E s
      | CloseCb \<Rightarrow> TCPConnection_HandleClose E s
      | ErrorCb \<Rightarrow> TCPConnection_HandleError E s)"

definition ShutdownWriteInLoop :: "conn_env \<Rightarrow> conn \<Rightarrow> conn outcome" where
  "ShutdownWriteInLoop E s =
     rbind (AssertInLoopThread (cpenv E) s) (\<lambda>_.
     rbind (conn_channel s) (\<lambda>c.
       if \<not> IsWriting c then Inr (s\<lparr>shut_wr := True\<rparr>) else Inr s))"

definition ForceCloseInLoop :: "conn_env \<Rightarrow> conn \<Rightarrow> conn outcome" where
  "ForceCloseInLoop E s =
     rbind (AssertInLoopThread (cpenv E) s) (\<lambda>_.
       if DISCONNECTING = c_state s \<or> DISCONNECTED = c_state s then Inr s
       else TCPConnection_HandleClose E s)"

definition run_conn_task :: "conn_env \<Rightarrow> conn_task \<Rightarrow> conn \<Rightarrow> conn outcome" where
  "run_conn_task E k s =
     (case k of
        SendTask dat \<Rightarrow> Send_impl E dat s
      | ShutdownTask \<Rightarrow> ShutdownWriteInLoop E s
      | ForceCloseTask \<Rightarrow> ForceCloseInLoop E s
      | WriteCompleteTask \<Rightarrow> notify E EvWriteComplete s
      | HighWaterTask n \<Rightarrow> notify E (EvHighWater n) s)"

section \<open>Life cycle\<close>

definition TCPConnection_ctor :: "poller_env \<Rightarrow> addr \<Rightarrow> addr \<Rightarrow> int \<Rightarrow> event_loop \<Rightarrow> conn outcome" where
  "TCPConnection_ctor E self p fd s =
     rbind (new_Channel E p fd '''' s) (\<lambda>s1.
     rbind (dassert E (0 < fd)) (\<lambda>_.
       Inr (event_loop.extend s1
         (conn.fields self CONNECTING 0 Buffer_ctor Buffer_ctor p 0 False False False False False
           [] [] 0 [] False [] [] []))))"

definition TCPConnection_Initialize :: "conn_env \<Rightarrow> conn \<Rightarrow> conn outcome" where
  "TCPConnection_Initialize E s =
     rbind (dassert (cpenv E) (CONNECTING = c_state s)) (\<lambda>_.
       modify (c_channel s)
         (\<lambda>c. c\<lparr>ch_has_read := True, ch_has_write := True, ch_has_error := True, ch_has_close := True\<rparr>) s)"

definition ConnectionEstablished :: "conn_env \<Rightarrow> conn \<Rightarrow> conn outcome" where
  "ConnectionEstablished E s =
     rbind (AssertInLoopThread (cpenv E) s) (\<lambda>_.
     rbind (modify (c_channel s) (Channel_Tie (c_self s)) (s\<lparr>c_state := CONNECTED\<rparr>)) (\<lambda>s1.
     rbind (EnableReading (cpenv E) (c_channel s1) s1) (\<lambda>s2.
       if has_connection_cb s2 then notify E EvConnected s2 else Inr s2)))"

definition ConnectionDestroy :: "conn_env \<Rightarrow> conn \<Rightarrow> conn outcome" where
  "ConnectionDestroy E s =
     rbind (AssertInLoopThread (cpenv E) s) (\<lambda>_.
       Channel_Remove (cpenv E) (c_channel s) (s\<lparr>c_state := DISCONNECTED\<rparr>))"

definition TCPConnection_dtor :: "conn_env \<Rightarrow> conn \<Rightarrow> conn outcome" where
  "TCPConnection_dtor E s =
     rbind (dassert (cpenv E) (DISCONNECTED = c_state s)) (\<lambda>_.
       delete_Channel (cpenv E) (c_channel s) s)"

section \<open>Invariant\<close>

definition chan_events :: "byte list \<Rightarrow> events" where
  "chan_events out = (if out = [] then kReadEvent else kReadEvent OR kWriteEvent)"

text \<open>The channel in each state of the connection; write events are on exactly while output is pending.
  A destroyed connection's channel is out of the poller; without assertions (\<open>ndebug\<close>) a write event that was
  already reported can register it again.\<close>

definition chan_state_ok :: "conn_state \<Rightarrow> byte list \<Rightarrow> channel \<Rightarrow> bool" where
  "chan_state_ok st out c \<longleftrightarrow>
     (case st of
        CONNECTING \<Rightarrow> ch_status c = kNew \<and> ch_events c = kNoneEvent \<and> out = []
      | CONNECTED \<Rightarrow> ch_events c = chan_events out
      | DISCONNECTING \<Rightarrow> ch_status c = kDel \<and> ch_events c = kNoneEvent
      | DISCONNECTED \<Rightarrow> True)"

lemma chan_state_ok_simps [simp]:
  "chan_state_ok CONNECTING out c \<longleftrightarrow> ch_status c = kNew \<and> ch_events c = kNoneEvent \<and> out = []"
  "chan_state_ok CONNECTED out c \<longleftrightarrow> ch_events c = chan_events out"
  "chan_state_ok DISCONNECTING out c \<longleftrightarrow> ch_status c = kDel \<and> ch_events c = kNoneEvent"
  "chan_state_ok DISCONNECTED out c"
  by (simp_all add: chan_state_ok_def)

definition chan_inv :: "conn_env \<Rightarrow> conn \<Rightarrow> channel \<Rightarrow> bool" where
  "chan_inv E s c \<longleftrightarrow> ready_channel (cpenv E) (c_channel s) s \<and>
     chan_state_ok (c_state s) (contents (c_output s)) c \<and>
     (c_state s = DISCONNECTED \<longrightarrow> \<not> ndebug (cpenv E) \<longrightarrow> ch_status c = kNew)"

text \<open>The output stream: what the kernel took, followed by what is pending, is what was accepted.\<close>

definition conn_inv :: "conn_env \<Rightarrow> conn \<Rightarrow> bool" where
  "conn_inv E s \<longleftrightarrow> ep_inv s \<and> buffer_inv (c_input s) \<and> buffer_inv (c_output s) \<and>
     (\<exists>c. heap s (c_channel s) = Some c \<and> chan_inv E s c) \<and>
     sent s @ contents (c_output s) = accepted s"

definition send_ok :: "conn_env \<Rightarrow> bool" where
  "send_ok E \<longleftrightarrow> (\<forall>i n m. k_send E i n = Inr m \<longrightarrow> m \<le> n)"

text \<open>A channel that waits for nothing, and what the operations on the connection leave alone.\<close>

definition deaf :: "conn \<Rightarrow> bool" where
  "deaf s \<longleftrightarrow> (\<exists>c. heap s (c_channel s) = Some c \<and> ch_events c = kNoneEvent)"

lemma deaf_upd [simp]:
  "deaf (s\<lparr>c_output := b\<rparr>) = deaf s" "deaf (s\<lparr>sends := n\<rparr>) = deaf s" "deaf (s\<lparr>sent := xs\<rparr>) = deaf s"
  "deaf (s\<lparr>accepted := xs\<rparr>) = deaf s" "deaf (s\<lparr>trace := tr\<rparr>) = deaf s" "deaf (s\<lparr>c_requests := w\<rparr>) = deaf s"
  "deaf (s\<lparr>c_input := b\<rparr>) = deaf s" "deaf (s\<lparr>consumed := xs\<rparr>) = deaf s" "deaf (s\<lparr>shut_wr := v\<rparr>) = deaf s"
  "deaf (s\<lparr>current_tid := i\<rparr>) = deaf s" "deaf (s\<lparr>c_state := st\<rparr>) = deaf s" "deaf (s\<lparr>due := ks\<rparr>) = deaf s"
  by (simp_all add: deaf_def)

definition conn_frame :: "conn \<Rightarrow> conn \<Rightarrow> bool" where
  "conn_frame s t \<longleftrightarrow> c_state t = c_state s \<and> trace t = trace s \<and> c_channel t = c_channel s \<and>
     shut_wr t = shut_wr s \<and> dom (heap t) = dom (heap s) \<and> due t = due s \<and>
     (c_state s \<noteq> CONNECTED \<longrightarrow> deaf s \<longrightarrow> deaf t)"

lemma conn_frame_refl [simp]: "conn_frame s s"
  by (simp add: conn_frame_def)

lemma conn_frame_trans: "conn_frame s t \<Longrightarrow> conn_frame t u \<Longrightarrow> conn_frame s u"
  by (simp add: conn_frame_def)

lemma owners_fields:
  fixes s t :: conn
  assumes "owners_part t = owners_part s"
  shows "c_state t = c_state s" "c_input t = c_input s" "c_output t = c_output s" "c_channel t = c_channel s"
    "trace t = trace s" "sent t = sent s" "accepted t = accepted s" "shut_wr t = shut_wr s"
    "has_write_complete_cb t = has_write_complete_cb s" "has_read_cb t = has_read_cb s"
    "has_connection_cb t = has_connection_cb s" "has_disconnection_cb t = has_disconnection_cb s"
    "IsInLoopThread t = IsInLoopThread s" "due t = due s"
  using assms by (cases s; cases t; simp add: owners_part_def IsInLoopThread_def)+

lemma conn_inv_thread: "conn_inv E s \<Longrightarrow> AssertInLoopThread F s = Inr ()"
  by (simp add: conn_inv_def ep_inv_def AssertInLoopThread_def)

lemma conn_inv_chan:
  assumes "conn_inv E s"
  obtains c where "heap s (c_channel s) = Some c" "conn_channel s = Inr c" "chan_inv E s c"
  using assms by (auto simp: conn_inv_def conn_channel_def)

lemma ready_channel_ext:
  "heap t = heap s \<Longrightarrow> channels t = channels s \<Longrightarrow> ready_channel E p t = ready_channel E p s"
  by (simp add: ready_channel_def updatable_def)

text \<open>The invariant depends on these fields only.\<close>

lemma conn_inv_ext:
  assumes "conn_inv E s" and "heap t = heap s" "channels t = channels s" "active_channels t = active_channels s"
    "channel_nums t = channel_nums s" "cur_max_fd t = cur_max_fd s" "event_list t = event_list s"
    "interest t = interest s" "loop_self t = loop_self s" "loop_tid t = loop_tid s" "current_tid t = current_tid s"
    and "buffer_inv (c_input t)" and "buffer_inv (c_output t)" and "c_channel t = c_channel s" and "c_state t = c_state s"
    and "contents (c_output t) = contents (c_output s)" and "sent t = sent s" and "accepted t = accepted s"
  shows "conn_inv E t"
proof -
  have "ep_inv t" by (rule ep_inv_ext [of s]) (use assms in \<open>simp_all add: conn_inv_def\<close>)
  moreover have "ready_channel (cpenv E) (c_channel t) t = ready_channel (cpenv E) (c_channel s) s"
    using assms(2,3,14) ready_channel_ext [of t s] by simp
  ultimately show ?thesis using assms by (simp add: conn_inv_def chan_inv_def)
qed

lemma post_task_eq:
  "\<exists>n. post_task k s = s\<lparr>closures := closures s @ [k],
     task_list := task_list s @ [UserTask (length (closures s))], wakeup_count := n\<rparr>"
proof -
  let ?s = "s\<lparr>closures := closures s @ [k], task_list := task_list s @ [UserTask (length (closures s))]\<rparr>"
  have "QueueInLoop_push (UserTask (length (closures s))) (s\<lparr>closures := closures s @ [k]\<rparr>) = ?s"
    by (simp add: QueueInLoop_push_def)
  then have "post_task k s = ?s \<or> post_task k s = Wakeup ?s"
    by (simp add: post_task_def QueueInLoop_def QueueInLoop_wake_def)
  moreover have "?s = ?s\<lparr>wakeup_count := wakeup_count ?s\<rparr>" by simp
  moreover have "Wakeup ?s = ?s \<or> Wakeup ?s = ?s\<lparr>wakeup_count := wakeup_count ?s + 1\<rparr>"
    unfolding Wakeup_def by (cases "wakeup_count ?s = - 2") simp_all
  ultimately show ?thesis by metis
qed

lemma post_task_fields [simp]:
  "heap (post_task k s) = heap s" "channels (post_task k s) = channels s"
  "active_channels (post_task k s) = active_channels s" "channel_nums (post_task k s) = channel_nums s"
  "cur_max_fd (post_task k s) = cur_max_fd s" "event_list (post_task k s) = event_list s"
  "interest (post_task k s) = interest s" "loop_self (post_task k s) = loop_self s"
  "loop_tid (post_task k s) = loop_tid s" "current_tid (post_task k s) = current_tid s"
  "c_input (post_task k s) = c_input s" "c_output (post_task k s) = c_output s"
  "c_channel (post_task k s) = c_channel s" "c_state (post_task k s) = c_state s"
  "sent (post_task k s) = sent s" "accepted (post_task k s) = accepted s" "trace (post_task k s) = trace s"
  "due (post_task k s) = due s" "consumed (post_task k s) = consumed s" "shut_wr (post_task k s) = shut_wr s" "closures (post_task k s) = closures s @ [k]"
  "task_list (post_task k s) = task_list s @ [UserTask (length (closures s))]"
proof -
  obtain n where n: "post_task k s = s\<lparr>closures := closures s @ [k],
      task_list := task_list s @ [UserTask (length (closures s))], wakeup_count := n\<rparr>"
    using post_task_eq by blast
  show "heap (post_task k s) = heap s" "channels (post_task k s) = channels s"
    "active_channels (post_task k s) = active_channels s" "channel_nums (post_task k s) = channel_nums s"
    "cur_max_fd (post_task k s) = cur_max_fd s" "event_list (post_task k s) = event_list s"
    "interest (post_task k s) = interest s" "loop_self (post_task k s) = loop_self s"
    "loop_tid (post_task k s) = loop_tid s" "current_tid (post_task k s) = current_tid s"
    "c_input (post_task k s) = c_input s" "c_output (post_task k s) = c_output s"
    "c_channel (post_task k s) = c_channel s" "c_state (post_task k s) = c_state s"
    "sent (post_task k s) = sent s" "accepted (post_task k s) = accepted s" "trace (post_task k s) = trace s"
    "due (post_task k s) = due s" "consumed (post_task k s) = consumed s" "shut_wr (post_task k s) = shut_wr s" "closures (post_task k s) = closures s @ [k]"
    "task_list (post_task k s) = task_list s @ [UserTask (length (closures s))]"
    unfolding n by simp_all
qed

lemma deaf_post_task [simp]: "deaf (post_task k s) = deaf s"
  by (simp add: deaf_def)

lemma post_task_ok: "conn_inv E s \<Longrightarrow> conn_inv E (post_task k s)" "conn_frame s (post_task k s)"
  by (rule conn_inv_ext [of E s]) (simp_all add: conn_inv_def conn_frame_def)

lemma IsWriting_chan_events: "ch_events c = chan_events out \<Longrightarrow> IsWriting c \<longleftrightarrow> out \<noteq> []"
  by (auto simp: IsWriting_def chan_events_def has_event_def event_masks)

section \<open>Sending\<close>

lemma chan_events_writing:
  "chan_events out OR kWriteEvent = kReadEvent OR kWriteEvent" "chan_events out AND NOT kWriteEvent = kReadEvent"
  by (auto simp: chan_events_def event_masks)

text \<open>Changing the events of the connection's channel, where the channel then fits the state.\<close>

lemma change_chan:
  assumes "conn_inv E s" and "buffer_inv b" and "c_state s = DISCONNECTED \<longrightarrow> ndebug (cpenv E)"
    and fits: "\<And>c. chan_state_ok (c_state s) (contents (c_output s)) c \<Longrightarrow>
      chan_state_ok (c_state s) (contents b) (c\<lparr>ch_events := f (ch_events c), ch_status := expected_status (f (ch_events c))\<rparr>)"
    and "sent s' @ contents b = accepted s'" and "ep_inv s'" and "heap s' = heap s" and "channels s' = channels s"
    and "c_channel s' = c_channel s" and "c_state s' = c_state s" and "c_output s' = b" and "buffer_inv (c_input s')"
  shows "succeeds (set_events (cpenv E) f (c_channel s') s') (\<lambda>t. conn_inv E t \<and> owners_part t = owners_part s' \<and>
      dom (heap t) = dom (heap s') \<and> (f kNoneEvent = kNoneEvent \<longrightarrow> deaf s \<longrightarrow> deaf t))"
proof -
  obtain c where c: "heap s (c_channel s) = Some c" "chan_inv E s c" using conn_inv_chan [OF assms(1)] by blast
  have r: "ready_channel (cpenv E) (c_channel s') s'"
    using c(2) assms(7-9) ready_channel_ext [of s' s] by (simp add: chan_inv_def)
  have c': "heap s' (c_channel s') = Some c" using c(1) assms(7,9) by simp
  have ev: "chan_state_ok (c_state s) (contents b) (c\<lparr>ch_events := f (ch_events c), ch_status := expected_status (f (ch_events c))\<rparr>)"
    using c(2) fits by (simp add: chan_inv_def)
  show ?thesis
  proof (rule succeeds_mono [OF registry.change_ok [OF assms(6) r c', of f]], clarify)
    fix t assume t: "ep_inv t" "ready_channel (cpenv E) (c_channel s') t" "owners_part t = owners_part s'"
      "heap t = (heap s')(c_channel s' \<mapsto> c\<lparr>ch_events := f (ch_events c), ch_status := expected_status (f (ch_events c))\<rparr>)"
    note o = owners_fields [OF t(3)]
    have "conn_inv E t" using t o assms(2,3,5,9-12) c' ev by (simp add: conn_inv_def chan_inv_def)
    moreover have "dom (heap t) = dom (heap s')" using t(4) c' by auto
    moreover have "f kNoneEvent = kNoneEvent \<longrightarrow> deaf s \<longrightarrow> deaf t" using t(4) o(4) c(1) assms(9) by (auto simp: deaf_def)
    ultimately show "conn_inv E t \<and> owners_part t = owners_part s' \<and> dom (heap t) = dom (heap s') \<and>
      (f kNoneEvent = kNoneEvent \<longrightarrow> deaf s \<longrightarrow> deaf t)" using t(3) by blast
  qed
qed

text \<open>Data that arrives while output is pending, or that the kernel did not take completely, is
  appended to the output; write events are on afterwards.\<close>

lemma SendDatQueueInBuffer_ok:
  assumes "ep_inv s" and "buffer_inv (c_input s)" and "buffer_inv (c_output s)" and "c_state s = CONNECTED"
    and "heap s (c_channel s) = Some c" and "chan_inv E s c" and "rest \<noteq> []"
    and "sent s @ contents (c_output s) @ rest = accepted s"
  shows "succeeds (SendDatQueueInBuffer E rest s) (\<lambda>t. conn_inv E t \<and> conn_frame s t \<and> accepted t = accepted s \<and> sent t = sent s)"
proof -
  let ?w = "ReadableBytes (c_output s) + length rest"
  define s1 where "s1 = (if overstock_size s \<le> ?w \<and> has_high_water_mark_cb s then post_task (HighWaterTask ?w) s else s)"
  have f: "heap s1 = heap s" "channels s1 = channels s" "c_input s1 = c_input s" "c_output s1 = c_output s"
      "c_channel s1 = c_channel s" "c_state s1 = c_state s" "sent s1 = sent s" "accepted s1 = accepted s"
      "trace s1 = trace s" "shut_wr s1 = shut_wr s" "due s1 = due s" "deaf s1 = deaf s"
    by (simp_all add: s1_def)
  have inv1: "ep_inv s1" unfolding s1_def using assms(1) by (auto intro: ep_inv_ext)
  obtain b where b: "Append (c_output s1) rest = Inr b" "buffer_inv b" "contents b = contents (c_output s) @ rest"
    using Append_ok [of "c_output s1" rest] assms(3) f by (auto elim!: succeedsE)
  let ?s2 = "s1\<lparr>c_output := b\<rparr>"
  have inv2: "ep_inv ?s2" using inv1 by (rule ep_inv_ext) simp_all
  have ev: "ch_events c = chan_events (contents (c_output s))" using assms(4,6) by (simp add: chan_inv_def)
  have r2: "ready_channel (cpenv E) (c_channel ?s2) ?s2"
    using assms(6) f ready_channel_ext [of ?s2 s] by (simp add: chan_inv_def)
  have c2: "conn_channel ?s2 = Inr c" "heap ?s2 (c_channel ?s2) = Some c" using assms(5) f by (simp_all add: conn_channel_def)
  have eq: "SendDatQueueInBuffer E rest s = (if \<not> IsWriting c then EnableWriting (cpenv E) (c_channel ?s2) ?s2 else Inr ?s2)"
    unfolding SendDatQueueInBuffer_def Let_def s1_def [symmetric] b(1) using c2(1) by simp
  show ?thesis
  proof (cases "IsWriting c")
    case True
    then have "contents (c_output s) \<noteq> []" using IsWriting_chan_events [OF ev] by simp
    then have "chan_inv E ?s2 c" using r2 ev b(3) f assms(4) by (simp add: chan_inv_def chan_events_def)
    then have "conn_inv E ?s2" using inv2 b f c2 assms(2,8) by (auto simp: conn_inv_def)
    then show ?thesis using eq True f by (simp add: conn_frame_def)
  next
    case False
    have "succeeds (set_events (cpenv E) (\<lambda>ev. ev OR kWriteEvent) (c_channel ?s2) ?s2)
        (\<lambda>t. conn_inv E t \<and> conn_frame s t \<and> accepted t = accepted s \<and> sent t = sent s)"
    proof (rule succeeds_mono [OF registry.change_ok [OF inv2 r2 c2(2)]], clarify)
      fix t assume t: "ep_inv t" "ready_channel (cpenv E) (c_channel ?s2) t" "owners_part t = owners_part ?s2"
        "heap t = (heap ?s2)(c_channel ?s2 \<mapsto> c\<lparr>ch_events := ch_events c OR kWriteEvent,
            ch_status := expected_status (ch_events c OR kWriteEvent)\<rparr>)"
      note o = owners_fields [OF t(3)]
      have "ch_events c OR kWriteEvent = chan_events (contents b)"
        using ev assms(7) b(3) by (simp add: chan_events_writing) (simp add: chan_events_def)
      then have "conn_inv E t" using t o f b assms(2,4,8) by (simp add: conn_inv_def chan_inv_def)
      moreover have "dom (heap t) = dom (heap s)" using t(4) f(1) c2(2) by auto
      ultimately show "conn_inv E t \<and> conn_frame s t \<and> accepted t = accepted s \<and> sent t = sent s"
        using o f assms(4) by (simp add: conn_frame_def)
    qed
    then show ?thesis using eq False by (simp add: EnableWriting_def)
  qed
qed

lemma sys_send_fields:
  assumes "sys_send E dat s = (r, s1)"
  shows "s1 = s\<lparr>sends := sends s + 1, sent := sent s @ (case r of Inl _ \<Rightarrow> [] | Inr n \<Rightarrow> take n dat)\<rparr>"
    and "r = k_send E (sends s) (length dat)"
  using assms by (auto simp: sys_send_def Let_def split: sum.splits)

text \<open>Whether \<^verbatim>\<open>_Send\<close> takes the data: always, except when nothing is pending and \<^verbatim>\<open>send\<close> fails.\<close>

definition takes :: "conn_env \<Rightarrow> byte list \<Rightarrow> conn \<Rightarrow> bool" where
  "takes E dat s \<longleftrightarrow> c_state s = CONNECTED \<and>
     (contents (c_output s) \<noteq> [] \<or> (\<exists>n. k_send E (sends s) (length dat) = Inr n))"

text \<open>What the kernel did not take is queued.\<close>

lemma Send_queues_rest:
  assumes "conn_inv E s" and "c_state s = CONNECTED" and "n < length dat"
    and s2: "s2 = s\<lparr>sends := k, sent := sent s @ take n dat, accepted := accepted s @ dat\<rparr>" and "n = 0 \<or> contents (c_output s) = []"
  shows "succeeds (SendDatQueueInBuffer E (drop n dat) s2) (\<lambda>t. conn_inv E t \<and> conn_frame s t \<and> accepted t = accepted s @ dat)"
proof -
  obtain c where c: "heap s (c_channel s) = Some c" "chan_inv E s c" using conn_inv_chan [OF assms(1)] by blast
  have inv: "ep_inv s" "buffer_inv (c_input s)" "buffer_inv (c_output s)" "accepted s = sent s @ contents (c_output s)"
    using assms(1) by (auto simp: conn_inv_def)
  have "ep_inv s2" unfolding s2 by (rule ep_inv_ext [OF inv(1)]) simp_all
  moreover have "chan_inv E s2 c" using c(2) ready_channel_ext [of s2 s] by (simp add: chan_inv_def s2)
  moreover have "sent s2 @ contents (c_output s2) @ drop n dat = accepted s2"
    using assms(5) by (auto simp: s2 inv(4))
  ultimately have r: "succeeds (SendDatQueueInBuffer E (drop n dat) s2) (\<lambda>t. conn_inv E t \<and> conn_frame s2 t \<and> accepted t = accepted s2 \<and> sent t = sent s2)"
    using inv(1-3) c(1) assms(2,3) by (intro SendDatQueueInBuffer_ok) (simp_all add: s2)
  show ?thesis by (rule succeeds_mono [OF r]) (simp add: s2 conn_frame_def)
qed

text \<open>With output pending all of the data is queued; without, the kernel is asked first.\<close>

lemma SendMostPossible_direct:
  assumes "conn_inv E s" and "c_state s = CONNECTED" and "contents (c_output s) = []"
  shows "SendMostPossible E dat s = (case k_send E (sends s) (length dat) of
      Inl err \<Rightarrow> Inr (-1, s\<lparr>sends := sends s + 1\<rparr>)
    | Inr n \<Rightarrow> Inr (int (length dat) - int n, s\<lparr>sends := sends s + 1, sent := sent s @ take n dat\<rparr>))"
proof -
  obtain c where c: "conn_channel s = Inr c" "chan_inv E s c" using conn_inv_chan [OF assms(1)] by blast
  have "ch_events c = chan_events (contents (c_output s))" using c(2) assms(2) by (simp add: chan_inv_def)
  then have "\<not> IsWriting c" using IsWriting_chan_events assms(3) by simp
  moreover have "ReadableBytes (c_output s) = 0" using assms(1,3) length_contents [of "c_output s"] by (simp add: conn_inv_def)
  ultimately show ?thesis using c(1) by (simp add: SendMostPossible_def sys_send_def split: sum.split)
qed

lemma Send_impl_pending:
  assumes "conn_inv E s" and "c_state s = CONNECTED" and "contents (c_output s) \<noteq> []"
  shows "succeeds (Send_impl E dat s) (\<lambda>t. conn_inv E t \<and> conn_frame s t \<and> accepted t = accepted s @ dat)"
proof -
  obtain c where c: "heap s (c_channel s) = Some c" "conn_channel s = Inr c" "chan_inv E s c"
    using conn_inv_chan [OF assms(1)] by blast
  have "ch_events c = chan_events (contents (c_output s))" using c(3) assms(2) by (simp add: chan_inv_def)
  then have "IsWriting c" using IsWriting_chan_events assms(3) by simp
  then have m: "SendMostPossible E dat s = Inr (int (length dat), s)" using c(2) by (simp add: SendMostPossible_def)
  note thread = conn_inv_thread [OF assms(1)]
  show ?thesis
  proof (cases "dat = []")
    case True
    have "conn_inv E (s\<lparr>accepted := accepted s @ []\<rparr>)" using assms(1) by simp
    then show ?thesis using True m thread assms(2) post_task_ok by (auto simp: Send_impl_def)
  next
    case False
    then show ?thesis using m thread assms(2) Send_queues_rest [OF assms(1,2), of 0 dat _ "sends s"]
      by (auto simp: Send_impl_def Let_def)
  qed
qed

lemma Send_impl_direct:
  assumes "conn_inv E s" and "send_ok E" and "c_state s = CONNECTED" and "contents (c_output s) = []"
    and k: "k_send E (sends s) (length dat) = Inr n"
  shows "succeeds (Send_impl E dat s) (\<lambda>t. conn_inv E t \<and> conn_frame s t \<and> accepted t = accepted s @ dat)"
proof -
  have inv: "ep_inv s" "buffer_inv (c_input s)" "buffer_inv (c_output s)" "accepted s = sent s @ contents (c_output s)"
    using assms(1) by (auto simp: conn_inv_def)
  obtain c where c: "heap s (c_channel s) = Some c" "chan_inv E s c" using conn_inv_chan [OF assms(1)] by blast
  have n: "n \<le> length dat" using assms(2) k by (metis send_ok_def)
  let ?s1 = "s\<lparr>sends := sends s + 1, sent := sent s @ take n dat\<rparr>"
  let ?s2 = "?s1\<lparr>accepted := accepted s @ dat\<rparr>"
  have m: "SendMostPossible E dat s = Inr (int (length dat) - int n, ?s1)" using SendMostPossible_direct [OF assms(1,3,4)] k by simp
  note thread = conn_inv_thread [OF assms(1)]
  show ?thesis
  proof (cases "n = length dat")
    case True
    have "ep_inv ?s2" by (rule ep_inv_ext [OF inv(1)]) simp_all
    moreover have "chan_inv E ?s2 c" using c(2) ready_channel_ext [of ?s2 s] by (simp add: chan_inv_def)
    ultimately have i2: "conn_inv E ?s2" using inv c(1) True assms(4) by (auto simp: conn_inv_def)
    then show ?thesis using m True thread assms(3) post_task_ok(1) [OF i2] post_task_ok(2)
      by (auto simp: Send_impl_def Let_def conn_frame_def)
  next
    case False
    then have "n < length dat" using n by simp
    moreover from this have "length dat - nat (int (length dat) - int n) = n" "int (length dat) - int n \<noteq> 0"
        "int (length dat) - int n \<noteq> -1" by auto
    ultimately show ?thesis using m thread assms(3) Send_queues_rest [OF assms(1,3) _ refl, of n dat "sends s + 1"] assms(4)
      by (simp add: Send_impl_def Let_def)
  qed
qed

lemma Send_impl_ok:
  assumes "conn_inv E s" and "send_ok E"
  shows "succeeds (Send_impl E dat s) (\<lambda>t. conn_inv E t \<and> conn_frame s t \<and>
      accepted t = accepted s @ (if takes E dat s then dat else []))"
proof (cases "c_state s = CONNECTED")
  case False
  then show ?thesis using assms(1) conn_inv_thread [OF assms(1)] by (simp add: Send_impl_def takes_def)
next
  case True
  show ?thesis
  proof (cases "takes E dat s")
    case True
    then show ?thesis using Send_impl_pending [OF assms(1) \<open>c_state s = CONNECTED\<close>, of dat]
        Send_impl_direct [OF assms \<open>c_state s = CONNECTED\<close>, of dat]
      by (cases "contents (c_output s) = []") (auto simp: takes_def)
  next
    case False
    then obtain err where k: "contents (c_output s) = []" "k_send E (sends s) (length dat) = Inl err"
      using True by (cases "k_send E (sends s) (length dat)") (auto simp: takes_def)
    have "conn_inv E (s\<lparr>sends := sends s + 1\<rparr>)" by (rule conn_inv_ext [OF assms(1)]) (use assms(1) in \<open>simp_all add: conn_inv_def\<close>)
    then show ?thesis using SendMostPossible_direct [OF assms(1) True k(1)] k(2) False True conn_inv_thread [OF assms(1)]
      by (simp add: Send_impl_def conn_frame_def)
  qed
qed

lemma Send_ok:
  assumes "conn_inv E s" and "send_ok E"
  shows "succeeds (Send E dat s) (\<lambda>t. conn_inv E t \<and> conn_frame s t)"
proof -
  have "IsInLoopThread s" using assms(1) by (simp add: conn_inv_def ep_inv_def)
  then show ?thesis using assms(1) succeeds_mono [OF Send_impl_ok [OF assms, of dat]] by (simp add: Send_def)
qed

section \<open>Handlers keep the invariant\<close>

lemma input_ok:
  assumes "conn_inv E s" and "buffer_inv b"
  shows "conn_inv E (s\<lparr>c_input := b\<rparr>)"
  by (rule conn_inv_ext [OF assms(1)]) (use assms in \<open>simp_all add: conn_inv_def\<close>)

lemma take_ok:
  assumes "conn_inv E s" and "buffer_inv b"
  shows "conn_inv E (s\<lparr>c_input := b, consumed := x\<rparr>)"
  by (rule conn_inv_ext [OF assms(1)]) (use assms in \<open>simp_all add: conn_inv_def\<close>)

lemma run_conn_ops_ok:
  assumes "conn_inv E s" and "send_ok E"
  shows "succeeds (run_conn_ops E ops s) (\<lambda>t. conn_inv E t \<and> conn_frame s t)"
  using assms(1)
proof (induction ops arbitrary: s)
  case (Cons oper ops)
  have step: "succeeds (run_conn_ops E ops s1) (\<lambda>t. conn_inv E t \<and> conn_frame s t)"
    if "conn_inv E s1" "conn_frame s s1" for s1
    by (rule succeeds_mono [OF Cons.IH [OF that(1)]]) (use that(2) in \<open>auto intro: conn_frame_trans\<close>)
  show ?case
  proof (cases oper)
    case (OpSend dat)
    show ?thesis unfolding OpSend run_conn_ops.simps succeeds_rbind
      by (rule succeeds_mono [OF Send_ok [OF Cons.prems assms(2)]]) (use step in blast)
  next
    case OpShutdown
    have "conn_inv E (ShutdownWirte s)" "conn_frame s (ShutdownWirte s)"
      using post_task_ok(1) [OF Cons.prems] Cons.prems by (simp_all add: ShutdownWirte_def post_task_ok(2))
    then show ?thesis using step OpShutdown by simp
  next
    case OpForceClose
    have "conn_inv E (ForceClose s)" "conn_frame s (ForceClose s)"
      using post_task_ok(1) [OF Cons.prems] Cons.prems by (simp_all add: ForceClose_def post_task_ok(2))
    then show ?thesis using step OpForceClose by simp
  next
    case (OpTake n)
    have "buffer_inv (c_input s)" using Cons.prems by (simp add: conn_inv_def)
    note r = Retrieve_ok [OF this, of "min n (ReadableBytes (c_input s))"]
    show ?thesis unfolding OpTake run_conn_ops.simps succeeds_rbind
    proof (rule succeeds_mono [OF r], simp)
      fix b assume "buffer_inv b \<and> contents b = drop (min n (ReadableBytes (c_input s))) (contents (c_input s)) \<and>
        storage b = storage (c_input s)"
      then show "succeeds (run_conn_ops E ops (s\<lparr>c_input := b,
          consumed := consumed s @ peek_bytes (c_input s) (min n (ReadableBytes (c_input s)))\<rparr>)) (\<lambda>t. conn_inv E t \<and> conn_frame s t)"
        by (intro step take_ok [OF Cons.prems]) (simp_all add: conn_frame_def)
    qed
  next
    case OpAddRequests
    have "conn_inv E (AddRequests s)" unfolding AddRequests_def
      by (rule conn_inv_ext [OF Cons.prems]) (use Cons.prems in \<open>simp_all add: conn_inv_def\<close>)
    then show ?thesis using step [of "AddRequests s"] OpAddRequests by (simp add: conn_frame_def AddRequests_def)
  qed
qed simp

text \<open>A callback is recorded and may use the connection; it cannot change its state.\<close>

definition notified :: "conn_event list \<Rightarrow> conn \<Rightarrow> conn \<Rightarrow> bool" where
  "notified evs s t \<longleftrightarrow> c_state t = c_state s \<and> trace t = trace s @ evs \<and> c_channel t = c_channel s \<and>
     shut_wr t = shut_wr s \<and> dom (heap t) = dom (heap s) \<and> due t = due s \<and>
     (c_state s \<noteq> CONNECTED \<longrightarrow> deaf s \<longrightarrow> deaf t)"

lemma notify_ok:
  assumes "conn_inv E s" and "send_ok E"
  shows "succeeds (notify E ev s) (\<lambda>t. conn_inv E t \<and> notified [ev] s t)"
proof -
  have "conn_inv E (s\<lparr>trace := trace s @ [ev]\<rparr>)"
    by (rule conn_inv_ext [OF assms(1)]) (use assms(1) in \<open>simp_all add: conn_inv_def\<close>)
  from run_conn_ops_ok [OF this assms(2), of "user E ev s"] show ?thesis
    unfolding notify_def by (rule succeeds_mono) (simp add: conn_frame_def notified_def)
qed

lemma HandleClose_ok:
  assumes "conn_inv E s" and "send_ok E"
  shows "succeeds (TCPConnection_HandleClose E s) (\<lambda>t. conn_inv E t \<and> c_state t = DISCONNECTING \<and>
      c_channel t = c_channel s \<and> dom (heap t) = dom (heap s) \<and> shut_wr t = shut_wr s \<and> due t = due s \<and>
      trace t = trace s @ (if has_disconnection_cb s then [EvDisconnected] else []) @ [EvRemove])"
proof -
  obtain c where c: "heap s (c_channel s) = Some c" "chan_inv E s c" using conn_inv_chan [OF assms(1)] by blast
  let ?s = "s\<lparr>c_state := DISCONNECTING\<rparr>"
  have inv: "ep_inv ?s" by (rule ep_inv_ext [of s]) (use assms(1) in \<open>simp_all add: conn_inv_def\<close>)
  have r: "ready_channel (cpenv E) (c_channel s) ?s"
    using c(2) ready_channel_ext [of ?s s] by (simp add: chan_inv_def)
  have c': "heap ?s (c_channel s) = Some c" using c(1) by simp
  obtain t where t: "set_events (cpenv E) (\<lambda>_. kNoneEvent) (c_channel s) ?s = Inr t" "ep_inv t"
      "ready_channel (cpenv E) (c_channel s) t" "owners_part t = owners_part ?s"
      "heap t = (heap ?s)(c_channel s \<mapsto> c\<lparr>ch_events := kNoneEvent, ch_status := expected_status kNoneEvent\<rparr>)"
    using registry.change_ok [OF inv r c', of "\<lambda>_. kNoneEvent"] by (auto elim!: succeedsE)
  note o = owners_fields [OF t(4)]
  have it: "conn_inv E t"
    using t o assms(1) by (simp add: conn_inv_def chan_inv_def expected_status_def)
  have nt: "c_state t = DISCONNECTING" "c_channel t = c_channel s" "trace t = trace s" "shut_wr t = shut_wr s"
    "dom (heap t) = dom (heap s)" "has_disconnection_cb t = has_disconnection_cb s" "due t = due s"
    using o t(5) c(1) by auto
  have "succeeds (if has_disconnection_cb t then notify E EvDisconnected t else Inr t) (\<lambda>u. conn_inv E u \<and>
      notified (if has_disconnection_cb s then [EvDisconnected] else []) t u)"
    using notify_ok [OF it assms(2), of EvDisconnected] it nt by (simp add: notified_def)
  then have "succeeds (if has_disconnection_cb t then notify E EvDisconnected t else Inr t)
    (\<lambda>u. succeeds (notify E EvRemove u) (\<lambda>v. conn_inv E v \<and>
      notified ((if has_disconnection_cb s then [EvDisconnected] else []) @ [EvRemove]) t v))"
    by (rule succeeds_mono) (rule succeeds_mono [OF notify_ok], use assms(2) in \<open>auto simp: notified_def\<close>)
  then have "succeeds (TCPConnection_HandleClose E s) (\<lambda>v. conn_inv E v \<and>
      notified ((if has_disconnection_cb s then [EvDisconnected] else []) @ [EvRemove]) t v)"
    using conn_inv_thread [OF assms(1)] t(1) by (simp add: TCPConnection_HandleClose_def DisableAll_def)
  then show ?thesis by (rule succeeds_mono) (use nt in \<open>simp add: notified_def\<close>)
qed

text \<open>The kernel's answer to \<^verbatim>\<open>readv\<close>: at most what fits, within an \<^verbatim>\<open>int\<close>.\<close>

definition read_answer_ok :: "(int, byte list) sum \<Rightarrow> bool" where
  "read_answer_ok a \<longleftrightarrow> (case a of Inl err \<Rightarrow> True | Inr dat \<Rightarrow> length dat < 2 ^ 31)"

text \<open>The handlers of readable and writable sockets assert that the connection is up; in a build without assertions
  they run in every state.\<close>

definition may_handle :: "conn_env \<Rightarrow> conn \<Rightarrow> bool" where
  "may_handle E s \<longleftrightarrow> c_state s = CONNECTED \<or> ndebug (cpenv E)"

lemma may_handle_assert: "may_handle E s \<Longrightarrow> dassert (cpenv E) (CONNECTED = c_state s) = Inr ()"
  by (auto simp: may_handle_def dassert_def)

lemma HandleRead_conn_ok:
  assumes "conn_inv E s" and "send_ok E" and "may_handle E s" and "read_answer_ok a"
  shows "succeeds (TCPConnection_HandleRead E a s) (\<lambda>t. conn_inv E t \<and> dom (heap t) = dom (heap s) \<and>
      c_channel t = c_channel s \<and> shut_wr t = shut_wr s \<and> due t = due s \<and>
      (if a = Inr []
       then c_state t = DISCONNECTING \<and>
         trace t = trace s @ (if has_disconnection_cb s then [EvDisconnected] else []) @ [EvRemove]
       else c_state t = c_state s \<and>
         trace t = trace s @ (if (\<exists>d. a = Inr d) \<and> has_read_cb s then [EvRead] else [])))"
proof -
  have b: "buffer_inv (c_input s)" using assms(1) by (simp add: conn_inv_def)
  note thread = conn_inv_thread [OF assms(1), of "cpenv E"] may_handle_assert [OF assms(3)]
  show ?thesis
  proof (cases a)
    case (Inl err)
    have "to_int32 (-1) = -1" by (simp add: to_int32_def)
    then show ?thesis using Inl assms(1) thread input_ok [OF assms(1) b]
      by (simp add: TCPConnection_HandleRead_def ReadFd_def)
  next
    case (Inr dat)
    have n: "to_int32 (int (length dat)) = int (length dat)"
      using assms(4) Inr by (intro to_int32_id) (auto simp: read_answer_ok_def)
    obtain b' where b': "ReadFd (c_input s) a = Inr (int (length dat), None, b')" "buffer_inv b'"
      using ReadFd_data [OF b, of dat] n Inr by (auto elim!: succeedsE)
    let ?s = "s\<lparr>c_input := b'\<rparr>"
    note i = input_ok [OF assms(1) b'(2)]
    show ?thesis
    proof (cases "dat = []")
      case True
      then show ?thesis using Inr b' thread succeeds_mono [OF HandleClose_ok [OF i assms(2)]]
        by (simp add: TCPConnection_HandleRead_def)
    next
      case False
      then show ?thesis using Inr b' thread i succeeds_mono [OF notify_ok [OF i assms(2), of EvRead]]
        by (simp add: TCPConnection_HandleRead_def notified_def)
    qed
  qed
qed

text \<open>
  The cases of \<^verbatim>\<open>HandleWrite\<close> after the kernel took \<open>n\<close> bytes: all of the pending ones, when the channel stops to wait for
  the socket to be writable, or fewer.
\<close>

lemma HandleWrite_takes:
  assumes "conn_inv E s" and "may_handle E s" and "k_send E (sends s) (length (contents (c_output s))) = Inr n" and "0 < n"
      and "n \<le> length (contents (c_output s))"
  obtains b where "buffer_inv b" "contents b = drop n (contents (c_output s))"
    "TCPConnection_HandleWrite E s =
      (let s2 = s\<lparr>sends := sends s + 1, sent := sent s @ take n (contents (c_output s)), c_output := b\<rparr> in
       if length (contents (c_output s)) = n then
         rbind (DisableWriting (cpenv E) (c_channel s2) s2) (\<lambda>s3.
           if has_write_complete_cb s3 then Inr (post_task WriteCompleteTask s3) else Inr s3)
       else Inr s2)"
proof -
  let ?out = "contents (c_output s)"
  have inv: "buffer_inv (c_output s)" using assms(1) by (simp add: conn_inv_def)
  have pk: "peek_bytes (c_output s) (length ?out) = ?out" "ReadableBytes (c_output s) = length ?out"
    using inv by (simp_all add: peek_bytes_contents)
  obtain b where b: "Retrieve (c_output s) n = Inr b" "buffer_inv b" "contents b = drop n ?out"
    using Retrieve_ok [OF inv, of n] assms(5) pk(2) by (auto elim!: succeedsE)
  have "sys_send E ?out s = (Inr n, s\<lparr>sends := sends s + 1, sent := sent s @ take n ?out\<rparr>)" using assms(3) by (simp add: sys_send_def)
  then show ?thesis using conn_inv_thread [OF assms(1), of "cpenv E"] may_handle_assert [OF assms(2)] assms(4) b(1)
    by (intro that [OF b(2,3)]) (simp add: TCPConnection_HandleWrite_def Let_def pk)
qed

text \<open>Dropping the interest in write events, in a state other than \<^verbatim>\<open>CONNECTING\<close> (whose output is empty).\<close>

lemma fits_DisableWriting:
  assumes "chan_state_ok st out c" and "contents b = []" and "st \<noteq> CONNECTING"
  shows "chan_state_ok st (contents b) (c\<lparr>ch_events := ch_events c AND NOT kWriteEvent,
    ch_status := expected_status (ch_events c AND NOT kWriteEvent)\<rparr>)"
proof (cases st)
  case CONNECTED
  then show ?thesis using assms chan_events_writing(2) [of out] by (simp add: chan_events_def [of "[]"])
next
  case DISCONNECTING
  have "kNoneEvent AND NOT kWriteEvent = kNoneEvent" by (simp add: kNoneEvent_def)
  then show ?thesis using assms DISCONNECTING by (simp add: expected_status_def)
qed (use assms(3) in simp_all)

lemma HandleWrite_all:
  assumes "conn_inv E s" and "may_handle E s" and "c_state s \<noteq> CONNECTING" and "buffer_inv b" and "contents b = []"
    and s2: "s2 = s\<lparr>sends := k, sent := sent s @ contents (c_output s), c_output := b\<rparr>"
  obtains t where "DisableWriting (cpenv E) (c_channel s2) s2 = Inr t" "conn_inv E t" "conn_frame s t" "accepted t = accepted s"
    "sent t = sent s2" "c_output t = b"
proof -
  have inv: "ep_inv s" "buffer_inv (c_input s)" "accepted s = sent s @ contents (c_output s)"
    using assms(1) by (auto simp: conn_inv_def)
  have i2: "ep_inv s2" unfolding s2 by (rule ep_inv_ext [OF inv(1)]) simp_all
  have acc: "sent s2 @ contents b = accepted s2" by (simp add: s2 assms(5) inv(3))
  have nd: "c_state s = DISCONNECTED \<longrightarrow> ndebug (cpenv E)" using assms(2) by (auto simp: may_handle_def)
  have "kNoneEvent AND NOT kWriteEvent = kNoneEvent" by (simp add: kNoneEvent_def)
  then have "succeeds (set_events (cpenv E) (\<lambda>ev. ev AND NOT kWriteEvent) (c_channel s2) s2)
      (\<lambda>t. conn_inv E t \<and> owners_part t = owners_part s2 \<and> dom (heap t) = dom (heap s2) \<and> (deaf s \<longrightarrow> deaf t))"
    using change_chan [OF assms(1,4) nd fits_DisableWriting [OF _ assms(5,3)] acc i2] inv(2) by (simp add: s2)
  then obtain t where t: "DisableWriting (cpenv E) (c_channel s2) s2 = Inr t" "conn_inv E t"
      "owners_part t = owners_part s2" "dom (heap t) = dom (heap s2)" "deaf s \<longrightarrow> deaf t"
    by (auto simp: DisableWriting_def elim!: succeedsE)
  show ?thesis by (rule that [OF t(1,2)]) (use owners_fields [OF t(3)] t(4,5) in \<open>simp_all add: conn_frame_def s2\<close>)
qed

lemma HandleWrite_some:
  assumes "conn_inv E s" and "buffer_inv b" and "contents b = drop n (contents (c_output s))"
    and "n < length (contents (c_output s))" and s2: "s2 = s\<lparr>sends := k, sent := sent s @ take n (contents (c_output s)), c_output := b\<rparr>"
  shows "conn_inv E s2"
proof -
  have inv: "ep_inv s" "buffer_inv (c_input s)" "accepted s = sent s @ contents (c_output s)"
    using assms(1) by (auto simp: conn_inv_def)
  obtain c where c: "heap s (c_channel s) = Some c" "chan_inv E s c" using conn_inv_chan [OF assms(1)] by blast
  have ne: "drop n (contents (c_output s)) \<noteq> []" "contents (c_output s) \<noteq> []" using assms(4) by auto
  have "chan_inv E s2 c" using c(2) ready_channel_ext [of s2 s] assms(3) ne
    by (cases "c_state s") (simp_all add: chan_inv_def s2 chan_events_def)
  moreover have "ep_inv s2" unfolding s2 by (rule ep_inv_ext [OF inv(1)]) simp_all
  ultimately show ?thesis using c(1) inv(2,3) assms(2,3) by (auto simp: conn_inv_def s2)
qed

lemma HandleWrite_conn_ok:
  assumes "conn_inv E s" and "send_ok E" and "may_handle E s"
  shows "succeeds (TCPConnection_HandleWrite E s) (\<lambda>t. conn_inv E t \<and> conn_frame s t \<and> accepted t = accepted s \<and>
      (\<forall>n. k_send E (sends s) (length (contents (c_output s))) = Inr n \<longrightarrow>
         sent t = sent s @ take n (contents (c_output s)) \<and> contents (c_output t) = drop n (contents (c_output s))))"
proof (cases "\<exists>n > 0. k_send E (sends s) (length (contents (c_output s))) = Inr n")
  case False
  let ?s1 = "s\<lparr>sends := sends s + 1\<rparr>"
  have b: "buffer_inv (c_output s)" "buffer_inv (c_input s)" using assms(1) by (simp_all add: conn_inv_def)
  have z: "n = 0" if "k_send E (sends s) (length (contents (c_output s))) = Inr n" for n using False that by auto
  then have "TCPConnection_HandleWrite E s = Inr ?s1"
    using conn_inv_thread [OF assms(1), of "cpenv E"] may_handle_assert [OF assms(3)] b
    by (auto simp: TCPConnection_HandleWrite_def sys_send_def peek_bytes_contents Let_def split: sum.split)
  moreover have "conn_inv E ?s1" by (rule conn_inv_ext [OF assms(1)]) (use b in simp_all)
  ultimately show ?thesis by (auto simp: conn_frame_def dest: z)
next
  case True
  let ?out = "contents (c_output s)"
  obtain n where n: "k_send E (sends s) (length ?out) = Inr n" "0 < n" "n \<le> length ?out"
    using True assms(2) by (auto simp: send_ok_def)
  have "0 < length ?out" using n(2,3) by linarith
  then have "?out \<noteq> []" by (simp only: length_greater_0_conv not_False_eq_True)
  moreover obtain c where "chan_inv E s c" using conn_inv_chan [OF assms(1)] by blast
  ultimately have pending: "c_state s \<noteq> CONNECTING" by (cases "c_state s") (simp_all add: chan_inv_def)
  obtain b where b: "buffer_inv b" "contents b = drop n ?out" and eq: "TCPConnection_HandleWrite E s =
      (let s2 = s\<lparr>sends := sends s + 1, sent := sent s @ take n ?out, c_output := b\<rparr> in
       if length ?out = n then rbind (DisableWriting (cpenv E) (c_channel s2) s2) (\<lambda>s3.
           if has_write_complete_cb s3 then Inr (post_task WriteCompleteTask s3) else Inr s3)
       else Inr s2)"
    by (rule HandleWrite_takes [OF assms(1,3) n])
  let ?s2 = "s\<lparr>sends := sends s + 1, sent := sent s @ take n ?out, c_output := b\<rparr>"
  show ?thesis
  proof (cases "n = length ?out")
    case True
    then obtain t where t: "DisableWriting (cpenv E) (c_channel ?s2) ?s2 = Inr t" "conn_inv E t" "conn_frame s t" "accepted t = accepted s"
        "sent t = sent ?s2" "c_output t = b"
      by (rule_tac HandleWrite_all [OF assms(1,3) pending b(1), of ?s2 "sends s + 1"]) (use b(2) in simp_all)
    have "TCPConnection_HandleWrite E s = Inr (if has_write_complete_cb t then post_task WriteCompleteTask t else t)"
      using eq True t(1) by (simp add: Let_def)
    moreover have "conn_inv E (post_task WriteCompleteTask t)" "conn_frame t (post_task WriteCompleteTask t)"
      using post_task_ok(1) [OF t(2)] post_task_ok(2) by simp_all
    ultimately show ?thesis using t(2-6) n(1) b(2) by (auto intro: conn_frame_trans)
  next
    case False
    then have "conn_inv E ?s2" using HandleWrite_some [OF assms(1) b _ refl] n(3) by simp
    then show ?thesis using eq False n(1) b(2) by (simp add: Let_def conn_frame_def)
  qed
qed

lemma ShutdownWriteInLoop_ok:
  assumes "conn_inv E s"
  shows "succeeds (ShutdownWriteInLoop E s) (\<lambda>t. conn_inv E t \<and> c_state t = c_state s \<and> trace t = trace s \<and>
      c_channel t = c_channel s \<and> dom (heap t) = dom (heap s) \<and> due t = due s \<and> (deaf s \<longrightarrow> deaf t))"
proof -
  obtain c where c: "heap s (c_channel s) = Some c" "conn_channel s = Inr c" using conn_inv_chan [OF assms] by blast
  have "conn_inv E (s\<lparr>shut_wr := True\<rparr>)"
    by (rule conn_inv_ext [OF assms]) (use assms in \<open>simp_all add: conn_inv_def\<close>)
  then show ?thesis using assms c conn_inv_thread [OF assms] by (simp add: ShutdownWriteInLoop_def deaf_def)
qed

text \<open>Another thread's call: the state is checked there and the rest is a task for the loop.\<close>

definition as_thread :: "int \<Rightarrow> (conn \<Rightarrow> conn outcome) \<Rightarrow> conn \<Rightarrow> conn outcome" where
  "as_thread tid f s = rbind (f (s\<lparr>current_tid := tid\<rparr>)) (\<lambda>t. Inr (t\<lparr>current_tid := current_tid s\<rparr>))"

lemma foreign_post:
  assumes "conn_inv E s"
  shows "conn_inv E ((post_task k (s\<lparr>current_tid := tid\<rparr>))\<lparr>current_tid := current_tid s\<rparr>)"
  by (rule conn_inv_ext [OF assms]) (use assms in \<open>simp_all add: conn_inv_def\<close>)

lemma foreign_send_ok:
  assumes "conn_inv E s" and "tid \<noteq> loop_tid s" and "oper \<in> {OpShutdown, OpForceClose} \<union> range OpSend"
  shows "succeeds (as_thread tid (run_conn_ops E [oper]) s) (\<lambda>t. conn_inv E t \<and> conn_frame s t)"
proof -
  have "\<not> IsInLoopThread (s\<lparr>current_tid := tid\<rparr>)" using assms(2) by (simp add: IsInLoopThread_def)
  then show ?thesis using assms(1,3) foreign_post [OF assms(1), of _ tid]
    by (auto simp: as_thread_def Send_def ShutdownWirte_def ForceClose_def conn_frame_def)
qed

section \<open>Life cycle\<close>

lemma ConnectionEstablished_ok:
  assumes "conn_inv E s" and "send_ok E" and "c_state s = CONNECTING"
  shows "succeeds (ConnectionEstablished E s) (\<lambda>t. conn_inv E t \<and> c_state t = CONNECTED \<and>
      c_channel t = c_channel s \<and> dom (heap t) = dom (heap s) \<and> due t = due s \<and>
      trace t = trace s @ (if has_connection_cb s then [EvConnected] else []))"
proof -
  obtain c where c: "heap s (c_channel s) = Some c" "chan_inv E s c" using conn_inv_chan [OF assms(1)] by blast
  let ?c = "Channel_Tie (c_self s) c"
  let ?s = "s\<lparr>c_state := CONNECTED, heap := (heap s)(c_channel s \<mapsto> ?c)\<rparr>"
  have "ep_inv (s\<lparr>c_state := CONNECTED\<rparr>)" by (rule ep_inv_ext [of s]) (use assms(1) in \<open>simp_all add: conn_inv_def\<close>)
  from ep_inv_core_upd [OF this, of "c_channel s" c ?c] have inv: "ep_inv ?s" using c(1) by simp
  have r: "ready_channel (cpenv E) (c_channel s) ?s"
    using c by (auto simp: chan_inv_def ready_channel_def updatable_def Channel_Tie_def)
  have ev: "ch_events ?c OR kReadEvent = kReadEvent" using c(2) assms(3)
    by (simp add: chan_inv_def Channel_Tie_def kNoneEvent_def)
  obtain t where t: "set_events (cpenv E) (\<lambda>ev. ev OR kReadEvent) (c_channel s) ?s = Inr t" "ep_inv t"
      "ready_channel (cpenv E) (c_channel s) t" "owners_part t = owners_part ?s"
      "heap t = (heap ?s)(c_channel s \<mapsto> ?c\<lparr>ch_events := kReadEvent, ch_status := expected_status kReadEvent\<rparr>)"
    using registry.change_ok [OF inv r, of ?c "\<lambda>ev. ev OR kReadEvent"] ev by (auto elim!: succeedsE)
  note o = owners_fields [OF t(4)]
  have it: "conn_inv E t" using t o assms(1,3) c(2) by (simp add: conn_inv_def chan_inv_def chan_events_def)
  have nt: "c_state t = CONNECTED" "c_channel t = c_channel s" "trace t = trace s" "dom (heap t) = dom (heap s)"
      "has_connection_cb t = has_connection_cb s" "due t = due s"
    using o t(5) c(1) by auto
  have "ConnectionEstablished E s = (if has_connection_cb t then notify E EvConnected t else Inr t)"
    using conn_inv_thread [OF assms(1)] c(1) t(1) by (simp add: ConnectionEstablished_def EnableReading_def)
  then show ?thesis using succeeds_mono [OF notify_ok [OF it assms(2), of EvConnected]] it nt
    by (simp add: notified_def)
qed

lemma ConnectionDestroy_ok:
  assumes "conn_inv E s"
  shows "succeeds (ConnectionDestroy E s) (\<lambda>t. conn_inv E t \<and> c_state t = DISCONNECTED \<and>
      c_channel t = c_channel s \<and> dom (heap t) = dom (heap s) \<and> trace t = trace s \<and> due t = due s \<and> (deaf s \<longrightarrow> deaf t))"
proof -
  obtain c where c: "heap s (c_channel s) = Some c" "chan_inv E s c" using conn_inv_chan [OF assms] by blast
  let ?s = "s\<lparr>c_state := DISCONNECTED\<rparr>"
  have inv: "ep_inv ?s" by (rule ep_inv_ext [of s]) (use assms in \<open>simp_all add: conn_inv_def\<close>)
  have r: "ready_channel (cpenv E) (c_channel s) ?s"
    using c(2) ready_channel_ext [of ?s s] by (simp add: chan_inv_def)
  have c': "heap ?s (c_channel s) = Some c" using c(1) by simp
  obtain t where t: "Channel_Remove (cpenv E) (c_channel s) ?s = Inr t" "ep_inv t"
      "ready_channel (cpenv E) (c_channel s) t" "owners_part t = owners_part ?s"
      "heap t = (heap ?s)(c_channel s \<mapsto> c\<lparr>ch_status := kNew\<rparr>)"
    using registry.remove_ok [OF inv r c'] by (auto elim!: succeedsE)
  note o = owners_fields [OF t(4)]
  show ?thesis using t o assms c(1) conn_inv_thread [OF assms]
    by (auto simp: ConnectionDestroy_def conn_inv_def chan_inv_def deaf_def)
qed

end
