(* ===== verification/TCPConnection_Runs.thy ===== *)
theory TCPConnection_Runs
  imports TCPConnection
begin

unbundle bit_operations_syntax

text \<open>
  Whole lives of a connection: the step relation of a connection on its loop, its reachable
  states, the order of the callbacks, and the properties of theory \<open>TCPConnection\<close>'s operations that
  hold in every reachable state.
\<close>

section \<open>Runs of a connection\<close>

text \<open>
  The steps of a connection's life on its loop: establishing it (which its server or client does once, after creating it),
  calls by its user on the loop's thread and on others, tasks that were queued (in any order), the events the poller
  reports, and its destruction, which its server may order at any time (\<^verbatim>\<open>TCPServer::Stop\<close>). A round of the loop is \<open>poll\<close>,
  in which the kernel reports events for a channel that is in its interest list, and then one \<open>deliver\<close> for each handler that \<^verbatim>\<open>HandleEvent\<close> calls for them
  (\<open>expected_calls\<close>, the order of theory \<open>Epoller\<close>), whatever has become of the connection meanwhile; the queued tasks run
  after the events. No state is excluded from \<open>deliver\<close>: a handler may find the connection closed or destroyed.
\<close>

inductive conn_step :: "conn_env \<Rightarrow> conn \<Rightarrow> conn outcome \<Rightarrow> bool" for E where
  establish: "c_state s = CONNECTING \<Longrightarrow> conn_step E s (ConnectionEstablished E s)"
| own_call: "conn_step E s (run_conn_ops E [oper] s)"
| foreign_call: "tid \<noteq> loop_tid s \<Longrightarrow> oper \<in> {OpShutdown, OpForceClose} \<union> range OpSend \<Longrightarrow>
    conn_step E s (as_thread tid (run_conn_ops E [oper]) s)"
| queued: "due s = [] \<Longrightarrow> n < length (closures s) \<Longrightarrow> conn_step E s (run_conn_task E (closures s ! n) s)"
| poll: "due s = [] \<Longrightarrow> heap s (c_channel s) = Some c \<Longrightarrow> interest s (ch_fd c) = Some (ev, c_channel s) \<Longrightarrow>
    conn_step E s (Inr (s\<lparr>due := expected_calls (c\<lparr>ch_revents := reported\<rparr>)\<rparr>))"
| deliver: "due s = k # ks \<Longrightarrow> read_answer_ok a \<Longrightarrow> conn_step E s (conn_call E a k (s\<lparr>due := ks\<rparr>))"
| destroy: "conn_step E s (ConnectionDestroy E s)"

definition conn_start :: "conn_env \<Rightarrow> conn \<Rightarrow> bool" where
  "conn_start E s \<longleftrightarrow> conn_inv E s \<and> c_state s = CONNECTING \<and> trace s = [] \<and> accepted s = [] \<and> due s = []"

inductive conn_reach :: "conn_env \<Rightarrow> conn \<Rightarrow> bool" for E where
  start: "conn_start E s \<Longrightarrow> conn_reach E s"
| step: "conn_reach E s \<Longrightarrow> conn_step E s (Inr s') \<Longrightarrow> conn_reach E s'"

text \<open>The order of the callbacks: nothing about the end before the connection is closed; then
  the user's notice if there is one, then the removal, then only late notices about output. A connection that was destroyed
  without being closed has had no notice.\<close>

definition closing :: "conn_event list" where "closing = [EvDisconnected, EvRemove]"

definition open_trace :: "conn_event list \<Rightarrow> bool" where
  "open_trace tr \<longleftrightarrow> set tr \<inter> set closing = {}"

definition closed_trace :: "conn_event list \<Rightarrow> bool" where
  "closed_trace tr \<longleftrightarrow> (\<exists>pre cl post. tr = pre @ cl @ post \<and> open_trace pre \<and> cl \<in> {closing, [EvRemove]} \<and>
     set post \<subseteq> insert EvWriteComplete (range EvHighWater))"

definition trace_ok :: "conn_state \<Rightarrow> conn_event list \<Rightarrow> bool" where
  "trace_ok st tr \<longleftrightarrow>
     (case st of
        CONNECTING \<Rightarrow> open_trace tr
      | CONNECTED \<Rightarrow> open_trace tr
      | DISCONNECTING \<Rightarrow> closed_trace tr
      | DISCONNECTED \<Rightarrow> open_trace tr \<or> closed_trace tr)"

lemma trace_ok_simps [simp]:
  "trace_ok CONNECTING tr = open_trace tr" "trace_ok CONNECTED tr = open_trace tr"
  "trace_ok DISCONNECTING tr = closed_trace tr" "trace_ok DISCONNECTED tr = (open_trace tr \<or> closed_trace tr)"
  by (simp_all add: trace_ok_def)

fun rank :: "conn_state \<Rightarrow> nat" where
  "rank CONNECTING = 0" | "rank CONNECTED = 1" | "rank DISCONNECTING = 2" | "rank DISCONNECTED = 3"

text \<open>The one way back: a connection destroyed without notice whose channel still has handlers to call.\<close>

definition revived :: "conn \<Rightarrow> conn \<Rightarrow> bool" where
  "revived s t \<longleftrightarrow> c_state s = DISCONNECTED \<and> c_state t = DISCONNECTING \<and> EvRemove \<notin> set (trace s) \<and> due s \<noteq> []"

definition advances :: "conn \<Rightarrow> conn \<Rightarrow> bool" where
  "advances s t \<longleftrightarrow> rank (c_state s) \<le> rank (c_state t) \<or> revived s t"

lemma closed_has_remove: "closed_trace tr \<Longrightarrow> EvRemove \<in> set tr"
  by (auto simp: closed_trace_def closing_def)

lemma open_no_remove: "open_trace tr \<Longrightarrow> EvRemove \<notin> set tr"
  by (simp add: open_trace_def closing_def)

lemma trace_ok_open: "trace_ok st tr \<Longrightarrow> EvRemove \<notin> set tr \<Longrightarrow> open_trace tr"
  by (cases st) (auto dest: closed_has_remove)

lemma closed_late:
  assumes "closed_trace tr" and "ev \<in> insert EvWriteComplete (range EvHighWater)"
  shows "closed_trace (tr @ [ev])"
proof -
  obtain pre cl post where p: "tr = pre @ cl @ post" "open_trace pre" "cl \<in> {closing, [EvRemove]}"
      "set post \<subseteq> insert EvWriteComplete (range EvHighWater)"
    using assms(1) unfolding closed_trace_def by blast
  have "tr @ [ev] = pre @ cl @ (post @ [ev])" "set (post @ [ev]) \<subseteq> insert EvWriteComplete (range EvHighWater)"
    using p(1,4) assms(2) by auto
  then show ?thesis using p(2,3) unfolding closed_trace_def by blast
qed

lemma open_late: "open_trace tr \<Longrightarrow> ev \<notin> set closing \<Longrightarrow> open_trace (tr @ [ev])"
  by (simp add: open_trace_def)

lemma late_events: "ev \<in> insert EvWriteComplete (range EvHighWater) \<Longrightarrow> ev \<notin> set closing"
  by (auto simp: closing_def)

lemma trace_ok_late:
  assumes "trace_ok st tr" and "ev \<in> insert EvWriteComplete (range EvHighWater)"
  shows "trace_ok st (tr @ [ev])"
  using assms(1) closed_late [OF _ assms(2), of tr] open_late [OF _ late_events [OF assms(2)], of tr] by (cases st) auto

lemma trace_ok_close:
  assumes "open_trace tr"
  shows "closed_trace (tr @ (if b then [EvDisconnected] else []) @ [EvRemove])"
  using assms unfolding closed_trace_def
  by (intro exI [of _ tr] exI [of _ "if b then closing else [EvRemove]"] exI [of _ "[]"]) (simp add: closing_def)

section \<open>Every step\<close>

text \<open>
  The handlers that may still be due, and the invariant of the runs: after the removal has been requested the
  channel waits for nothing and no handler is due that could close the connection again.
\<close>

definition due_ok :: "callback list \<Rightarrow> bool" where
  "due_ok ks \<longleftrightarrow> ks \<in> {[], [CloseCb], [ErrorCb], [ReadCb], [WriteCb], [ReadCb, WriteCb]}"

definition no_close_due :: "conn \<Rightarrow> bool" where
  "no_close_due s \<longleftrightarrow> ReadCb \<notin> set (due s) \<and> CloseCb \<notin> set (due s)"

definition run_inv :: "conn_env \<Rightarrow> conn \<Rightarrow> bool" where
  "run_inv E s \<longleftrightarrow> conn_inv E s \<and> due_ok (due s) \<and> trace_ok (c_state s) (trace s) \<and>
     (c_state s = CONNECTING \<longrightarrow> due s = []) \<and> (EvRemove \<in> set (trace s) \<longrightarrow> deaf s \<and> no_close_due s)"

text \<open>A handler that asserts a connected state and is called in another one.\<close>

definition too_late :: "conn \<Rightarrow> bool" where
  "too_late s \<longleftrightarrow> c_state s = DISCONNECTING \<and> due s = [WriteCb] \<or>
     c_state s = DISCONNECTED \<and> due s \<noteq> [] \<and> hd (due s) \<in> {ReadCb, WriteCb}"

lemma due_ok_expected: "due_ok (expected_calls c)"
  by (simp add: due_ok_def expected_calls_def Let_def)

lemma due_ok_Cons: "due_ok (k # ks) \<Longrightarrow> due_ok ks \<and> (ks = [] \<or> ks = [WriteCb] \<and> k = ReadCb)"
  by (auto simp: due_ok_def)

lemma polled_listens:
  assumes "ep_inv s" and "heap s p = Some c" and "interest s (ch_fd c) = Some (ev, p)"
  shows "ch_events c \<noteq> kNoneEvent" and "ch_status c = kAdded"
proof -
  have "0 \<le> ch_fd c \<and> nat (ch_fd c) \<in> used s" using assms(1,3) unfolding ep_inv_def by (metis option.distinct(1))
  then obtain q where q: "nat (ch_fd c) < length (channels s)" "channels s ! nat (ch_fd c) = Some q" "int (nat (ch_fd c)) = ch_fd c"
    by (auto simp: used_def)
  then have "slot_ok s (nat (ch_fd c)) q" using assms(1) by (simp add: ep_inv_def)
  then have "ch_events c \<noteq> kNoneEvent \<and> ch_status c = expected_status (ch_events c)"
    using assms(2,3) q(3) by (auto simp: slot_ok_def expected_interest_def split: if_splits)
  then show "ch_events c \<noteq> kNoneEvent" "ch_status c = kAdded" by (auto simp: expected_status_def)
qed

text \<open>Operations that leave state, trace and due handlers alone, and notices about output.\<close>

lemma run_inv_frame:
  assumes "run_inv E s" and "conn_inv E t" and "conn_frame s t"
  shows "run_inv E t \<and> advances s t"
proof -
  have "c_state s \<noteq> CONNECTED" if "EvRemove \<in> set (trace s)"
    using that assms(1) open_no_remove by (auto simp: run_inv_def)
  then show ?thesis using assms by (auto simp: run_inv_def conn_frame_def advances_def no_close_due_def)
qed

lemma run_inv_late:
  assumes "run_inv E s" and "conn_inv E t" and "notified [ev] s t" and "ev \<in> insert EvWriteComplete (range EvHighWater)"
  shows "run_inv E t \<and> advances s t"
proof -
  have "c_state s \<noteq> CONNECTED" if "EvRemove \<in> set (trace s)"
    using that assms(1) open_no_remove by (auto simp: run_inv_def)
  moreover have "EvRemove \<noteq> ev" using assms(4) by auto
  ultimately show ?thesis using assms(1-3) trace_ok_late [OF _ assms(4), of "c_state s" "trace s"]
    by (auto simp: run_inv_def notified_def advances_def no_close_due_def)
qed

lemma closed_run_inv:
  assumes "conn_inv E t" and "c_state t = DISCONNECTING" and "closed_trace (trace t)" and "due_ok (due t)" and "no_close_due t"
  shows "run_inv E t"
proof -
  obtain c where "heap t (c_channel t) = Some c" "chan_inv E t c" using conn_inv_chan [OF assms(1)] by blast
  then have "deaf t" using assms(2) by (auto simp: deaf_def chan_inv_def)
  then show ?thesis using assms by (simp add: run_inv_def)
qed

text \<open>Closing, from every state in which the removal has not been requested.\<close>

lemma HandleClose_run:
  assumes "conn_inv E s" and "send_ok E" and "open_trace (trace s)" and "due_ok (due s)" and "no_close_due s"
  shows "succeeds (TCPConnection_HandleClose E s) (\<lambda>t. run_inv E t \<and> c_state t = DISCONNECTING)"
  by (rule succeeds_mono [OF HandleClose_ok [OF assms(1,2)]])
    (use assms(3-5) trace_ok_close [OF assms(3), of "has_disconnection_cb s"] in \<open>auto intro!: closed_run_inv simp: no_close_due_def\<close>)

lemma run_conn_task_ok:
  assumes "run_inv E s" and "send_ok E" and "due s = []"
  shows "succeeds (run_conn_task E k s) (\<lambda>t. run_inv E t \<and> advances s t)"
proof -
  have inv: "conn_inv E s" using assms(1) by (simp add: run_inv_def)
  note late = succeeds_mono [OF notify_ok [OF inv assms(2)]]
  show ?thesis
  proof (cases k)
    case (SendTask dat)
    show ?thesis unfolding run_conn_task_def SendTask conn_task.case
      by (rule succeeds_mono [OF Send_impl_ok [OF inv assms(2)]]) (use run_inv_frame [OF assms(1)] in blast)
  next
    case ShutdownTask
    show ?thesis unfolding run_conn_task_def ShutdownTask conn_task.case
      by (rule succeeds_mono [OF ShutdownWriteInLoop_ok [OF inv]])
        (use assms(1) in \<open>auto simp: advances_def run_inv_def no_close_due_def\<close>)
  next
    case ForceCloseTask
    show ?thesis
    proof (cases "c_state s \<in> {DISCONNECTING, DISCONNECTED}")
      case True
      then show ?thesis using assms(1) conn_inv_thread [OF inv]
        by (auto simp: run_conn_task_def ForceCloseTask ForceCloseInLoop_def advances_def)
    next
      case False
      then have "c_state s = CONNECTING \<or> c_state s = CONNECTED" by (cases "c_state s") auto
      moreover from this have "open_trace (trace s)" using assms(1) by (auto simp: run_inv_def)
      ultimately show ?thesis using succeeds_mono [OF HandleClose_run [OF inv assms(2)]] assms(3) conn_inv_thread [OF inv] False
        by (auto simp: run_conn_task_def ForceCloseTask ForceCloseInLoop_def advances_def due_ok_def no_close_due_def)
    qed
  next
    case WriteCompleteTask
    have "succeeds (notify E EvWriteComplete s) (\<lambda>t. run_inv E t \<and> advances s t)" by (rule late) (use run_inv_late [OF assms(1)] in blast)
    then show ?thesis using WriteCompleteTask by (simp add: run_conn_task_def)
  next
    case (HighWaterTask n)
    have "succeeds (notify E (EvHighWater n) s) (\<lambda>t. run_inv E t \<and> advances s t)" by (rule late) (use run_inv_late [OF assms(1)] in blast)
    then show ?thesis using HighWaterTask by (simp add: run_conn_task_def)
  qed
qed

text \<open>The handlers.\<close>

lemma conn_inv_due [simp]: "conn_inv E (s\<lparr>due := ks\<rparr>) = conn_inv E s"
proof
  assume "conn_inv E (s\<lparr>due := ks\<rparr>)"
  then show "conn_inv E s" by (rule conn_inv_ext) (use \<open>conn_inv E (s\<lparr>due := ks\<rparr>)\<close> in \<open>simp_all add: conn_inv_def\<close>)
next
  assume "conn_inv E s"
  then show "conn_inv E (s\<lparr>due := ks\<rparr>)" by (rule conn_inv_ext) (use \<open>conn_inv E s\<close> in \<open>simp_all add: conn_inv_def\<close>)
qed

lemma run_inv_delivered:
  assumes "run_inv E s" and "due s = k # ks"
  shows "run_inv E (s\<lparr>due := ks\<rparr>)" and "k \<in> {ReadCb, CloseCb} \<Longrightarrow> open_trace (trace s) \<and> no_close_due (s\<lparr>due := ks\<rparr>)"
    and "c_state s \<noteq> CONNECTING" and "due_ok ks"
proof -
  note d = due_ok_Cons [of k ks]
  show "run_inv E (s\<lparr>due := ks\<rparr>)" "c_state s \<noteq> CONNECTING" "due_ok ks"
    using assms d by (auto simp: run_inv_def no_close_due_def)
  assume k: "k \<in> {ReadCb, CloseCb}"
  then have "EvRemove \<notin> set (trace s)" using assms by (auto simp: run_inv_def no_close_due_def)
  then show "open_trace (trace s) \<and> no_close_due (s\<lparr>due := ks\<rparr>)"
    using assms d trace_ok_open by (auto simp: run_inv_def no_close_due_def)
qed

lemma advances_close:
  assumes "run_inv E s" and "due s = k # ks" and "k \<in> {ReadCb, CloseCb}" and "c_state t = DISCONNECTING"
  shows "advances s t"
proof -
  have "EvRemove \<notin> set (trace s)" using run_inv_delivered(2) [OF assms(1-3)] open_no_remove by blast
  then show ?thesis using assms(2,4) by (cases "c_state s") (auto simp: advances_def revived_def)
qed

lemma deliver_ok:
  assumes "run_inv E s" and "send_ok E" and "due s = k # ks" and "read_answer_ok a"
  shows "conn_call E a k (s\<lparr>due := ks\<rparr>) = Inl AssertionFailed \<and> \<not> ndebug (cpenv E) \<and> too_late s \<or>
    succeeds (conn_call E a k (s\<lparr>due := ks\<rparr>)) (\<lambda>t. run_inv E t \<and> advances s t)"
proof -
  let ?s = "s\<lparr>due := ks\<rparr>"
  note d = run_inv_delivered [OF assms(1,3)]
  have inv: "conn_inv E ?s" using d(1) by (simp add: run_inv_def)
  note thread = conn_inv_thread [OF inv, of "cpenv E"]
  have from_s: "advances s t" if "advances ?s t" "ks = [] \<longrightarrow> \<not> revived ?s t" for t
    using that assms(3) by (auto simp: advances_def revived_def)
  have fails: "conn_call E a k ?s = Inl AssertionFailed \<and> \<not> ndebug (cpenv E) \<and> too_late s"
    if "\<not> may_handle E ?s" "k \<in> {ReadCb, WriteCb}"
  proof -
    have nd: "CONNECTED \<noteq> c_state s" "\<not> ndebug (cpenv E)" using that(1) by (auto simp: may_handle_def)
    then have "conn_call E a k ?s = Inl AssertionFailed"
      using that(2) thread by (auto simp: conn_call_def TCPConnection_HandleRead_def TCPConnection_HandleWrite_def dassert_def)
    moreover have "too_late s"
    proof (cases "c_state s")
      case DISCONNECTING
      then have "closed_trace (trace s)" using assms(1) by (simp add: run_inv_def)
      then have "no_close_due s" using assms(1) closed_has_remove by (auto simp: run_inv_def)
      then show ?thesis using DISCONNECTING that(2) assms(3) due_ok_Cons [of k ks] assms(1)
        by (auto simp: too_late_def no_close_due_def run_inv_def)
    qed (use nd(1) d(3) that(2) assms(3) in \<open>auto simp: too_late_def\<close>)
    ultimately show ?thesis using nd(2) by blast
  qed
  show ?thesis
  proof (cases k)
    case ReadCb
    then have o: "open_trace (trace s)" "no_close_due ?s" using d(2) by auto
    have "succeeds (TCPConnection_HandleRead E a ?s) (\<lambda>t. run_inv E t \<and> advances s t)" if "may_handle E ?s"
    proof (rule succeeds_mono [OF HandleRead_conn_ok [OF inv assms(2) that assms(4)]], goal_cases)
      case (1 t)
      show ?case
      proof (cases "a = Inr []")
        case True
        then have t: "conn_inv E t" "c_state t = DISCONNECTING" "due t = ks"
            "trace t = trace s @ (if has_disconnection_cb s then [EvDisconnected] else []) @ [EvRemove]"
          using 1 by simp_all
        have "run_inv E t" using closed_run_inv [OF t(1,2)] t(3,4) trace_ok_close [OF o(1), of "has_disconnection_cb s"] o(2) d(4)
          by (simp add: no_close_due_def)
        then show ?thesis using advances_close [OF assms(1,3) _ t(2)] ReadCb by simp
      next
        case False
        then have t: "conn_inv E t" "c_state t = c_state s" "due t = ks"
            "trace t = trace s \<or> trace t = trace s @ [EvRead]"
          using 1 by (auto split: if_splits)
        then have "open_trace (trace t)" using o(1) open_late [OF o(1), of EvRead] by (auto simp: closing_def)
        then have "trace_ok (c_state t) (trace t)" "EvRemove \<notin> set (trace t)"
          using t(2) assms(1) open_no_remove closed_has_remove o(1) by (cases "c_state s"; auto simp: run_inv_def)+
        then show ?thesis using t d(3,4) by (simp add: run_inv_def advances_def)
      qed
    qed
    then show ?thesis using fails ReadCb by (auto simp: conn_call_def)
  next
    case WriteCb
    have "succeeds (TCPConnection_HandleWrite E ?s) (\<lambda>t. run_inv E t \<and> advances s t)" if "may_handle E ?s"
      by (rule succeeds_mono [OF HandleWrite_conn_ok [OF inv assms(2) that]])
        (use run_inv_frame [OF d(1)] in \<open>auto simp: conn_frame_def advances_def\<close>)
    then show ?thesis using fails WriteCb by (auto simp: conn_call_def)
  next
    case CloseCb
    then have o: "open_trace (trace s)" "no_close_due ?s" using d(2) by auto
    then have "succeeds (TCPConnection_HandleClose E ?s) (\<lambda>t. run_inv E t \<and> advances s t)"
      using advances_close [OF assms(1,3)] CloseCb d(4)
      by (intro succeeds_mono [OF HandleClose_run [OF inv assms(2)]]) auto
    then show ?thesis using CloseCb by (simp add: conn_call_def)
  next
    case ErrorCb
    then show ?thesis using d(1) thread by (simp add: conn_call_def TCPConnection_HandleError_def advances_def)
  qed
qed

lemma conn_step_run:
  assumes "conn_step E s r" and "run_inv E s" and "send_ok E"
  shows "r = Inl AssertionFailed \<and> \<not> ndebug (cpenv E) \<and> too_late s \<or> succeeds r (\<lambda>t. run_inv E t \<and> advances s t)"
proof -
  have inv: "conn_inv E s" using assms(2) by (simp add: run_inv_def)
  note frame = run_inv_frame [OF assms(2)]
  show ?thesis
    using assms(1)
  proof cases
    case establish
    have o: "open_trace (trace s)" "due s = []" using establish(2) assms(2) by (simp_all add: run_inv_def)
    have "succeeds r (\<lambda>t. run_inv E t \<and> advances s t)" unfolding establish(1)
    proof (rule succeeds_mono [OF ConnectionEstablished_ok [OF inv assms(3) establish(2)]])
      fix t assume t: "conn_inv E t \<and> c_state t = CONNECTED \<and> c_channel t = c_channel s \<and> dom (heap t) = dom (heap s) \<and>
        due t = due s \<and> trace t = trace s @ (if has_connection_cb s then [EvConnected] else [])"
      then have "open_trace (trace t)" using o(1) open_late [OF o(1), of EvConnected] by (simp add: closing_def)
      then show "run_inv E t \<and> advances s t" using t o(2) establish(2) open_no_remove [of "trace t"]
        by (simp add: run_inv_def advances_def due_ok_def)
    qed
    then show ?thesis ..
  next
    case (own_call oper)
    have "succeeds r (\<lambda>t. run_inv E t \<and> advances s t)" unfolding own_call
      by (rule succeeds_mono [OF run_conn_ops_ok [OF inv assms(3)]]) (use frame in blast)
    then show ?thesis ..
  next
    case (foreign_call tid oper)
    have "succeeds r (\<lambda>t. run_inv E t \<and> advances s t)" unfolding foreign_call(1)
      by (rule succeeds_mono [OF foreign_send_ok [OF inv foreign_call(2,3)]]) (use frame in blast)
    then show ?thesis ..
  next
    case (queued n)
    then show ?thesis using run_conn_task_ok [OF assms(2,3)] by simp
  next
    case (poll c ev reported)
    have ep: "ep_inv s" using inv by (simp add: conn_inv_def)
    have "\<not> deaf s" using polled_listens(1) [OF ep poll(3,4)] poll(3) by (auto simp: deaf_def)
    moreover have "c_state s \<noteq> CONNECTING" using inv polled_listens(2) [OF ep poll(3,4)] poll(3)
      by (auto simp: conn_inv_def chan_inv_def status_defs)
    ultimately show ?thesis using poll(1) assms(2) due_ok_expected by (auto simp: run_inv_def advances_def)
  next
    case (deliver k ks a)
    then show ?thesis using deliver_ok [OF assms(2,3) deliver(2,3)] by simp
  next
    case destroy
    have "succeeds r (\<lambda>t. run_inv E t \<and> advances s t)" unfolding destroy
    proof (rule succeeds_mono [OF ConnectionDestroy_ok [OF inv]])
      fix t assume t: "conn_inv E t \<and> c_state t = DISCONNECTED \<and> c_channel t = c_channel s \<and> dom (heap t) = dom (heap s) \<and>
        trace t = trace s \<and> due t = due s \<and> (deaf s \<longrightarrow> deaf t)"
      moreover have "rank (c_state s) \<le> 3" by (cases "c_state s") simp_all
      moreover have "trace_ok DISCONNECTED (trace s)" using assms(2) by (cases "c_state s") (auto simp: run_inv_def)
      ultimately show "run_inv E t \<and> advances s t" using assms(2) by (auto simp: run_inv_def advances_def no_close_due_def)
    qed
    then show ?thesis ..
  qed
qed

lemma conn_reach_run:
  assumes "conn_reach E s" and "send_ok E"
  shows "run_inv E s"
  using assms(1)
proof (induction rule: conn_reach.induct)
  case (start s)
  then show ?case by (simp add: conn_start_def run_inv_def due_ok_def open_trace_def)
next
  case (step s s')
  then show ?case using conn_step_run [OF step.hyps(2) _ assms(2)] by simp
qed

lemma conn_reach_inv: "conn_reach E s \<Longrightarrow> send_ok E \<Longrightarrow> conn_inv E s"
  using conn_reach_run by (simp add: run_inv_def)

lemma conn_inv_core_upd:
  assumes "conn_inv E s" and "heap s (c_channel s) = Some c" and "core d = core c"
  shows "conn_inv E (s\<lparr>heap := (heap s)(c_channel s \<mapsto> d)\<rparr>)"
proof -
  let ?s = "s\<lparr>heap := (heap s)(c_channel s \<mapsto> d)\<rparr>"
  have "ep_inv ?s" by (rule ep_inv_core_upd [OF _ assms(2,3)]) (use assms(1) in \<open>simp add: conn_inv_def\<close>)
  moreover have "ready_channel (cpenv E) (c_channel s) ?s" "chan_state_ok (c_state s) (contents (c_output s)) d"
      "c_state s = DISCONNECTED \<longrightarrow> \<not> ndebug (cpenv E) \<longrightarrow> ch_status d = kNew"
    using assms by (auto simp: conn_inv_def chan_inv_def ready_channel_def updatable_def core_def chan_state_ok_def
        split: conn_state.splits)
  ultimately show ?thesis using assms(1) by (simp add: conn_inv_def chan_inv_def)
qed

section \<open>Creation, and a sample connection\<close>

lemma conn_created:
  fixes s :: event_loop
  assumes "env_ok (cpenv CE)" and "ep_inv s" and "heap s p = None" and "0 < fd" and "nat fd < length (channels s)"
    and "nat fd \<notin> used s"
  shows "succeeds (rbind (TCPConnection_ctor (cpenv CE) self p fd s) (TCPConnection_Initialize CE))
    (\<lambda>t. conn_start CE t \<and> c_channel t = p \<and> loop_tid t = loop_tid s \<and> current_tid t = current_tid s \<and>
      closures t = [] \<and> \<not> has_connection_cb t \<and> contents (c_output t) = [] \<and>
      (\<exists>c. heap t p = Some c \<and> ch_has_read c \<and> ch_has_write c \<and> ch_revents c = kNoneEvent))"
proof -
  let ?c = "Channel_ctor (Some (loop_self s)) fd ''''"
  let ?d = "?c\<lparr>ch_has_read := True, ch_has_write := True, ch_has_error := True, ch_has_close := True\<rparr>"
  let ?s = "s\<lparr>heap := (heap s)(p \<mapsto> ?c)\<rparr>" and ?s2 = "s\<lparr>heap := (heap s)(p \<mapsto> ?d)\<rparr>"
  define m where "m = conn.fields self CONNECTING 0 Buffer_ctor Buffer_ctor p 0 False False False False False
       [] [] 0 [] False [] [] []"
  let ?t = "event_loop.extend ?s2 m"
  have i1: "ep_inv ?s" by (rule ep_inv_heap_new [OF assms(2-5)])
  have "ep_inv ?s2" using ep_inv_core_upd [OF i1, of p ?c ?d] by (simp add: core_def)
  then have i2: "ep_inv ?t" by (rule ep_inv_ext) (simp_all add: event_loop.defs)
  have "channels s ! nat fd = None" using assms(5,6) by (simp add: used_def)
  then have r: "ready_channel (cpenv CE) p ?t" using assms(1)
    by (auto simp: ready_channel_def updatable_def event_loop.defs Channel_ctor_def)
  have b: "buffer_inv Buffer_ctor" "contents Buffer_ctor = []" by (rule ctor_inv)+
  have "conn_inv CE ?t" using i2 r b
    by (simp add: conn_inv_def chan_inv_def m_def event_loop.defs conn.defs Channel_ctor_def kNew_def)
  then have "conn_start CE ?t" by (simp add: conn_start_def m_def event_loop.defs conn.defs)
  moreover have "rbind (TCPConnection_ctor (cpenv CE) self p fd s) (TCPConnection_Initialize CE) = Inr ?t"
    using assms(4) by (simp add: TCPConnection_ctor_def TCPConnection_Initialize_def new_Channel_def
        event_loop.defs conn.defs m_def)
  ultimately show ?thesis using b(2)
    by (simp add: m_def event_loop.defs conn.defs Channel_ctor_def)
qed

text \<open>A kernel that takes at most two bytes at a time and a user who does nothing.\<close>

definition sample_conn_env :: conn_env where
  "sample_conn_env = \<lparr>cpenv = linux_env, k_send = (\<lambda>i n. Inr (min n 2)), user = (\<lambda>ev s. [])\<rparr>"

lemma sample_conn_env_ok: "send_ok sample_conn_env" "cpenv sample_conn_env = linux_env"
  by (simp_all add: send_ok_def sample_conn_env_def)

definition sample_conn :: conn where
  "sample_conn = projr (rbind (EventLoop_ctor linux_env 1 7 10 5 3 11 6 None False) (\<lambda>s.
     rbind (TCPConnection_ctor linux_env 20 12 8 s) (TCPConnection_Initialize sample_conn_env)))"

lemma sample_conn_start:
  "conn_start sample_conn_env sample_conn" "c_channel sample_conn = 12" "contents (c_output sample_conn) = []"
  "\<exists>c. heap sample_conn 12 = Some c \<and> ch_has_read c \<and> ch_has_write c \<and> ch_revents c = kNoneEvent"
proof -
  obtain s where s: "EventLoop_ctor linux_env 1 7 10 5 3 11 6 None False = Inr s" "el_inv s"
      "dom (heap s) = {10, 11}" "used s = {5, 6}" "length (channels s) = kInitTotalChannelSize"
    using EventLoop_ctor_ok [OF linux_env_ok, of 10 11 5 6 1 7 3 False] by (auto elim!: succeedsE)
  have "12 \<notin> dom (heap s)" using s(3) by simp
  then have "heap s 12 = None" by (simp only: domIff not_not)
  moreover have "ep_inv s" "nat 8 \<notin> used s" "nat 8 < length (channels s)"
    using s by (auto simp: el_inv_def kInitTotalChannelSize_def)
  ultimately have "succeeds (rbind (TCPConnection_ctor linux_env 20 12 8 s) (TCPConnection_Initialize sample_conn_env))
    (\<lambda>t. t = sample_conn \<and> conn_start sample_conn_env t \<and> c_channel t = 12 \<and> contents (c_output t) = [] \<and>
      (\<exists>c. heap t 12 = Some c \<and> ch_has_read c \<and> ch_has_write c \<and> ch_revents c = kNoneEvent))"
    using conn_created [of sample_conn_env s 12 8 20] sample_conn_env_ok(2) linux_env_ok s(1)
    by (auto simp: sample_conn_def elim!: succeedsE)
  then show "conn_start sample_conn_env sample_conn" "c_channel sample_conn = 12" "contents (c_output sample_conn) = []"
    "\<exists>c. heap sample_conn 12 = Some c \<and> ch_has_read c \<and> ch_has_write c \<and> ch_revents c = kNoneEvent"
    by (auto simp del: succeeds_rbind elim!: succeedsE)
qed

lemma sample_conn_inv: "conn_inv sample_conn_env sample_conn" "c_state sample_conn = CONNECTING"
  using sample_conn_start(1) by (simp_all add: conn_start_def)

lemma sample_conn_reach: "conn_reach sample_conn_env sample_conn"
  by (rule conn_reach.start [OF sample_conn_start(1)])

text \<open>The sample connection after it has been established.\<close>

lemma sample_connected_channel:
  obtains s c where "ConnectionEstablished sample_conn_env sample_conn = Inr s" "conn_inv sample_conn_env s"
    "c_state s = CONNECTED" "heap s (c_channel s) = Some c" "ch_has_read c" "ch_has_write c" "contents (c_output s) = []"
    "ch_status c = kAdded" "due s = []"
proof -
  have d0: "due sample_conn = []" using sample_conn_start(1) by (simp add: conn_start_def)
  obtain s where s: "ConnectionEstablished sample_conn_env sample_conn = Inr s" "conn_inv sample_conn_env s" "c_state s = CONNECTED"
    using ConnectionEstablished_ok [OF sample_conn_inv(1) sample_conn_env_ok(1) sample_conn_inv(2)]
    by (auto elim!: succeedsE)
  obtain c where c: "heap sample_conn 12 = Some c" "ch_has_read c" "ch_has_write c" using sample_conn_start(4) by blast
  let ?s = "sample_conn\<lparr>c_state := CONNECTED, heap := (heap sample_conn)(12 \<mapsto> Channel_Tie (c_self sample_conn) c)\<rparr>"
  obtain u where u: "set_events linux_env (\<lambda>ev. ev OR kReadEvent) 12 ?s = Inr u"
      "s = u \<or> s = u\<lparr>trace := trace u @ [EvConnected]\<rparr>"
    using s(1) c(1) sample_conn_start(2) sample_conn_env_ok(2)
    by (auto simp: ConnectionEstablished_def EnableReading_def rbind_Inr_conv notify_def sample_conn_env_def split: if_splits)
  have i: "conn_inv sample_conn_env (sample_conn\<lparr>heap := (heap sample_conn)(12 \<mapsto> Channel_Tie (c_self sample_conn) c)\<rparr>)"
    using conn_inv_core_upd [OF sample_conn_inv(1), of c "Channel_Tie (c_self sample_conn) c"] c(1) sample_conn_start(2)
    by (simp add: core_def Channel_Tie_def)
  have "ep_inv ?s" by (rule ep_inv_ext [of "sample_conn\<lparr>heap := (heap sample_conn)(12 \<mapsto> Channel_Tie (c_self sample_conn) c)\<rparr>"])
      (use i in \<open>simp_all add: conn_inv_def\<close>)
  moreover have "ready_channel linux_env 12 ?s"
    using i ready_channel_ext [of ?s "sample_conn\<lparr>heap := (heap sample_conn)(12 \<mapsto> Channel_Tie (c_self sample_conn) c)\<rparr>"]
      sample_conn_start(2) sample_conn_env_ok(2) by (auto simp: conn_inv_def chan_inv_def)
  ultimately have "heap u 12 = Some ((Channel_Tie (c_self sample_conn) c)\<lparr>ch_events := ch_events c OR kReadEvent,
      ch_status := expected_status (ch_events c OR kReadEvent)\<rparr>) \<and> owners_part u = owners_part ?s"
    using registry.change_ok [of ?s linux_env 12 _ "\<lambda>ev. ev OR kReadEvent"] u(1) by (auto simp: Channel_Tie_def)
  moreover have "ch_events c OR kReadEvent \<noteq> kNoneEvent" using sample_conn_inv c(1) sample_conn_start(2)
    by (auto simp: conn_inv_def chan_inv_def kNoneEvent_def kReadEvent_def epoll_bits)
  ultimately show ?thesis
    using that [OF s] u(2) c owners_fields [of u ?s] sample_conn_start(2,3) d0
    by (auto simp: Channel_Tie_def expected_status_def)
qed

lemma sample_connected_idle:
  obtains s where "ConnectionEstablished sample_conn_env sample_conn = Inr s" "conn_reach sample_conn_env s"
    "c_state s = CONNECTED" "contents (c_output s) = []"
proof -
  obtain s c where s: "ConnectionEstablished sample_conn_env sample_conn = Inr s" "c_state s = CONNECTED" "contents (c_output s) = []"
    by (rule sample_connected_channel)
  have "conn_step sample_conn_env sample_conn (Inr s)"
    using conn_step.establish [OF sample_conn_inv(2), of sample_conn_env] s(1) by simp
  then show ?thesis using that s conn_reach.step [OF sample_conn_reach] by blast
qed

lemma sample_connected:
  obtains s where "ConnectionEstablished sample_conn_env sample_conn = Inr s" "conn_reach sample_conn_env s"
    "c_state s = CONNECTED"
  using sample_connected_idle by blast

text \<open>Sending three bytes leaves one in the buffer.\<close>

lemma sample_send:
  assumes "conn_inv sample_conn_env s" and "c_state s = CONNECTED" and "contents (c_output s) = []"
  obtains t where "Send sample_conn_env [1, 2, 3] s = Inr t" "c_state t = CONNECTED" "contents (c_output t) = [3]"
proof -
  let ?s = "s\<lparr>sends := sends s + 1, sent := sent s @ [1, 2], accepted := accepted s @ [1, 2, 3]\<rparr>"
  obtain c where c: "heap s (c_channel s) = Some c" "conn_channel s = Inr c" "chan_inv sample_conn_env s c"
    using conn_inv_chan [OF assms(1)] by blast
  have w: "\<not> IsWriting c" using c(3) assms(2,3) IsWriting_chan_events [of c "[]"] by (simp add: chan_inv_def)
  have inv: "ep_inv s" "buffer_inv (c_input s)" "buffer_inv (c_output s)" "accepted s = sent s"
    using assms(1,3) by (auto simp: conn_inv_def)
  have th: "IsInLoopThread s" using inv(1) by (simp add: ep_inv_def)
  have "ReadableBytes (c_output s) = 0" using inv(3) assms(3) length_contents [of "c_output s"] by simp
  then have eq: "Send sample_conn_env [1, 2, 3] s = SendDatQueueInBuffer sample_conn_env [3] ?s"
    using c(2) w th assms(2) by (simp add: Send_def Send_impl_def SendMostPossible_def sys_send_def Let_def
        sample_conn_env_def AssertInLoopThread_def)
  have "ep_inv ?s" by (rule ep_inv_ext [OF inv(1)]) simp_all
  moreover have "chan_inv sample_conn_env ?s c" using c(3) ready_channel_ext [of ?s s] by (simp add: chan_inv_def)
  ultimately have "succeeds (SendDatQueueInBuffer sample_conn_env [3] ?s) (\<lambda>t. conn_inv sample_conn_env t \<and>
      conn_frame ?s t \<and> accepted t = accepted ?s \<and> sent t = sent ?s)"
    using inv assms c(1) by (intro SendDatQueueInBuffer_ok [where c = c]) simp_all
  then show ?thesis using that eq inv(4) assms(2) by (auto simp: conn_frame_def conn_inv_def elim!: succeedsE)
qed

section \<open>Facts for the properties\<close>

text \<open>A connection that is not connected any more takes no orders that would touch its channel.\<close>

lemma closed_ops_heap:
  "run_conn_ops E ops s = Inr t \<Longrightarrow> c_state s \<noteq> CONNECTED \<Longrightarrow> heap t = heap s \<and> c_state t = c_state s"
proof (induction ops arbitrary: s)
  case (Cons oper ops)
  have c: "CONNECTED \<noteq> c_state s" using Cons.prems(2) by simp
  have "\<exists>s1. run_conn_ops E ops s1 = Inr t \<and> heap s1 = heap s \<and> c_state s1 = c_state s"
  proof (cases oper)
    case (OpTake n)
    then show ?thesis using Cons.prems(1) by (force simp: rbind_Inr_conv)
  next
    case OpAddRequests
    then show ?thesis using Cons.prems(1) by (intro exI [of _ "AddRequests s"]) (simp add: AddRequests_def)
  qed (use Cons.prems(1) c in \<open>auto simp: Send_def ShutdownWirte_def ForceClose_def\<close>)
  then show ?case using Cons.IH Cons.prems(2) by metis
qed simp

lemma closed_notify_heap: "notify E ev s = Inr t \<Longrightarrow> c_state s \<noteq> CONNECTED \<Longrightarrow> heap t = heap s \<and> c_state t = c_state s"
  using closed_ops_heap [of E "user E ev s" "s\<lparr>trace := trace s @ [ev]\<rparr>" t] by (simp add: notify_def)

lemma HandleClose_channel:
  assumes "conn_inv E s" and "heap s (c_channel s) = Some c" and "TCPConnection_HandleClose E s = Inr t"
  shows "\<exists>d. heap t (c_channel s) = Some d \<and> ch_revents d = ch_revents c \<and> ch_has_write d = ch_has_write c"
proof -
  let ?s = "s\<lparr>c_state := DISCONNECTING\<rparr>"
  have inv: "ep_inv ?s" by (rule ep_inv_ext [of s]) (use assms(1) in \<open>simp_all add: conn_inv_def\<close>)
  have r: "ready_channel (cpenv E) (c_channel s) ?s"
    using assms(1) ready_channel_ext [of ?s s] by (auto simp: conn_inv_def chan_inv_def)
  have c': "heap ?s (c_channel s) = Some c" using assms(2) by simp
  obtain u where u: "set_events (cpenv E) (\<lambda>_. kNoneEvent) (c_channel s) ?s = Inr u" "owners_part u = owners_part ?s"
      "heap u = (heap ?s)(c_channel s \<mapsto> c\<lparr>ch_events := kNoneEvent, ch_status := expected_status kNoneEvent\<rparr>)"
    using registry.change_ok [OF inv r c', of "\<lambda>_. kNoneEvent"] by (auto elim!: succeedsE)
  have st: "c_state u \<noteq> CONNECTED" using owners_fields(1) [OF u(2)] by simp
  have "rbind (if has_disconnection_cb u then notify E EvDisconnected u else Inr u) (notify E EvRemove) = Inr t"
    using assms(3) conn_inv_thread [OF assms(1)] u(1) by (simp add: TCPConnection_HandleClose_def DisableAll_def)
  then obtain v where v: "(if has_disconnection_cb u then notify E EvDisconnected u else Inr u) = Inr v" "notify E EvRemove v = Inr t"
    by (auto simp: rbind_Inr_conv)
  have "heap v = heap u \<and> c_state v = c_state u"
    using v(1) closed_notify_heap [OF _ st] by (auto split: if_splits)
  then have "heap t = heap u" using closed_notify_heap [OF v(2)] st by simp
  then show ?thesis using u(3) by simp
qed

lemma HandleWrite_closed:
  "conn_inv E s \<Longrightarrow> c_state s \<noteq> CONNECTED \<Longrightarrow> \<not> ndebug (cpenv E) \<Longrightarrow> TCPConnection_HandleWrite E s = Inl AssertionFailed"
  using conn_inv_thread [of E s] by (auto simp: TCPConnection_HandleWrite_def dassert_def)

lemma connected_handles: "c_state s = CONNECTED \<Longrightarrow> may_handle E s"
  by (simp add: may_handle_def)

text \<open>Rounds of the loop in which the kernel reports the socket as writable.\<close>

fun write_rounds :: "conn_env \<Rightarrow> nat \<Rightarrow> conn \<Rightarrow> conn outcome" where
  "write_rounds E 0 s = Inr s"
| "write_rounds E (Suc n) s =
     (if contents (c_output s) = [] then Inr s else rbind (TCPConnection_HandleWrite E s) (write_rounds E n))"

lemma write_rounds_frame:
  assumes "conn_inv E s" and "send_ok E" and "c_state s = CONNECTED"
  shows "succeeds (write_rounds E n s) (\<lambda>t. conn_inv E t \<and> conn_frame s t \<and> accepted t = accepted s)"
  using assms(1,3)
proof (induction n arbitrary: s)
  case (Suc n)
  have "succeeds (rbind (TCPConnection_HandleWrite E s) (write_rounds E n))
      (\<lambda>t. conn_inv E t \<and> conn_frame s t \<and> accepted t = accepted s)"
    unfolding succeeds_rbind
  proof (rule succeeds_mono [OF HandleWrite_conn_ok [OF Suc.prems(1) assms(2) connected_handles [OF Suc.prems(2)]]])
    fix t assume t: "conn_inv E t \<and> conn_frame s t \<and> accepted t = accepted s \<and>
      (\<forall>n. k_send E (sends s) (length (contents (c_output s))) = Inr n \<longrightarrow>
         sent t = sent s @ take n (contents (c_output s)) \<and> contents (c_output t) = drop n (contents (c_output s)))"
    then have i: "conn_inv E t" "c_state t = CONNECTED" using Suc.prems(2) by (simp_all add: conn_frame_def)
    show "succeeds (write_rounds E n t) (\<lambda>t. conn_inv E t \<and> conn_frame s t \<and> accepted t = accepted s)"
      by (rule succeeds_mono [OF Suc.IH [OF i]]) (use t in \<open>auto intro: conn_frame_trans\<close>)
  qed
  then show ?case using Suc.prems by simp
qed simp

text \<open>A kernel that takes at least one byte of what it is offered.\<close>

definition kernel_progress :: "conn_env \<Rightarrow> bool" where
  "kernel_progress E \<longleftrightarrow> (\<forall>i n. 0 < n \<longrightarrow> (\<exists>m. k_send E i n = Inr m \<and> 0 < m))"

lemma write_rounds_flush:
  assumes "conn_inv E s" and "send_ok E" and "kernel_progress E" and "c_state s = CONNECTED"
    and "length (contents (c_output s)) \<le> n"
  shows "succeeds (write_rounds E n s) (\<lambda>t. contents (c_output t) = [])"
  using assms(1,4,5)
proof (induction n arbitrary: s)
  case (Suc n)
  show ?case
  proof (cases "contents (c_output s) = []")
    case False
    then obtain m where m: "k_send E (sends s) (length (contents (c_output s))) = Inr m" "0 < m"
      using assms(3) unfolding kernel_progress_def by (meson length_greater_0_conv)
    have "succeeds (TCPConnection_HandleWrite E s) (\<lambda>u. succeeds (write_rounds E n u) (\<lambda>t. contents (c_output t) = []))"
      by (rule succeeds_mono [OF HandleWrite_conn_ok [OF Suc.prems(1) assms(2) connected_handles [OF Suc.prems(2)]]])
        (use m Suc.prems in \<open>auto intro!: Suc.IH simp: conn_frame_def\<close>)
    then show ?thesis using False by simp
  qed simp
qed simp

section \<open>Properties\<close>

text \<open>A registered channel is in the kernel's interest list, so events can be reported for it.\<close>

lemma registered_polled:
  assumes "ep_inv s" and "heap s p = Some c" and "ch_status c = kAdded"
  shows "interest s (ch_fd c) = Some (ch_events c, p)"
proof -
  have ok: "channel_ok s p c" using ep_inv_channel [OF assms(1,2)] .
  then have "slot_ok s (nat (ch_fd c)) p" using assms(1,3) by (auto simp: ep_inv_def channel_ok_def status_defs)
  then show ?thesis using assms(2,3) ok
    by (auto simp: slot_ok_def channel_ok_def expected_interest_def expected_status_def status_defs split: if_splits)
qed

text \<open>The sample connection with a reported event, its first handler about to be called.\<close>

lemma sample_polled:
  obtains s c where "ConnectionEstablished sample_conn_env sample_conn = Inr s" "c_state s = CONNECTED"
    "heap s (c_channel s) = Some c" "ch_has_read c" "ch_has_write c"
    "conn_reach sample_conn_env (s\<lparr>due := expected_calls (c\<lparr>ch_revents := reported\<rparr>)\<rparr>)"
proof -
  obtain s c where s: "ConnectionEstablished sample_conn_env sample_conn = Inr s" "conn_inv sample_conn_env s" "c_state s = CONNECTED"
      "heap s (c_channel s) = Some c" "ch_has_read c" "ch_has_write c" "ch_status c = kAdded" "due s = []"
    by (rule sample_connected_channel)
  have "conn_step sample_conn_env sample_conn (Inr s)"
    using conn_step.establish [OF sample_conn_inv(2), of sample_conn_env] s(1) by simp
  then have "conn_reach sample_conn_env s" by (rule conn_reach.step [OF sample_conn_reach])
  moreover have "interest s (ch_fd c) = Some (ch_events c, c_channel s)"
    by (rule registered_polled) (use s in \<open>simp_all add: conn_inv_def\<close>)
  ultimately have "conn_reach sample_conn_env (s\<lparr>due := expected_calls (c\<lparr>ch_revents := reported\<rparr>)\<rparr>)"
    using conn_step.poll [OF s(8,4)] by (blast intro: conn_reach.step)
  then show ?thesis using that s by blast
qed



text \<open>
  C5: The output is a FIFO byte stream without loss or duplication: in every reachable state the
  bytes that the kernel took, followed by the bytes in the output buffer, are the data that was
  accepted; and while the connection is up, write events are enabled exactly when output is pending.
\<close>

theorem tcp_stream_fifo:
  assumes "send_ok E" and "conn_reach E s"
  shows "sent s @ contents (c_output s) = accepted s \<and>
    (c_state s = CONNECTED \<longrightarrow>
       (\<exists>c. heap s (c_channel s) = Some c \<and> (IsWriting c \<longleftrightarrow> contents (c_output s) \<noteq> [])))"
proof (intro conjI impI)
  have inv: "conn_inv E s" by (rule conn_reach_inv [OF assms(2,1)])
  then show "sent s @ contents (c_output s) = accepted s" by (simp add: conn_inv_def)
  assume "c_state s = CONNECTED"
  then show "\<exists>c. heap s (c_channel s) = Some c \<and> (IsWriting c \<longleftrightarrow> contents (c_output s) \<noteq> [])"
    using conn_inv_chan [OF inv] IsWriting_chan_events by (metis chan_inv_def chan_state_ok_simps(2))
qed

theorem tcp_stream_fifo_witness:
  "\<exists>s c. ConnectionEstablished sample_conn_env sample_conn = Inr s \<and> heap s (c_channel s) = Some c \<and>
     (IsWriting c \<longleftrightarrow> contents (c_output s) \<noteq> [])"
proof -
  obtain s where s: "ConnectionEstablished sample_conn_env sample_conn = Inr s" "conn_reach sample_conn_env s"
      "c_state s = CONNECTED"
    by (rule sample_connected)
  then show ?thesis using tcp_stream_fifo [OF sample_conn_env_ok(1) s(2)] by blast
qed

text \<open>
  C37: What \<^verbatim>\<open>Send\<close> promises on the loop's thread. On a connection that is up the data is accepted
  as a whole, behind everything accepted before, with one exception: when nothing is pending
  and the direct \<^verbatim>\<open>send\<close> fails, with whatever error (\<^verbatim>\<open>EAGAIN\<close> included), the data is dropped and
  the connection stays up. On a connection that is not up \<^verbatim>\<open>Send\<close> does nothing.
\<close>

theorem Send_accepts_or_drops:
  assumes "send_ok E" and "conn_reach E s"
  shows "succeeds (Send E dat s) (\<lambda>t. c_state t = c_state s \<and>
    accepted t = accepted s @
      (if c_state s = CONNECTED \<and>
          (contents (c_output s) \<noteq> [] \<or> (\<exists>n. k_send E (sends s) (length dat) = Inr n)) then dat else []))"
proof -
  have inv: "conn_inv E s" by (rule conn_reach_inv [OF assms(2,1)])
  then have t: "IsInLoopThread s" by (simp add: conn_inv_def ep_inv_def)
  show ?thesis using t succeeds_mono [OF Send_impl_ok [OF inv assms(1), of dat]]
    by (simp add: Send_def takes_def conn_frame_def)
qed

theorem Send_accepts_or_drops_witness:
  "\<exists>s. ConnectionEstablished sample_conn_env sample_conn = Inr s \<and>
     succeeds (Send sample_conn_env [1, 2, 3] s) (\<lambda>t. accepted t = accepted s @ [1, 2, 3])"
proof -
  obtain s where s: "ConnectionEstablished sample_conn_env sample_conn = Inr s" "conn_reach sample_conn_env s"
      "c_state s = CONNECTED"
    by (rule sample_connected)
  have "succeeds (Send sample_conn_env [1, 2, 3] s) (\<lambda>t. accepted t = accepted s @ [1, 2, 3])"
    by (rule succeeds_mono [OF Send_accepts_or_drops [OF sample_conn_env_ok(1) s(2)]])
      (simp add: s(3) sample_conn_env_def)
  then show ?thesis using s(1) by blast
qed



text \<open>
  C11: Pending output is written. If the kernel takes at least one byte of each offer, then as many
  writable events as there are pending bytes are enough: the output buffer is empty and
  everything accepted has been handed to the kernel.
\<close>

theorem tcp_output_flushes:
  assumes "send_ok E" and "kernel_progress E" and "conn_reach E s" and "c_state s = CONNECTED"
  shows "succeeds (write_rounds E (length (contents (c_output s))) s)
    (\<lambda>t. c_state t = CONNECTED \<and> contents (c_output t) = [] \<and> sent t = accepted s)"
proof -
  let ?n = "length (contents (c_output s))"
  have inv: "conn_inv E s" by (rule conn_reach_inv [OF assms(3,1)])
  have "succeeds (write_rounds E ?n s) (\<lambda>t. (conn_inv E t \<and> conn_frame s t \<and> accepted t = accepted s) \<and> contents (c_output t) = [])"
    by (rule succeeds_conj [OF write_rounds_frame [OF inv assms(1,4)] write_rounds_flush [OF inv assms(1,2,4) order_refl]])
  then show ?thesis by (rule succeeds_mono) (use assms(4) in \<open>auto simp: conn_inv_def conn_frame_def\<close>)
qed

theorem tcp_output_flushes_witness:
  "\<exists>s. conn_reach sample_conn_env s \<and> contents (c_output s) = [3] \<and>
     succeeds (write_rounds sample_conn_env 1 s) (\<lambda>t. contents (c_output t) = [] \<and> sent t = accepted s)"
proof -
  obtain s where s: "ConnectionEstablished sample_conn_env sample_conn = Inr s" "conn_reach sample_conn_env s"
      "c_state s = CONNECTED" "contents (c_output s) = []"
    by (rule sample_connected_idle)
  have inv: "conn_inv sample_conn_env s" by (rule conn_reach_inv [OF s(2) sample_conn_env_ok(1)])
  obtain t where t: "Send sample_conn_env [1, 2, 3] s = Inr t" "c_state t = CONNECTED" "contents (c_output t) = [3]"
    by (rule sample_send [OF inv s(3,4)])
  have "conn_step sample_conn_env s (Inr t)"
    using conn_step.own_call [of sample_conn_env s "OpSend [1, 2, 3]"] t(1) by simp
  then have r: "conn_reach sample_conn_env t" by (rule conn_reach.step [OF s(2)])
  have k: "kernel_progress sample_conn_env" by (simp add: kernel_progress_def sample_conn_env_def)
  have "length (contents (c_output t)) = 1" unfolding t(3) by simp
  moreover have "succeeds (write_rounds sample_conn_env (length (contents (c_output t))) t)
      (\<lambda>u. contents (c_output u) = [] \<and> sent u = accepted t)"
    by (rule succeeds_mono [OF tcp_output_flushes [OF sample_conn_env_ok(1) k r t(2)]]) blast
  ultimately have "succeeds (write_rounds sample_conn_env 1 t) (\<lambda>u. contents (c_output u) = [] \<and> sent u = accepted t)"
    by (simp only:)
  then show ?thesis using r t(3) by blast
qed

text \<open>
  When one event reports a channel as readable and writable and the read finds the end of
  the stream, \<^verbatim>\<open>HandleRead\<close> closes the connection and the channel then still calls
  \<^verbatim>\<open>HandleWrite\<close>, whose assertion on the state fails in a debug build.
\<close>

theorem read_close_then_write_fails:
  assumes "conn_inv E s" and "send_ok E" and "c_state s = CONNECTED" and "\<not> ndebug (cpenv E)"
    and "heap s (c_channel s) = Some c" and "ch_has_read c" and "ch_has_write c"
    and "ch_revents c = EPOLLIN OR EPOLLOUT"
  shows "HandleEvent_impl (conn_call E (Inr [])) (c_channel s) s = Inl AssertionFailed"
proof -
  let ?c = "c\<lparr>ch_handling := True\<rparr>"
  let ?s = "s\<lparr>heap := (heap s)(c_channel s \<mapsto> ?c)\<rparr>"
  have ev: "\<not> has_event (EPOLLIN OR EPOLLOUT) (EPOLLHUP OR EPOLLRDHUP)" "\<not> has_event (EPOLLIN OR EPOLLOUT) EPOLLERR"
      "has_event (EPOLLIN OR EPOLLOUT) (EPOLLIN OR EPOLLPRI)" "has_event (EPOLLIN OR EPOLLOUT) EPOLLOUT"
    by (simp_all add: has_event_def epoll_bits)
  have inv: "conn_inv E ?s" by (rule conn_inv_core_upd [OF assms(1,5)]) (simp add: core_def)
  have b: "buffer_inv (c_input s)" using inv by (simp add: conn_inv_def)
  obtain b' where b': "ReadFd (c_input s) (Inr []) = Inr (0, None, b')" "buffer_inv b'"
    using ReadFd_data [OF b, of "[]"] by (auto elim!: succeedsE simp: to_int32_def)
  let ?s1 = "?s\<lparr>c_input := b'\<rparr>"
  have i1: "conn_inv E ?s1" by (rule input_ok [OF inv b'(2)])
  obtain t where t: "TCPConnection_HandleClose E ?s1 = Inr t" "conn_inv E t" "c_state t = DISCONNECTING"
    using HandleClose_ok [OF i1 assms(2)] by (auto elim!: succeedsE)
  have c1: "heap ?s1 (c_channel ?s1) = Some ?c" by simp
  obtain d where d: "heap t (c_channel s) = Some d" "ch_revents d = ch_revents c" "ch_has_write d"
    using HandleClose_channel [OF i1 c1 t(1)] assms(7) by auto
  have "TCPConnection_HandleRead E (Inr []) ?s = Inr t"
    using conn_inv_thread [OF inv] assms(3) b'(1) t(1) by (simp add: TCPConnection_HandleRead_def)
  then have read: "fire (conn_call E (Inr [])) ReadCb (EPOLLIN OR EPOLLPRI) (c_channel s) ?s = Inr t"
    using ev assms(6,8) by (simp add: fire_def conn_call_def has_cb_def)
  have "TCPConnection_HandleWrite E t = Inl AssertionFailed" using HandleWrite_closed [OF t(2)] t(3) assms(4) by simp
  then have "fire (conn_call E (Inr [])) WriteCb EPOLLOUT (c_channel s) t = Inl AssertionFailed"
    using d ev(4) assms(8) by (simp add: fire_def conn_call_def has_cb_def)
  then show ?thesis using assms(5,8) ev read by (simp add: HandleEvent_impl_def)
qed

theorem read_close_then_write_fails_witness:
  "\<exists>s. c_state s = CONNECTED \<and> conn_inv sample_conn_env s \<and>
     HandleEvent_impl (conn_call sample_conn_env (Inr [])) (c_channel s) s = Inl AssertionFailed"
proof -
  obtain s c where s: "ConnectionEstablished sample_conn_env sample_conn = Inr s" "conn_inv sample_conn_env s"
      "c_state s = CONNECTED" "heap s (c_channel s) = Some c" "ch_has_read c" "ch_has_write c"
    by (rule sample_connected_channel)
  let ?c = "c\<lparr>ch_revents := EPOLLIN OR EPOLLOUT\<rparr>"
  let ?s = "s\<lparr>heap := (heap s)(c_channel s \<mapsto> ?c)\<rparr>"
  have "conn_inv sample_conn_env ?s" by (rule conn_inv_core_upd [OF s(2,4)]) (simp add: core_def)
  moreover from this have "HandleEvent_impl (conn_call sample_conn_env (Inr [])) (c_channel ?s) ?s = Inl AssertionFailed"
    by (rule read_close_then_write_fails [where c = ?c]) (use s sample_conn_env_ok in \<open>simp_all add: linux_env_def\<close>)
  ultimately show ?thesis using s(3) by (intro exI [of _ ?s]) simp
qed

text \<open>
  A request to shut down the sending side is lost when output is pending at the time the loop
  runs it: nothing happens then, and writing the pending output out later does not shut the
  socket down either.
\<close>

theorem shutdown_while_writing_is_lost:
  assumes "send_ok E" and "conn_reach E s" and "c_state s = CONNECTED" and "contents (c_output s) \<noteq> []"
  shows "ShutdownWriteInLoop E s = Inr s \<and> succeeds (write_rounds E n s) (\<lambda>t. shut_wr t = shut_wr s)"
proof -
  have inv: "conn_inv E s" by (rule conn_reach_inv [OF assms(2,1)])
  obtain c where c: "conn_channel s = Inr c" "chan_inv E s c" using conn_inv_chan [OF inv] by blast
  then have "IsWriting c" using IsWriting_chan_events [of c "contents (c_output s)"] assms(3,4) by (simp add: chan_inv_def)
  then have "ShutdownWriteInLoop E s = Inr s" using c(1) conn_inv_thread [OF inv] by (simp add: ShutdownWriteInLoop_def)
  then show ?thesis using succeeds_mono [OF write_rounds_frame [OF inv assms(1,3), of n]] by (simp add: conn_frame_def)
qed

theorem shutdown_while_writing_is_lost_witness:
  "\<exists>s t. ConnectionEstablished sample_conn_env sample_conn = Inr s \<and> Send sample_conn_env [1, 2, 3] s = Inr t \<and>
     ShutdownWriteInLoop sample_conn_env t = Inr t"
proof -
  obtain s where s: "ConnectionEstablished sample_conn_env sample_conn = Inr s" "conn_reach sample_conn_env s"
      "c_state s = CONNECTED" "contents (c_output s) = []"
    by (rule sample_connected_idle)
  have inv: "conn_inv sample_conn_env s" by (rule conn_reach_inv [OF s(2) sample_conn_env_ok(1)])
  obtain t where t: "Send sample_conn_env [1, 2, 3] s = Inr t" "c_state t = CONNECTED" "contents (c_output t) = [3]"
    by (rule sample_send [OF inv s(3,4)])
  have "conn_step sample_conn_env s (Inr t)"
    using conn_step.own_call [of sample_conn_env s "OpSend [1, 2, 3]"] t(1) by simp
  then have "conn_reach sample_conn_env t" by (rule conn_reach.step [OF s(2)])
  from shutdown_while_writing_is_lost [OF sample_conn_env_ok(1) this t(2)] t s(1) show ?thesis by auto
qed

end
