(* ===== verification/InetAddress.thy ===== *)
theory InetAddress
  imports Byte_Order
begin

unbundle bit_operations_syntax

text \<open>
  Socket addresses (\<^verbatim>\<open>src/inet_address.h\<close>, \<^verbatim>\<open>src/inet_address.cc\<close>). An address is the memory of a
  \<^verbatim>\<open>sockaddr_storage\<close>, 128 bytes in the layout of Linux: the family in host byte order at offset
  0, the port in network byte order at offset 2, an IPv4 address at offset 4 and an IPv6 address
  at offset 8 (behind \<^verbatim>\<open>sin6_flowinfo\<close>). The functions of the C library that translate between
  addresses, names and text are parameters (record \<open>inet_env\<close>).
\<close>

section \<open>The class\<close>

type_synonym inet_address = "byte list"

definition AF_INET :: "16 word" where "AF_INET = 2"
definition AF_INET6 :: "16 word" where "AF_INET6 = 10"

definition INADDR_ANY :: "32 word" where "INADDR_ANY = 0"
definition INADDR_LOOPBACK :: "32 word" where "INADDR_LOOPBACK = 0x7f000001"
definition in6addr_any :: "byte list" where "in6addr_any = replicate 16 0"
definition in6addr_loopback :: "byte list" where "in6addr_loopback = replicate 15 0 @ [1]"

text \<open>
  \<open>pton af text\<close>: the value that \<^verbatim>\<open>inet_pton\<close> returns (1 for success, 0 for a text that is not an
  address, -1 for an unknown family) and the bytes it writes when it returns 1; \<open>ntop\<close>:
  \<^verbatim>\<open>inet_ntop\<close>; \<open>hostname\<close>: \<^verbatim>\<open>gethostname\<close>, \<open>None\<close> when it fails; \<open>addrinfo\<close>: \<^verbatim>\<open>getaddrinfo\<close>, a list of
  families and socket addresses.
\<close>

record inet_env =
  pton :: "16 word \<Rightarrow> string \<Rightarrow> int \<times> byte list"
  ntop :: "16 word \<Rightarrow> byte list \<Rightarrow> string"
  hostname :: "string option"
  addrinfo :: "string \<Rightarrow> (16 word \<times> byte list) list option"

definition zero_address :: inet_address where
  "zero_address = replicate 128 0"

definition INVALID_ADDR :: inet_address where
  "INVALID_ADDR = zero_address"

definition set_family :: "16 word \<Rightarrow> inet_address \<Rightarrow> inet_address" where
  "set_family fam a = overwrite 0 (bytes_le 2 fam) a"

definition set_port :: "16 word \<Rightarrow> inet_address \<Rightarrow> inet_address" where
  "set_port p a = overwrite 2 (bytes_le 2 (htobe 2 p)) a"

definition set_addr4 :: "byte list \<Rightarrow> inet_address \<Rightarrow> inet_address" where
  "set_addr4 ip a = overwrite 4 ip a"

definition set_addr6 :: "byte list \<Rightarrow> inet_address \<Rightarrow> inet_address" where
  "set_addr6 ip a = overwrite 8 ip a"

definition ss_family :: "inet_address \<Rightarrow> 16 word" where
  "ss_family a = word_le (take 2 a)"

definition InetAddress_default :: inet_address where
  "InetAddress_default = zero_address"

definition InetAddress_port :: "16 word \<Rightarrow> bool \<Rightarrow> bool \<Rightarrow> inet_address" where
  "InetAddress_port p is_ipv4 only_loopback =
     (if is_ipv4 then
        let ip = (if only_loopback then INADDR_LOOPBACK else INADDR_ANY)
        in set_addr4 (bytes_le 4 (htobe 4 ip)) (set_port p (set_family AF_INET zero_address))
      else
        let ip = (if only_loopback then in6addr_loopback else in6addr_any)
        in set_addr6 ip (set_port p (set_family AF_INET6 zero_address)))"

definition InetAddress_raw4 :: "byte list \<Rightarrow> 16 word \<Rightarrow> inet_address" where
  "InetAddress_raw4 raw_ip p = set_addr4 raw_ip (set_port p (set_family AF_INET zero_address))"

definition InetAddress_raw6 :: "byte list \<Rightarrow> 16 word \<Rightarrow> inet_address" where
  "InetAddress_raw6 raw_ip p = set_addr6 raw_ip (set_port p (set_family AF_INET6 zero_address))"

definition InetAddress_text :: "inet_env \<Rightarrow> string \<Rightarrow> 16 word \<Rightarrow> inet_address" where
  "InetAddress_text E ip p =
     (if CHR '':'' \<notin> set ip then
        let addr = set_port p (set_family AF_INET zero_address);
            (err, bs) = pton E AF_INET ip;
            addr1 = (if err = 1 then set_addr4 bs addr else addr)
        in if 0 > err then INVALID_ADDR else addr1
      else
        let addr = set_port p (set_family AF_INET6 zero_address);
            (err, bs) = pton E AF_INET6 ip;
            addr1 = (if err = 1 then set_addr6 bs addr else addr)
        in if 0 > err then INVALID_ADDR else addr1)"

definition IsV4 :: "inet_address \<Rightarrow> bool" where
  "IsV4 a \<longleftrightarrow> AF_INET = ss_family a"

definition Ip :: "inet_env \<Rightarrow> inet_address \<Rightarrow> string" where
  "Ip E a =
     (if AF_INET = ss_family a then ntop E AF_INET (take 4 (drop 4 a))
      else ntop E AF_INET6 (take 16 (drop 8 a)))"

text \<open>\<^verbatim>\<open>%u\<close>, and \<^verbatim>\<open>snprintf\<close> into a buffer of \<open>n\<close> characters.\<close>

fun print_u :: "nat \<Rightarrow> string" where
  "print_u n = (if n < 10 then [char_of (48 + n)] else print_u (n div 10) @ [char_of (48 + n mod 10)])"

declare print_u.simps [simp del]

definition snprintf_u :: "nat \<Rightarrow> nat \<Rightarrow> string" where
  "snprintf_u n v = take (n - 1) (print_u v)"

definition sin_port :: "inet_address \<Rightarrow> 16 word" where
  "sin_port a = word_le (take 2 (drop 2 a))"

definition sin6_port :: "inet_address \<Rightarrow> 16 word" where
  "sin6_port a = word_le (take 2 (drop 2 a))"

definition Port :: "inet_address \<Rightarrow> string" where
  "Port a =
     (if AF_INET = ss_family a then snprintf_u 8 (unat (betoh 2 (sin_port a)))
      else snprintf_u 8 (unat (betoh 2 (sin6_port a))))"

definition IpPort :: "inet_env \<Rightarrow> inet_address \<Rightarrow> string" where
  "IpPort E a = Ip E a @ '':'' @ Port a"

text \<open>\<^verbatim>\<open>short port()\<close>: read it with \<open>sint\<close>.\<close>

definition port :: "inet_address \<Rightarrow> 16 word" where
  "port a = betoh 2 (sin_port a)"

text \<open>\<^verbatim>\<open>memcmp\<close> over \<^verbatim>\<open>sizeof(sockaddr_in)\<close>, which is 16.\<close>

definition operator_eq :: "inet_address \<Rightarrow> inet_address \<Rightarrow> bool" where
  "operator_eq l r \<longleftrightarrow> take 16 l = take 16 r"

definition operator_ne :: "inet_address \<Rightarrow> inet_address \<Rightarrow> bool" where
  "operator_ne l r \<longleftrightarrow> \<not> operator_eq l r"

text \<open>The loop of \<^verbatim>\<open>GetList\<close> tests the family of the first result, \<open>info\<close>, for every result.\<close>

fun GetList_loop :: "16 word \<Rightarrow> 16 word \<Rightarrow> (16 word \<times> byte list) list \<Rightarrow> inet_address list" where
  "GetList_loop info_family p [] = []"
| "GetList_loop info_family p ((fam, ai_addr) # rps) =
     (if info_family = AF_INET then InetAddress_raw4 (take 4 (drop 4 ai_addr)) p
      else InetAddress_raw6 (take 16 (drop 8 ai_addr)) p) # GetList_loop info_family p rps"

definition GetList :: "inet_env \<Rightarrow> string \<Rightarrow> 16 word \<Rightarrow> inet_address list" where
  "GetList E domain_name p =
     (let lookup = (\<lambda>name. case addrinfo E name of
            None \<Rightarrow> []
          | Some [] \<Rightarrow> []
          | Some (info # rps) \<Rightarrow> GetList_loop (fst info) p (info # rps))
      in if domain_name = [] then (case hostname E of None \<Rightarrow> [] | Some h \<Rightarrow> lookup h)
         else lookup domain_name)"

section \<open>Layout\<close>

text \<open>The memory that each constructor leaves, field by field.\<close>

lemma overwrite_zeros:
  "pos + length ys \<le> n \<Longrightarrow> overwrite pos ys (replicate n z) = replicate pos z @ ys @ replicate (n - pos - length ys) z"
  by (simp add: overwrite_def min_def)

definition header :: "16 word \<Rightarrow> 16 word \<Rightarrow> byte list" where
  "header fam p = bytes_le 2 fam @ be_bytes 2 p"

lemma length_header [simp]: "length (header fam p) = 4"
  by (simp add: header_def)

lemma header_layout: "set_port p (set_family fam zero_address) = header fam p @ replicate 124 0"
proof -
  have "bytes_le 2 (htobe 2 p) = be_bytes 2 p" by (simp add: bytes_le_htobe be_bytes_def)
  moreover have "set_family fam zero_address = bytes_le 2 fam @ replicate 126 0"
    by (simp add: set_family_def zero_address_def overwrite_zeros)
  moreover have "drop 2 (replicate 126 (0 :: byte)) = replicate 124 0" by simp
  ultimately show ?thesis by (simp add: set_port_def overwrite_def header_def)
qed

lemma raw4_layout: "length ip = 4 \<Longrightarrow> InetAddress_raw4 ip p = header AF_INET p @ ip @ replicate 120 0"
  by (simp add: InetAddress_raw4_def header_layout set_addr4_def overwrite_def)

lemma raw6_layout:
  "length ip = 16 \<Longrightarrow> InetAddress_raw6 ip p = header AF_INET6 p @ replicate 4 0 @ ip @ replicate 104 0"
  by (simp add: InetAddress_raw6_def header_layout set_addr6_def overwrite_def)

lemma InetAddress_port_raw:
  "InetAddress_port p True lo = InetAddress_raw4 (be_bytes 4 (if lo then INADDR_LOOPBACK else INADDR_ANY)) p"
  "InetAddress_port p False lo = InetAddress_raw6 (if lo then in6addr_loopback else in6addr_any) p"
  by (simp_all add: InetAddress_port_def InetAddress_raw4_def InetAddress_raw6_def be_bytes_def bytes_le_htobe)

lemma header_fields:
  "ss_family (header fam p @ xs) = fam" "sin_port (header fam p @ xs) = word_le (be_bytes 2 p)"
  "port (header fam p @ xs) = p" "sin6_port (header fam p @ xs) = word_le (be_bytes 2 p)"
proof -
  have t: "take 2 (header fam p @ xs) = bytes_le 2 fam" "take 2 (drop 2 (header fam p @ xs)) = be_bytes 2 p"
    by (simp_all add: header_def)
  show "ss_family (header fam p @ xs) = fam" unfolding ss_family_def t by (simp add: word_le_bytes_le)
  show "sin_port (header fam p @ xs) = word_le (be_bytes 2 p)" "sin6_port (header fam p @ xs) = word_le (be_bytes 2 p)"
    unfolding sin_port_def sin6_port_def t by simp_all
  then show "port (header fam p @ xs) = p" by (simp add: port_def betoh_be_bytes)
qed

lemma header_eq [simp]: "header f p = header g q \<longleftrightarrow> f = g \<and> p = q"
  using header_fields(1,3) [of f p "[]"] header_fields(1,3) [of g q "[]"] by auto

lemma families_differ [simp]: "AF_INET \<noteq> AF_INET6" "AF_INET6 \<noteq> AF_INET"
  by (simp_all add: AF_INET_def AF_INET6_def)

section \<open>Decimal numbers\<close>

fun read_u :: "nat \<Rightarrow> string \<Rightarrow> nat" where
  "read_u acc [] = acc"
| "read_u acc (c # cs) = read_u (10 * acc + (of_char c - 48)) cs"

lemma read_u_append: "read_u acc (xs @ ys) = read_u (read_u acc xs) ys"
  by (induction xs arbitrary: acc) simp_all

lemma digit_value: "d < 10 \<Longrightarrow> of_char (char_of (48 + d) :: char) - 48 = (d :: nat)"
  by simp

lemma read_print_u: "read_u 0 (print_u n) = n"
proof (induction n rule: print_u.induct)
  case (1 n)
  show ?case
  proof (cases "n < 10")
    case True
    then show ?thesis using digit_value [OF True] by (simp add: print_u.simps [of n])
  next
    case False
    have "n mod 10 < 10" by simp
    from digit_value [OF this] show ?thesis
      using 1 [OF False] False by (simp add: print_u.simps [of n] read_u_append)
  qed
qed

lemma length_print_u: "n < 10 ^ Suc k \<Longrightarrow> length (print_u n) \<le> Suc k"
proof (induction k arbitrary: n)
  case 0
  then show ?case by (simp add: print_u.simps [of n])
next
  case (Suc k)
  then have "n div 10 < 10 ^ Suc k" by (simp add: div_less_iff_less_mult)
  from Suc.IH [OF this] show ?case by (simp add: print_u.simps [of n])
qed

lemma Port_header: "Port (header fam p @ xs) = print_u (unat p)"
proof -
  have "unat p < 2 ^ 16" using unsigned_less [of p] by simp
  then have "length (print_u (unat p)) \<le> Suc 4" by (intro length_print_u) simp
  then show ?thesis by (simp add: Port_def header_fields betoh_be_bytes snprintf_u_def)
qed

section \<open>Properties\<close>

text \<open>
  What goes into an address comes out of it. For an IPv4 and an IPv6 address given as bytes,
  with any port, family, address and port are read back, the text of the port is its
  decimal number, and \<^verbatim>\<open>Ip\<close> hands exactly the given bytes to \<^verbatim>\<open>inet_ntop\<close>.
\<close>

theorem InetAddress_roundtrip:
  assumes "length ip4 = 4" and "length ip6 = 16"
  shows "let a = InetAddress_raw4 ip4 p; b = InetAddress_raw6 ip6 p in
    length a = 128 \<and> IsV4 a \<and> port a = p \<and> read_u 0 (Port a) = unat p \<and> Ip E a = ntop E AF_INET ip4 \<and>
    length b = 128 \<and> \<not> IsV4 b \<and> port b = p \<and> read_u 0 (Port b) = unat p \<and> Ip E b = ntop E AF_INET6 ip6"
  unfolding Let_def raw4_layout [OF assms(1)] raw6_layout [OF assms(2)]
  using assms by (simp add: IsV4_def header_fields Port_header read_print_u Ip_def)

theorem InetAddress_roundtrip_witness:
  "port (InetAddress_raw4 [192, 168, 0, 1] 9527) = 9527 \<and> read_u 0 (Port (InetAddress_raw4 [192, 168, 0, 1] 9527)) = 9527"
  using InetAddress_roundtrip [of "[192, 168, 0, 1]" "replicate 16 0" 9527] by (simp add: Let_def)


text \<open>A C library that knows one address of each family.\<close>

definition sample_inet_env :: inet_env where
  "sample_inet_env = \<lparr>
     pton = (\<lambda>af s. if af = AF_INET \<and> s = ''127.0.0.1'' then (1, [127, 0, 0, 1])
                    else if af = AF_INET6 \<and> s = ''::1'' then (1, in6addr_loopback) else (0, [])),
     ntop = (\<lambda>af bs. if af = AF_INET then ''127.0.0.1'' else ''::1''),
     hostname = None, addrinfo = (\<lambda>name. None)\<rparr>"


text \<open>
  C36: Equality of addresses compares the first 16 bytes. For IPv4 that is equality of address and
  port; for IPv6 it covers the port and the first half of the address only, so that two
  hosts of one network compare equal; addresses of different families never do.
\<close>

theorem operator_eq_exact:
  assumes "length ip4 = 4" and "length jp4 = 4" and "length ip6 = 16" and "length jp6 = 16"
  shows "(operator_eq (InetAddress_raw4 ip4 p) (InetAddress_raw4 jp4 q) \<longleftrightarrow> ip4 = jp4 \<and> p = q) \<and>
    (operator_eq (InetAddress_raw6 ip6 p) (InetAddress_raw6 jp6 q) \<longleftrightarrow> take 8 ip6 = take 8 jp6 \<and> p = q) \<and>
    \<not> operator_eq (InetAddress_raw4 ip4 p) (InetAddress_raw6 ip6 q)"
  unfolding raw4_layout [OF assms(1)] raw4_layout [OF assms(2)] raw6_layout [OF assms(3)] raw6_layout [OF assms(4)]
  using assms by (auto simp: operator_eq_def)

theorem operator_eq_exact_witness:
  "operator_eq (InetAddress_raw6 (replicate 15 0 @ [1]) 80) (InetAddress_raw6 (replicate 15 0 @ [2]) 80)"
  using operator_eq_exact [of "[1, 1, 1, 1]" "[1, 1, 1, 1]" "replicate 15 0 @ [1]" "replicate 15 0 @ [2]" 80 80] by simp

text \<open>
  \<^verbatim>\<open>GetList\<close> returns one address with the given port for each result of the resolver. When all
  results have one family these are the resolver's addresses; otherwise each result is
  read in the layout of the first one's family.
\<close>

theorem GetList_uniform:
  assumes "addrinfo E name = Some rps" and "name \<noteq> []"
  shows "length (GetList E name p) = length rps \<and>
    ((\<forall>r \<in> set rps. fst r = AF_INET) \<longrightarrow>
       GetList E name p = map (\<lambda>r. InetAddress_raw4 (take 4 (drop 4 (snd r))) p) rps) \<and>
    ((\<forall>r \<in> set rps. fst r = AF_INET6) \<longrightarrow>
       GetList E name p = map (\<lambda>r. InetAddress_raw6 (take 16 (drop 8 (snd r))) p) rps)"
proof -
  have loop: "GetList_loop fam p rs = map (\<lambda>r. if fam = AF_INET then InetAddress_raw4 (take 4 (drop 4 (snd r))) p
      else InetAddress_raw6 (take 16 (drop 8 (snd r))) p) rs" for fam rs
    by (induction rs) auto
  have "GetList E name p = (case rps of [] \<Rightarrow> [] | r # _ \<Rightarrow> GetList_loop (fst r) p rps)"
    using assms by (auto simp: GetList_def Let_def split: list.splits)
  then show ?thesis by (cases rps) (auto simp: loop)
qed

theorem GetList_uniform_witness:
  "GetList (sample_inet_env\<lparr>addrinfo := (\<lambda>_. Some [(AF_INET, replicate 4 0 @ [1, 2, 3, 4])])\<rparr>) ''host'' 80
    = [InetAddress_raw4 [1, 2, 3, 4] 80]"
  using GetList_uniform [of "sample_inet_env\<lparr>addrinfo := (\<lambda>_. Some [(AF_INET, replicate 4 0 @ [1, 2, 3, 4])])\<rparr>" "''host''"
      "[(AF_INET, replicate 4 0 @ [1, 2, 3, 4])]" 80]
  by simp

end
