(* ===== verification/EventLoopThread.thy ===== *)
theory EventLoopThread
  imports EventLoop
begin

text \<open>
  A thread that runs an event loop (\<^verbatim>\<open>src/event_loop_thread.h\<close>, \<^verbatim>\<open>src/event_loop_thread.cc\<close>): the
  handshake between the thread that calls \<^verbatim>\<open>StartLoop\<close> and \<^verbatim>\<open>StopLoop\<close> and the new thread that runs
  \<^verbatim>\<open>OnEventLoop\<close>, statement by statement, as a step relation. The loop of the new thread is a
  state of theory \<open>EventLoop\<close>'s interleaved loop and lives on that thread's stack. The start of an
  operating system thread and the condition variable are modelled by the order of the steps:
  \<^verbatim>\<open>StartLoop\<close> goes on when \<^verbatim>\<open>event_loop_\<close> is set, \<^verbatim>\<open>Join\<close> when the thread has ended.
\<close>

section \<open>State\<close>

datatype caller_pc = Stopped | Waiting | Started | Quitting | Joining

datatype worker_pc = NoThread | Constructing | Publishing | InLoop | Finished

text \<open>\<open>lt_object\<close> is the \<^verbatim>\<open>EventLoop\<close> object while it exists; \<open>lt_pointer\<close> is the member \<^verbatim>\<open>event_loop_\<close>.\<close>

record loop_thread =
  lt_pointer :: "addr option"
  lt_running :: bool
  lt_caller :: caller_pc
  lt_worker :: worker_pc
  lt_object :: "(addr \<times> loop_sys) option"
  lt_failure :: "error option"

definition EventLoopThread_ctor :: loop_thread where
  "EventLoopThread_ctor = \<lparr>lt_pointer = None, lt_running = False, lt_caller = Stopped, lt_worker = NoThread,
     lt_object = None, lt_failure = None\<rparr>"

definition EventLoopThread_dtor :: "poller_env \<Rightarrow> loop_thread \<Rightarrow> unit outcome" where
  "EventLoopThread_dtor E t = dassert E (\<not> lt_running t)"

section \<open>The statements of each thread\<close>

definition StartLoop_spawn :: "poller_env \<Rightarrow> loop_thread \<Rightarrow> loop_thread" where
  "StartLoop_spawn E t =
     (case dassert E (\<not> lt_running t) of
        Inl e \<Rightarrow> t\<lparr>lt_failure := Some e\<rparr>
      | Inr _ \<Rightarrow> t\<lparr>lt_caller := Waiting, lt_worker := Constructing\<rparr>)"

text \<open>The wait ends when the pointer is set; the caller's result is the pointer.\<close>

definition StartLoop_return :: "loop_thread \<Rightarrow> loop_thread" where
  "StartLoop_return t = t\<lparr>lt_running := True, lt_caller := Started\<rparr>"

definition OnEventLoop_ctor :: "addr \<Rightarrow> loop_sys \<Rightarrow> loop_thread \<Rightarrow> loop_thread" where
  "OnEventLoop_ctor p s t = t\<lparr>lt_object := Some (p, s), lt_worker := Publishing\<rparr>"

definition OnEventLoop_publish :: "loop_thread \<Rightarrow> loop_thread" where
  "OnEventLoop_publish t = t\<lparr>lt_pointer := map_option fst (lt_object t), lt_worker := InLoop\<rparr>"

text \<open>\<^verbatim>\<open>OnEventLoop\<close> returns after \<^verbatim>\<open>Loop\<close>; the object goes out of scope.\<close>

definition OnEventLoop_return :: "loop_thread \<Rightarrow> loop_thread" where
  "OnEventLoop_return t = t\<lparr>lt_object := None, lt_worker := Finished\<rparr>"

text \<open>The object behind \<^verbatim>\<open>event_loop_\<close>, for a change of it.\<close>

definition on_object :: "(loop_sys \<Rightarrow> loop_sys) \<Rightarrow> loop_thread \<Rightarrow> loop_thread outcome" where
  "on_object f t =
     (case lt_pointer t of
        None \<Rightarrow> Inl NullDereference
      | Some p \<Rightarrow>
          (case lt_object t of
             Some (q, s) \<Rightarrow> if q = p then Inr (t\<lparr>lt_object := Some (q, f s)\<rparr>) else Inl UseAfterFree
           | None \<Rightarrow> Inl UseAfterFree))"

definition or_fail :: "loop_thread \<Rightarrow> loop_thread outcome \<Rightarrow> loop_thread" where
  "or_fail t r = (case r of Inl e \<Rightarrow> t\<lparr>lt_failure := Some e\<rparr> | Inr t' \<Rightarrow> t')"

text \<open>\<^verbatim>\<open>event_loop_->Quit()\<close>: the store to \<^verbatim>\<open>quit_\<close>, then the wakeup.\<close>

definition StopLoop_quit :: "poller_env \<Rightarrow> loop_thread \<Rightarrow> loop_thread" where
  "StopLoop_quit E t =
     or_fail t (rbind (dassert E (lt_running t)) (\<lambda>_.
       rbind (on_object (\<lambda>s. s\<lparr>quit := True, wakers := wakers s + 1\<rparr>) t) (\<lambda>t1.
         Inr (t1\<lparr>lt_caller := Quitting\<rparr>))))"

definition StopLoop_wake :: "loop_thread \<Rightarrow> loop_thread" where
  "StopLoop_wake t =
     or_fail t (rbind (on_object (\<lambda>s. (Wakeup s)\<lparr>wakers := wakers s - 1\<rparr>) t) (\<lambda>t1.
       Inr (t1\<lparr>lt_caller := Joining\<rparr>)))"

definition StopLoop_joined :: "loop_thread \<Rightarrow> loop_thread" where
  "StopLoop_joined t = t\<lparr>lt_running := False, lt_pointer := None, lt_caller := Stopped, lt_worker := NoThread\<rparr>"

text \<open>
  The steps. The loop itself, the tasks it runs and other threads that use it act in
  \<open>looping\<close>; they do not ask the loop to quit (that is what \<^verbatim>\<open>StopLoop\<close> is for), and \<^verbatim>\<open>OnEventLoop\<close> calls
  \<^verbatim>\<open>Loop\<close> once.
\<close>

inductive lt_step :: "poller_env \<Rightarrow> loop_thread \<Rightarrow> loop_thread \<Rightarrow> bool" for E where
  spawn: "lt_failure t = None \<Longrightarrow> lt_caller t = Stopped \<Longrightarrow> lt_step E t (StartLoop_spawn E t)"
| ctor: "lt_failure t = None \<Longrightarrow> lt_worker t = Constructing \<Longrightarrow> sys_start s \<Longrightarrow> \<not> quit s \<Longrightarrow>
    lt_step E t (OnEventLoop_ctor p s t)"
| publish: "lt_failure t = None \<Longrightarrow> lt_worker t = Publishing \<Longrightarrow> lt_step E t (OnEventLoop_publish t)"
| return: "lt_failure t = None \<Longrightarrow> lt_caller t = Waiting \<Longrightarrow> lt_pointer t \<noteq> None \<Longrightarrow> lt_step E t (StartLoop_return t)"
| looping: "lt_failure t = None \<Longrightarrow> lt_worker t = InLoop \<Longrightarrow> lt_object t = Some (p, s) \<Longrightarrow> sys_step s s' \<Longrightarrow>
    (quit s' \<longrightarrow> quit s) \<Longrightarrow> (pc s = Exited \<longrightarrow> pc s' = Exited) \<Longrightarrow> lt_step E t (t\<lparr>lt_object := Some (p, s')\<rparr>)"
| ended: "lt_failure t = None \<Longrightarrow> lt_worker t = InLoop \<Longrightarrow> lt_object t = Some (p, s) \<Longrightarrow> pc s = Exited \<Longrightarrow>
    lt_step E t (OnEventLoop_return t)"
| stop: "lt_failure t = None \<Longrightarrow> lt_caller t = Started \<Longrightarrow> lt_step E t (StopLoop_quit E t)"
| wake: "lt_failure t = None \<Longrightarrow> lt_caller t = Quitting \<Longrightarrow> lt_step E t (StopLoop_wake t)"
| joined: "lt_failure t = None \<Longrightarrow> lt_caller t = Joining \<Longrightarrow> lt_worker t = Finished \<Longrightarrow>
    lt_step E t (StopLoop_joined t)"

inductive lt_steps :: "poller_env \<Rightarrow> loop_thread \<Rightarrow> loop_thread \<Rightarrow> bool" for E where
  none: "lt_steps E t t"
| more: "lt_steps E t u \<Longrightarrow> lt_step E u v \<Longrightarrow> lt_steps E t v"

definition lt_reach :: "poller_env \<Rightarrow> loop_thread \<Rightarrow> bool" where
  "lt_reach E t \<longleftrightarrow> lt_steps E EventLoopThread_ctor t"

lemma lt_steps_trans: "lt_steps E u v \<Longrightarrow> lt_steps E t u \<Longrightarrow> lt_steps E t v"
  by (induction rule: lt_steps.induct) (auto intro: lt_steps.more)

lemma lt_steps_one: "lt_step E t u \<Longrightarrow> lt_steps E t u"
  by (rule lt_steps.more [OF lt_steps.none])

section \<open>Invariant\<close>

text \<open>The combinations of the two program counters, the pointer and the object that occur. A loop
  that nobody has asked to quit does not leave \<^verbatim>\<open>Loop\<close>.\<close>

definition pcs_ok :: "loop_thread \<Rightarrow> bool" where
  "pcs_ok t \<longleftrightarrow>
     (case lt_caller t of
        Stopped \<Rightarrow> lt_worker t = NoThread
      | Waiting \<Rightarrow> lt_worker t \<in> {Constructing, Publishing, InLoop}
      | Started \<Rightarrow> lt_worker t = InLoop
      | Quitting \<Rightarrow> lt_worker t \<in> {InLoop, Finished}
      | Joining \<Rightarrow> lt_worker t \<in> {InLoop, Finished})"

definition object_ok :: "loop_thread \<Rightarrow> bool" where
  "object_ok t \<longleftrightarrow>
     (if lt_worker t \<in> {Publishing, InLoop}
      then \<exists>p s. lt_object t = Some (p, s) \<and> (lt_worker t = InLoop \<longrightarrow> lt_pointer t = Some p) \<and>
        (lt_caller t \<in> {Waiting, Started} \<longrightarrow> \<not> quit s \<and> pc s \<notin> {Leaving, Draining, Exited})
      else lt_object t = None) \<and>
     (lt_worker t \<in> {NoThread, Constructing, Publishing} \<longrightarrow> lt_pointer t = None) \<and>
     (lt_worker t = Finished \<longrightarrow> lt_pointer t \<noteq> None)"

definition lt_inv :: "loop_thread \<Rightarrow> bool" where
  "lt_inv t \<longleftrightarrow> pcs_ok t \<and> object_ok t \<and> (lt_running t \<longleftrightarrow> lt_caller t \<in> {Started, Quitting, Joining}) \<and>
     (lt_failure t \<noteq> None \<longrightarrow> lt_failure t = Some UseAfterFree \<and> lt_caller t = Quitting \<and> lt_worker t = Finished)"

lemma sys_step_stays:
  assumes "sys_step s s'" and "\<not> quit s" and "\<not> quit s'" and "pc s \<notin> {Leaving, Draining, Exited}"
  shows "pc s' \<notin> {Leaving, Draining, Exited}"
  using assms by (cases rule: sys_step.cases) (auto simp: HandleWakeup_def own_post_def QueueInLoop_def QueueInLoop_push_def
      QueueInLoop_wake_def Quit_def Let_def split: if_splits)

lemma pcs_ok_simps:
  "lt_caller t = Stopped \<Longrightarrow> pcs_ok t \<longleftrightarrow> lt_worker t = NoThread"
  "lt_caller t = Waiting \<Longrightarrow> pcs_ok t \<longleftrightarrow> lt_worker t \<in> {Constructing, Publishing, InLoop}"
  "lt_caller t = Started \<Longrightarrow> pcs_ok t \<longleftrightarrow> lt_worker t = InLoop"
  "lt_caller t = Quitting \<Longrightarrow> pcs_ok t \<longleftrightarrow> lt_worker t \<in> {InLoop, Finished}"
  "lt_caller t = Joining \<Longrightarrow> pcs_ok t \<longleftrightarrow> lt_worker t \<in> {InLoop, Finished}"
  by (simp_all add: pcs_ok_def)

lemma pcs_ok_object [simp]: "pcs_ok (t\<lparr>lt_object := x\<rparr>) = pcs_ok t"
  by (cases "lt_caller t") (simp_all add: pcs_ok_simps)

lemma pcs_ok_worker:
  assumes "pcs_ok t"
  shows "lt_worker t \<in> {Constructing, Publishing} \<Longrightarrow> lt_caller t = Waiting"
    and "lt_worker t = NoThread \<Longrightarrow> lt_caller t = Stopped"
    and "lt_worker t = InLoop \<Longrightarrow> lt_caller t \<noteq> Stopped"
  using assms by (cases "lt_caller t"; auto simp: pcs_ok_simps)+

lemma on_object_ok:
  assumes "lt_worker t = InLoop" and "object_ok t"
  obtains p s where "lt_object t = Some (p, s)" "lt_pointer t = Some p"
    "on_object f t = Inr (t\<lparr>lt_object := Some (p, f s)\<rparr>)"
  using assms by (auto simp: object_ok_def on_object_def)

lemma on_object_freed:
  assumes "lt_worker t = Finished" and "object_ok t"
  shows "on_object f t = Inl UseAfterFree"
  using assms by (auto simp: object_ok_def on_object_def)

lemma lt_step_inv: "lt_step E t u \<Longrightarrow> lt_inv t \<Longrightarrow> lt_inv u"
proof (induction rule: lt_step.induct)
  case (spawn t)
  then show ?case by (simp add: lt_inv_def StartLoop_spawn_def pcs_ok_simps object_ok_def)
next
  case (ctor t s p)
  then have "lt_caller t = Waiting" using pcs_ok_worker(1) [of t] by (simp add: lt_inv_def)
  then show ?case using ctor by (simp add: lt_inv_def OnEventLoop_ctor_def pcs_ok_simps object_ok_def sys_start_def)
next
  case (publish t)
  then have "lt_caller t = Waiting" using pcs_ok_worker(1) [of t] by (simp add: lt_inv_def)
  then show ?case using publish by (auto simp: lt_inv_def OnEventLoop_publish_def pcs_ok_simps object_ok_def)
next
  case (return t)
  then have "lt_worker t = InLoop" by (auto simp: lt_inv_def pcs_ok_simps object_ok_def)
  then show ?case using return by (auto simp: lt_inv_def StartLoop_return_def pcs_ok_simps object_ok_def)
next
  case (looping t p s s')
  then show ?case using sys_step_stays [OF looping.hyps(4)]
    by (auto simp: lt_inv_def object_ok_def)
next
  case (ended t p s)
  then have "lt_caller t \<in> {Quitting, Joining}"
    using pcs_ok_worker(3) [of t] by (cases "lt_caller t") (auto simp: lt_inv_def object_ok_def)
  then show ?case using ended by (auto simp: lt_inv_def OnEventLoop_return_def pcs_ok_simps object_ok_def)
next
  case (stop t)
  then have w: "lt_worker t = InLoop" "object_ok t" by (simp_all add: lt_inv_def pcs_ok_simps)
  obtain p s where o: "lt_object t = Some (p, s)" "lt_pointer t = Some p"
    "on_object (\<lambda>s. s\<lparr>quit := True, wakers := wakers s + 1\<rparr>) t
      = Inr (t\<lparr>lt_object := Some (p, s\<lparr>quit := True, wakers := wakers s + 1\<rparr>)\<rparr>)"
    by (rule on_object_ok [OF w])
  show ?case using stop w(1) o by (simp add: lt_inv_def StopLoop_quit_def or_fail_def pcs_ok_simps object_ok_def)
next
  case (wake t)
  then have "object_ok t" "lt_worker t = InLoop \<or> lt_worker t = Finished" by (simp_all add: lt_inv_def pcs_ok_simps)
  then show ?case
  proof (elim disjE)
    assume w: "lt_worker t = InLoop" "object_ok t"
    obtain p s where o: "lt_object t = Some (p, s)" "lt_pointer t = Some p"
      "on_object (\<lambda>s. (Wakeup s)\<lparr>wakers := wakers s - 1\<rparr>) t
        = Inr (t\<lparr>lt_object := Some (p, (Wakeup s)\<lparr>wakers := wakers s - 1\<rparr>)\<rparr>)"
      by (rule on_object_ok [OF w])
    show ?thesis using wake w(1) o by (simp add: lt_inv_def StopLoop_wake_def or_fail_def pcs_ok_simps object_ok_def)
  next
    assume w: "lt_worker t = Finished" "object_ok t"
    show ?thesis using wake w on_object_freed [OF w]
      by (simp add: lt_inv_def StopLoop_wake_def or_fail_def pcs_ok_simps object_ok_def)
  qed
next
  case (joined t)
  then show ?case by (simp add: lt_inv_def StopLoop_joined_def pcs_ok_simps object_ok_def)
qed

lemma lt_reach_inv: "lt_reach E t \<Longrightarrow> lt_inv t"
proof -
  have "lt_steps E t u \<Longrightarrow> lt_inv t \<Longrightarrow> lt_inv u" for t u
    by (induction rule: lt_steps.induct) (auto intro: lt_step_inv)
  moreover have "lt_inv EventLoopThread_ctor"
    by (simp add: lt_inv_def pcs_ok_def object_ok_def EventLoopThread_ctor_def)
  ultimately show "lt_reach E t \<Longrightarrow> lt_inv t" by (simp add: lt_reach_def)
qed

section \<open>Progress of a loop that has been asked to quit\<close>

text \<open>\<open>leads E t p s X\<close>: from \<open>t\<close>, with the loop in state \<open>s\<close>, the loop's own steps can reach \<open>X\<close>.\<close>

definition leads :: "poller_env \<Rightarrow> loop_thread \<Rightarrow> addr \<Rightarrow> loop_sys \<Rightarrow> loop_pc \<Rightarrow> bool" where
  "leads E t p s X \<longleftrightarrow> (\<exists>s'. lt_steps E (t\<lparr>lt_object := Some (p, s)\<rparr>) (t\<lparr>lt_object := Some (p, s')\<rparr>) \<and> quit s' \<and> pc s' = X)"

lemma leads_now: "quit s \<Longrightarrow> pc s = X \<Longrightarrow> leads E t p s X"
  unfolding leads_def by (blast intro: lt_steps.none)

lemma leads_step:
  assumes "lt_failure t = None" and "lt_worker t = InLoop" and "sys_step s s1" and "quit s" and "leads E t p s1 X" and "pc s \<noteq> Exited"
  shows "leads E t p s X"
proof -
  obtain s' where s': "lt_steps E (t\<lparr>lt_object := Some (p, s1)\<rparr>) (t\<lparr>lt_object := Some (p, s')\<rparr>)" "quit s'" "pc s' = X"
    using assms(5) by (auto simp: leads_def)
  have "lt_step E (t\<lparr>lt_object := Some (p, s)\<rparr>) ((t\<lparr>lt_object := Some (p, s)\<rparr>)\<lparr>lt_object := Some (p, s1)\<rparr>)"
    by (rule lt_step.looping [where p = p and s = s]) (use assms in simp_all)
  then have "lt_steps E (t\<lparr>lt_object := Some (p, s)\<rparr>) (t\<lparr>lt_object := Some (p, s1)\<rparr>)" by (intro lt_steps_one) simp
  then show ?thesis using lt_steps_trans [OF s'(1)] s'(2,3) unfolding leads_def by blast
qed

lemma draining_exits:
  assumes live: "lt_failure t = None" "lt_worker t = InLoop"
  shows "quit s \<Longrightarrow> pc s = Draining \<Longrightarrow> leads E t p s Exited"
proof (induction "local_tasks s" arbitrary: s)
  case Nil
  show ?case
    by (rule leads_step [OF live sys_step.leave], rule Nil.prems, rule Nil.hyps [symmetric], rule Nil.prems, rule leads_now)
      (use Nil.prems in simp_all)
next
  case (Cons k ks)
  have "leads E t p (s\<lparr>local_tasks := ks, log_done := log_done s @ [k]\<rparr>) Exited"
    by (rule Cons.hyps) (use Cons.prems in simp_all)
  moreover have "sys_step s (s\<lparr>local_tasks := ks, log_done := log_done s @ [k]\<rparr>)"
    by (rule sys_step.run) (use Cons in simp_all)
  ultimately show ?case by (intro leads_step [OF live _ Cons.prems(1)]) (simp_all add: Cons.prems)
qed

lemma leaving_exits:
  assumes live: "lt_failure t = None" "lt_worker t = InLoop"
  shows "quit s \<Longrightarrow> pc s = Leaving \<Longrightarrow> leads E t p s Exited"
  by (rule leads_step [OF live sys_step.final_swap], assumption, assumption, rule draining_exits [OF live]) simp_all

lemma checking_exits:
  assumes live: "lt_failure t = None" "lt_worker t = InLoop"
  shows "quit s \<Longrightarrow> pc s = Checking \<Longrightarrow> leads E t p s Exited"
  by (rule leads_step [OF live sys_step.check], assumption, assumption, rule leaving_exits [OF live]) simp_all

lemma running_exits:
  assumes live: "lt_failure t = None" "lt_worker t = InLoop"
  shows "quit s \<Longrightarrow> pc s = Running \<Longrightarrow> leads E t p s Exited"
proof (induction "local_tasks s" arbitrary: s)
  case Nil
  show ?case
    by (rule leads_step [OF live sys_step.finish], rule Nil.prems, rule Nil.hyps [symmetric], rule Nil.prems,
        rule checking_exits [OF live]) (use Nil.prems in simp_all)
next
  case (Cons k ks)
  have "leads E t p (s\<lparr>local_tasks := ks, log_done := log_done s @ [k]\<rparr>) Exited"
    by (rule Cons.hyps) (use Cons.prems in simp_all)
  moreover have "sys_step s (s\<lparr>local_tasks := ks, log_done := log_done s @ [k]\<rparr>)"
    by (rule sys_step.run) (use Cons in simp_all)
  ultimately show ?case by (intro leads_step [OF live _ Cons.prems(1)]) (simp_all add: Cons.prems)
qed

lemma swapping_exits:
  assumes live: "lt_failure t = None" "lt_worker t = InLoop"
  shows "quit s \<Longrightarrow> pc s = Swapping \<Longrightarrow> leads E t p s Exited"
  by (rule leads_step [OF live sys_step.swap], assumption, assumption, rule running_exits [OF live]) simp_all

lemma handling_exits:
  assumes live: "lt_failure t = None" "lt_worker t = InLoop"
  shows "quit s \<Longrightarrow> pc s = Handling \<Longrightarrow> leads E t p s Exited"
  by (rule leads_step [OF live sys_step.pending], assumption, assumption, rule swapping_exits [OF live]) simp_all

lemma polling_exits:
  assumes live: "lt_failure t = None" "lt_worker t = InLoop"
  shows "quit s \<Longrightarrow> pc s = Polling \<Longrightarrow> leads E t p s Exited"
  by (rule leads_step [OF live sys_step.poll], assumption, assumption, rule handling_exits [OF live]) simp_all

lemma loop_exits:
  assumes live: "lt_failure t = None" "lt_worker t = InLoop"
  shows "quit s \<Longrightarrow> pc s \<noteq> Idle \<Longrightarrow> leads E t p s Exited"
  by (cases "pc s") (auto intro: leads_now checking_exits [OF live] polling_exits [OF live] handling_exits [OF live]
      swapping_exits [OF live] running_exits [OF live] leaving_exits [OF live] draining_exits [OF live])

lemma sample_sys_quit: "\<not> quit sample_sys"
  by (simp add: sample_sys_def loop_sys.defs event_loop.defs poller.defs)

text \<open>The handshake with the sample loop, up to the return of \<^verbatim>\<open>StartLoop\<close>.\<close>

definition started :: "loop_sys \<Rightarrow> loop_thread" where
  "started s = \<lparr>lt_pointer = Some 1, lt_running = True, lt_caller = Started, lt_worker = InLoop,
     lt_object = Some (1, s), lt_failure = None\<rparr>"

lemma started_reach: "lt_reach E (started sample_sys)"
proof -
  let ?t0 = EventLoopThread_ctor
  let ?t1 = "StartLoop_spawn E ?t0" and ?t2 = "OnEventLoop_ctor 1 sample_sys (StartLoop_spawn E ?t0)"
  have s1: "lt_step E ?t0 ?t1" by (rule lt_step.spawn) (simp_all add: EventLoopThread_ctor_def)
  have s2: "lt_step E ?t1 ?t2"
    by (rule lt_step.ctor) (use sample_sys_start sample_sys_quit in \<open>simp_all add: StartLoop_spawn_def EventLoopThread_ctor_def\<close>)
  have s3: "lt_step E ?t2 (OnEventLoop_publish ?t2)"
    by (rule lt_step.publish) (simp_all add: StartLoop_spawn_def OnEventLoop_ctor_def EventLoopThread_ctor_def)
  have s4: "lt_step E (OnEventLoop_publish ?t2) (StartLoop_return (OnEventLoop_publish ?t2))"
    by (rule lt_step.return) (simp_all add: StartLoop_spawn_def OnEventLoop_publish_def OnEventLoop_ctor_def EventLoopThread_ctor_def)
  have "StartLoop_return (OnEventLoop_publish ?t2) = started sample_sys"
    by (simp add: StartLoop_spawn_def StartLoop_return_def OnEventLoop_publish_def OnEventLoop_ctor_def EventLoopThread_ctor_def started_def)
  then show ?thesis unfolding lt_reach_def using s1 s2 s3 s4 by (metis lt_steps.intros)
qed

lemma StopLoop_quit_started:
  "StopLoop_quit E (started s) = (started (s\<lparr>quit := True, wakers := wakers s + 1\<rparr>))\<lparr>lt_caller := Quitting\<rparr>"
  by (simp add: StopLoop_quit_def or_fail_def on_object_def started_def)

lemma StopLoop_wake_started:
  "StopLoop_wake ((started s)\<lparr>lt_caller := Quitting\<rparr>)
    = (started ((Wakeup s)\<lparr>wakers := wakers s - 1\<rparr>))\<lparr>lt_caller := Joining\<rparr>"
  by (simp add: StopLoop_wake_def or_fail_def on_object_def started_def)

lemma lt_reach_step: "lt_reach E t \<Longrightarrow> lt_step E t u \<Longrightarrow> lt_reach E u"
  by (auto simp: lt_reach_def intro: lt_steps.more)

section \<open>Properties\<close>

text \<open>
  C21: The handshake of \<^verbatim>\<open>StartLoop\<close>. In every interleaving, when \<^verbatim>\<open>StartLoop\<close> has returned and
  \<^verbatim>\<open>StopLoop\<close> has not been called, \<^verbatim>\<open>event_loop_\<close> points to the constructed, living loop of the
  new thread, which has not left \<^verbatim>\<open>Loop\<close>; no assertion of the class ever fails, and the pointer is
  never null where it is used.
\<close>

theorem StartLoop_gives_live_loop:
  assumes "lt_reach E t"
  shows "(lt_caller t = Started \<longrightarrow>
      (\<exists>p s. lt_pointer t = Some p \<and> lt_object t = Some (p, s) \<and> pc s \<notin> {Leaving, Draining, Exited})) \<and>
    lt_failure t \<notin> {Some AssertionFailed, Some NullDereference} \<and>
    (lt_caller t = Stopped \<longrightarrow> EventLoopThread_dtor E t = Inr ())"
proof -
  have inv: "lt_inv t" by (rule lt_reach_inv [OF assms])
  have "\<exists>p s. lt_pointer t = Some p \<and> lt_object t = Some (p, s) \<and> pc s \<notin> {Leaving, Draining, Exited}"
    if "lt_caller t = Started"
    using inv that by (auto simp: lt_inv_def pcs_ok_simps object_ok_def)
  moreover have "lt_failure t \<notin> {Some AssertionFailed, Some NullDereference}" using inv by (auto simp: lt_inv_def)
  moreover have "lt_caller t = Stopped \<Longrightarrow> EventLoopThread_dtor E t = Inr ()"
    using inv by (simp add: lt_inv_def EventLoopThread_dtor_def)
  ultimately show ?thesis by blast
qed

theorem StartLoop_gives_live_loop_witness:
  "lt_failure (started sample_sys) \<notin> {Some AssertionFailed, Some NullDereference}"
  using StartLoop_gives_live_loop [OF started_reach [of linux_env]] by blast

text \<open>
  \<^verbatim>\<open>StopLoop\<close> finishes when the request to quit reaches the loop after \<^verbatim>\<open>Loop\<close> has started: from
  every such state the loop can run to its end, the thread is joined and the object is ready
  for another \<^verbatim>\<open>StartLoop\<close>.
\<close>

theorem StopLoop_completes:
  assumes "lt_reach E t" and "lt_caller t = Joining"
    and "lt_worker t = Finished \<or> (\<exists>p s. lt_object t = Some (p, s) \<and> quit s \<and> pc s \<noteq> Idle)"
  shows "\<exists>u. lt_steps E t u \<and> lt_caller u = Stopped \<and> \<not> lt_running u \<and> lt_pointer u = None \<and> lt_object u = None"
proof -
  have inv: "lt_inv t" by (rule lt_reach_inv [OF assms(1)])
  then have nf: "lt_failure t = None" using assms(2) by (auto simp: lt_inv_def)
  have fin: "\<exists>u. lt_steps E t u \<and> lt_caller u = Joining \<and> lt_worker u = Finished \<and> lt_failure u = None \<and> lt_object u = None"
    using assms(3)
  proof (elim disjE exE conjE)
    assume "lt_worker t = Finished"
    then show ?thesis using inv nf assms(2) by (auto simp: lt_inv_def object_ok_def intro: lt_steps.none)
  next
    fix p s assume s: "lt_object t = Some (p, s)" "quit s" "pc s \<noteq> Idle"
    then have w: "lt_worker t = InLoop" using inv assms(2) by (auto simp: lt_inv_def pcs_ok_simps object_ok_def)
    have "t\<lparr>lt_object := Some (p, s)\<rparr> = t" using s(1) by simp
    then obtain s' where s': "lt_steps E t (t\<lparr>lt_object := Some (p, s')\<rparr>)" "pc s' = Exited"
      using loop_exits [OF nf w s(2,3), of E p] by (auto simp: leads_def)
    let ?t = "t\<lparr>lt_object := Some (p, s')\<rparr>"
    have "lt_step E ?t (OnEventLoop_return ?t)" by (rule lt_step.ended) (use nf w s'(2) in simp_all)
    then have "lt_steps E t (OnEventLoop_return ?t)" by (rule lt_steps.more [OF s'(1)])
    then show ?thesis using assms(2) nf by (intro exI [of _ "OnEventLoop_return ?t"]) (simp add: OnEventLoop_return_def)
  qed
  then obtain u where u: "lt_steps E t u" "lt_caller u = Joining" "lt_worker u = Finished" "lt_failure u = None" "lt_object u = None"
    by blast
  have "lt_steps E t (StopLoop_joined u)" by (rule lt_steps.more [OF u(1) lt_step.joined [OF u(4,2,3)]])
  then show ?thesis using u(5) by (intro exI [of _ "StopLoop_joined u"]) (simp add: StopLoop_joined_def)
qed

text \<open>The sample thread with its loop entered, and then stopped.\<close>

lemma started_looping: "sys_step s s' \<Longrightarrow> (quit s' \<longrightarrow> quit s) \<Longrightarrow> pc s \<noteq> Exited \<Longrightarrow> lt_step E (started s) (started s')"
  using lt_step.looping [of "started s" 1 s s' E] by (simp add: started_def)

lemma stop_after_enter:
  "\<exists>s. lt_reach E ((started s)\<lparr>lt_caller := Quitting\<rparr>) \<and> quit s \<and> pc s = Checking \<and> local_tasks s = []"
proof -
  let ?s = "sample_sys\<lparr>looping := True, quit := False, pc := Checking\<rparr>"
  have i: "pc sample_sys = Idle" "local_tasks sample_sys = []" using sample_sys_start by (simp_all add: sys_start_def)
  have "lt_reach E (started ?s)"
    by (rule lt_reach_step [OF started_reach started_looping [OF sys_step.enter]]) (simp_all add: i)
  then have "lt_reach E (StopLoop_quit E (started ?s))"
    by (rule lt_reach_step [OF _ lt_step.stop]) (simp_all add: started_def)
  then show ?thesis unfolding StopLoop_quit_started by (intro exI) (rule conjI, assumption, simp add: i)
qed

theorem StopLoop_completes_witness:
  "\<exists>t u. lt_reach linux_env t \<and> lt_caller t = Joining \<and> lt_steps linux_env t u \<and> lt_caller u = Stopped"
proof -
  obtain s where s: "lt_reach linux_env ((started s)\<lparr>lt_caller := Quitting\<rparr>)" "quit s" "pc s = Checking"
    using stop_after_enter by blast
  let ?t = "StopLoop_wake ((started s)\<lparr>lt_caller := Quitting\<rparr>)"
  have r: "lt_reach linux_env ?t" by (rule lt_reach_step [OF s(1) lt_step.wake]) (simp_all add: started_def)
  have t: "lt_caller ?t = Joining" "\<exists>p s. lt_object ?t = Some (p, s) \<and> quit s \<and> pc s \<noteq> Idle"
    unfolding StopLoop_wake_started using s(2,3) by (simp_all add: started_def)
  from StopLoop_completes [OF r t(1) disjI2 [OF t(2)]] show ?thesis using r t(1) by blast
qed

text \<open>
  \<^verbatim>\<open>StopLoop\<close> can hang. When it runs between the publication of the pointer and the first
  statements of \<^verbatim>\<open>Loop\<close>, the latter clear \<^verbatim>\<open>quit_\<close>; from the state reached, no interleaving whatsoever
  brings the caller out of \<^verbatim>\<open>Join\<close>.
\<close>

theorem StopLoop_can_hang:
  "\<exists>t. lt_reach E t \<and> lt_caller t = Joining \<and> {u. lt_steps E t u} \<subseteq> {u. lt_caller u = Joining}"
proof -
  let ?s = "sample_sys\<lparr>quit := True, wakers := wakers sample_sys + 1\<rparr>"
  let ?w = "(Wakeup ?s)\<lparr>wakers := wakers ?s - 1\<rparr>"
  let ?e = "?w\<lparr>looping := True, quit := False, pc := Checking\<rparr>"
  have "lt_reach E (StopLoop_quit E (started sample_sys))"
    by (rule lt_reach_step [OF started_reach lt_step.stop]) (simp_all add: started_def)
  then have r1: "lt_reach E ((started ?s)\<lparr>lt_caller := Quitting\<rparr>)" unfolding StopLoop_quit_started .
  have "lt_reach E (StopLoop_wake ((started ?s)\<lparr>lt_caller := Quitting\<rparr>))"
    by (rule lt_reach_step [OF r1 lt_step.wake]) (simp_all add: started_def)
  then have r2: "lt_reach E ((started ?w)\<lparr>lt_caller := Joining\<rparr>)" unfolding StopLoop_wake_started .
  have "pc ?w = Idle" using sample_sys_start by (simp add: sys_start_def)
  then have "lt_step E ((started ?w)\<lparr>lt_caller := Joining\<rparr>) (((started ?w)\<lparr>lt_caller := Joining\<rparr>)\<lparr>lt_object := Some (1, ?e)\<rparr>)"
    by (intro lt_step.looping [where p = 1 and s = ?w] sys_step.enter) (simp_all add: started_def)
  then have r3: "lt_reach E ((started ?e)\<lparr>lt_caller := Joining\<rparr>)"
    using lt_reach_step [OF r2] by (simp add: started_def)
  define stuck where "stuck t \<longleftrightarrow> lt_caller t = Joining \<and> lt_worker t = InLoop \<and>
      (\<exists>p s. lt_object t = Some (p, s) \<and> \<not> quit s \<and> pc s \<notin> {Leaving, Draining, Exited})" for t :: loop_thread
  have step: "stuck u \<Longrightarrow> lt_step E u v \<Longrightarrow> stuck v" for u v
    unfolding stuck_def by (auto elim!: lt_step.cases dest: sys_step_stays)
  have "lt_steps E t u \<Longrightarrow> stuck t \<Longrightarrow> stuck u" for t u
    by (induction rule: lt_steps.induct) (auto intro: step)
  moreover have "stuck ((started ?e)\<lparr>lt_caller := Joining\<rparr>)" by (simp add: stuck_def started_def)
  ultimately have "{u. lt_steps E ((started ?e)\<lparr>lt_caller := Joining\<rparr>) u} \<subseteq> {u. lt_caller u = Joining}"
    by (auto simp: stuck_def)
  with r3 show ?thesis by (intro exI conjI) (assumption, simp, assumption)
qed

text \<open>
  \<^verbatim>\<open>StopLoop\<close> can touch the loop after its destruction: once \<^verbatim>\<open>Quit\<close> has set \<^verbatim>\<open>quit_\<close> the loop may
  end and the object on the other thread's stack go away before \<^verbatim>\<open>Quit\<close> looks at the loop's thread
  and wakes it up.
\<close>

theorem StopLoop_quit_race:
  "\<exists>t. lt_reach E t \<and> lt_failure t = Some UseAfterFree"
proof -
  obtain s where s: "lt_reach E ((started s)\<lparr>lt_caller := Quitting\<rparr>)" "quit s" "pc s = Checking"
    using stop_after_enter by blast
  let ?t = "(started s)\<lparr>lt_caller := Quitting\<rparr>"
  have "lt_failure ?t = None" "lt_worker ?t = InLoop" by (simp_all add: started_def)
  note live = this
  have "?t\<lparr>lt_object := Some (1, s)\<rparr> = ?t" by (simp add: started_def)
  then obtain s' where s': "lt_steps E ?t (?t\<lparr>lt_object := Some (1, s')\<rparr>)" "pc s' = Exited"
    using loop_exits [OF live s(2), of E 1] s(3) by (auto simp: leads_def)
  let ?u = "?t\<lparr>lt_object := Some (1, s')\<rparr>"
  have "lt_step E ?u (OnEventLoop_return ?u)" by (rule lt_step.ended) (use live s'(2) in simp_all)
  moreover have "lt_step E (OnEventLoop_return ?u) (StopLoop_wake (OnEventLoop_return ?u))"
    by (rule lt_step.wake) (simp_all add: OnEventLoop_return_def started_def)
  moreover have "lt_reach E ?u" using s(1) s'(1) lt_steps_trans unfolding lt_reach_def by blast
  ultimately have "lt_reach E (StopLoop_wake (OnEventLoop_return ?u))" by (blast intro: lt_reach_step)
  moreover have "lt_failure (StopLoop_wake (OnEventLoop_return ?u)) = Some UseAfterFree"
    by (simp add: StopLoop_wake_def or_fail_def on_object_def OnEventLoop_return_def started_def)
  ultimately show ?thesis by blast
qed

end
