(* ===== verification/EventLoopThreadPool.thy ===== *)
theory EventLoopThreadPool
  imports EventLoopThread "HOL-Library.Signed_Division"
begin

text \<open>
  The pool of loop threads (\<^verbatim>\<open>src/event_loop_thread_pool.h\<close>, \<^verbatim>\<open>src/event_loop_thread_pool.cc\<close>). \<^verbatim>\<open>int\<close>
  members are 32-bit words, read with \<open>sint\<close>; \<^verbatim>\<open>next_++\<close> wraps around (signed overflow is undefined
  in C++; wrapping is what the usual compilers produce). Calls of \<^verbatim>\<open>StartLoop\<close> and \<^verbatim>\<open>StopLoop\<close> are
  completed handshakes of theory \<open>EventLoopThread\<close>: the new thread's statements run between those of
  the caller. Parameters: whether the caller is on the main loop's thread, the addresses of the
  new loops and their initial state.
\<close>

section \<open>Completed calls\<close>

definition completed :: "loop_thread \<Rightarrow> loop_thread outcome" where
  "completed t = (case lt_failure t of None \<Rightarrow> Inr t | Some e \<Rightarrow> Inl e)"

definition EventLoopThread_StartLoop :: "poller_env \<Rightarrow> addr \<Rightarrow> loop_sys \<Rightarrow> loop_thread \<Rightarrow> (addr \<times> loop_thread) outcome" where
  "EventLoopThread_StartLoop E p s t =
     rbind (completed (StartLoop_spawn E t)) (\<lambda>t1.
     let t2 = StartLoop_return (OnEventLoop_publish (OnEventLoop_ctor p s t1))
     in case lt_pointer t2 of None \<Rightarrow> Inl NullDereference | Some q \<Rightarrow> Inr (q, t2))"

definition EventLoopThread_StopLoop :: "poller_env \<Rightarrow> loop_thread \<Rightarrow> loop_thread outcome" where
  "EventLoopThread_StopLoop E t =
     rbind (completed (StopLoop_quit E t)) (\<lambda>t1.
     rbind (completed (StopLoop_wake t1)) (\<lambda>t2.
       Inr (StopLoop_joined (OnEventLoop_return t2))))"

section \<open>The pool\<close>

record loop_pool =
  loop_main :: "addr option"
  pool_running :: bool
  thread_nums :: "32 word"
  next_loop :: "32 word"
  loop_threads :: "loop_thread list"
  pool_loops :: "addr list"

definition EventLoopThreadPool_ctor :: "addr \<Rightarrow> loop_pool" where
  "EventLoopThreadPool_ctor main =
     \<lparr>loop_main = Some main, pool_running = False, thread_nums = 0, next_loop = 0, loop_threads = [], pool_loops = []\<rparr>"

definition set_thread_nums :: "32 word \<Rightarrow> loop_pool \<Rightarrow> loop_pool" where
  "set_thread_nums nums P = P\<lparr>thread_nums := nums\<rparr>"

text \<open>\<^verbatim>\<open>loop_main_->AssertInLoopThread()\<close>.\<close>

definition assert_main :: "poller_env \<Rightarrow> bool \<Rightarrow> loop_pool \<Rightarrow> addr outcome" where
  "assert_main E in_main P =
     (case loop_main P of None \<Rightarrow> Inl NullDereference | Some m \<Rightarrow> rbind (dassert E in_main) (\<lambda>_. Inr m))"

fun Start_threads :: "poller_env \<Rightarrow> (nat \<Rightarrow> addr) \<Rightarrow> loop_sys \<Rightarrow> nat list \<Rightarrow> loop_pool \<Rightarrow> loop_pool outcome" where
  "Start_threads E fresh s [] P = Inr P"
| "Start_threads E fresh s (i # is) P =
     rbind (EventLoopThread_StartLoop E (fresh i) s EventLoopThread_ctor) (\<lambda>(loop, t).
       Start_threads E fresh s is
         (P\<lparr>loop_threads := loop_threads P @ [t], pool_loops := pool_loops P @ [loop]\<rparr>))"

definition Pool_Start :: "poller_env \<Rightarrow> bool \<Rightarrow> (nat \<Rightarrow> addr) \<Rightarrow> loop_sys \<Rightarrow> loop_pool \<Rightarrow> loop_pool outcome" where
  "Pool_Start E in_main fresh s P =
     rbind (assert_main E in_main P) (\<lambda>_.
     rbind (dassert E (\<not> pool_running P)) (\<lambda>_.
     rbind (Start_threads E fresh s [0..<nat (sint (thread_nums P))] P) (\<lambda>P1.
       Inr (P1\<lparr>pool_running := True\<rparr>))))"

fun Stop_threads :: "poller_env \<Rightarrow> loop_thread list \<Rightarrow> loop_thread list outcome" where
  "Stop_threads E [] = Inr []"
| "Stop_threads E (t # ts) =
     rbind (EventLoopThread_StopLoop E t) (\<lambda>t'. rbind (Stop_threads E ts) (\<lambda>ts'. Inr (t' # ts')))"

definition Pool_Stop :: "poller_env \<Rightarrow> bool \<Rightarrow> loop_pool \<Rightarrow> loop_pool outcome" where
  "Pool_Stop E in_main P =
     rbind (assert_main E in_main P) (\<lambda>_.
     rbind (Stop_threads E (loop_threads P)) (\<lambda>ts.
       Inr (P\<lparr>loop_threads := ts, pool_running := False, loop_main := None\<rparr>)))"

definition EventLoopThreadPool_dtor :: "poller_env \<Rightarrow> bool \<Rightarrow> loop_pool \<Rightarrow> loop_pool outcome" where
  "EventLoopThreadPool_dtor E in_main P = (if pool_running P then Pool_Stop E in_main P else Inr P)"

definition GetNextEventLoop :: "poller_env \<Rightarrow> bool \<Rightarrow> loop_pool \<Rightarrow> (addr \<times> loop_pool) outcome" where
  "GetNextEventLoop E in_main P =
     rbind (dassert E (pool_running P)) (\<lambda>_.
     rbind (assert_main E in_main P) (\<lambda>main.
       if pool_loops P = [] then Inr (main, P)
       else if thread_nums P = 0 then Inl DivisionByZero
       else rbind (vec_get (pool_loops P) (sint (next_loop P) smod sint (thread_nums P))) (\<lambda>loop.
         Inr (loop, P\<lparr>next_loop := next_loop P + 1\<rparr>))))"

section \<open>Starting and stopping\<close>

lemma StartLoop_fresh: "EventLoopThread_StartLoop E p s EventLoopThread_ctor =
    Inr (p, \<lparr>lt_pointer = Some p, lt_running = True, lt_caller = Started, lt_worker = InLoop,
      lt_object = Some (p, s), lt_failure = None\<rparr>)"
  by (simp add: EventLoopThread_StartLoop_def StartLoop_spawn_def EventLoopThread_ctor_def completed_def
      StartLoop_return_def OnEventLoop_publish_def OnEventLoop_ctor_def)

text \<open>A thread whose loop runs.\<close>

definition runs :: "loop_thread \<Rightarrow> bool" where
  "runs t \<longleftrightarrow> lt_running t \<and> lt_failure t = None \<and> (\<exists>p s. lt_pointer t = Some p \<and> lt_object t = Some (p, s))"

lemma StopLoop_runs: "runs t \<Longrightarrow> succeeds (EventLoopThread_StopLoop E t) (\<lambda>t'. \<not> lt_running t' \<and> lt_object t' = None \<and>
    EventLoopThread_dtor E t' = Inr ())"
  by (auto simp: runs_def EventLoopThread_StopLoop_def StopLoop_quit_def StopLoop_wake_def or_fail_def on_object_def
      completed_def StopLoop_joined_def OnEventLoop_return_def EventLoopThread_dtor_def)

lemma Start_threads_ok:
  "succeeds (Start_threads E fresh s is P) (\<lambda>Q. loop_main Q = loop_main P \<and> thread_nums Q = thread_nums P \<and>
     next_loop Q = next_loop P \<and> pool_loops Q = pool_loops P @ map fresh is \<and>
     (\<forall>t \<in> set (loop_threads Q). t \<in> set (loop_threads P) \<or> runs t) \<and>
     length (loop_threads Q) = length (loop_threads P) + length is)"
proof (induction "is" arbitrary: P)
  case (Cons i "is")
  let ?t = "\<lparr>lt_pointer = Some (fresh i), lt_running = True, lt_caller = Started, lt_worker = InLoop,
      lt_object = Some (fresh i, s), lt_failure = None\<rparr>"
  have "runs ?t" by (simp add: runs_def)
  then show ?case
    by (auto simp: StartLoop_fresh
        intro!: succeeds_mono [OF Cons.IH [of "P\<lparr>loop_threads := loop_threads P @ [?t], pool_loops := pool_loops P @ [fresh i]\<rparr>"]])
qed simp

lemma Stop_threads_ok:
  "\<forall>t \<in> set ts. runs t \<Longrightarrow> succeeds (Stop_threads E ts) (\<lambda>us. length us = length ts \<and>
     (\<forall>u \<in> set us. \<not> lt_running u \<and> lt_object u = None))"
proof (induction ts)
  case (Cons t ts)
  have "succeeds (EventLoopThread_StopLoop E t) (\<lambda>t'. \<not> lt_running t' \<and> lt_object t' = None \<and> EventLoopThread_dtor E t' = Inr ())"
    using Cons.prems by (intro StopLoop_runs) simp
  moreover have "succeeds (Stop_threads E ts) (\<lambda>us. length us = length ts \<and> (\<forall>u \<in> set us. \<not> lt_running u \<and> lt_object u = None))"
    using Cons by simp
  ultimately show ?case by (auto elim!: succeedsE)
qed simp

section \<open>Taking turns\<close>

text \<open>The results of a number of calls of \<^verbatim>\<open>GetNextEventLoop\<close>.\<close>

fun next_loops :: "poller_env \<Rightarrow> nat \<Rightarrow> loop_pool \<Rightarrow> addr list outcome" where
  "next_loops E 0 P = Inr []"
| "next_loops E (Suc k) P =
     rbind (GetNextEventLoop E True P) (\<lambda>(loop, Q). rbind (next_loops E k Q) (\<lambda>ls. Inr (loop # ls)))"

text \<open>A running pool with \<open>n\<close> loops.\<close>

definition pool_ok :: "nat \<Rightarrow> addr \<Rightarrow> loop_pool \<Rightarrow> bool" where
  "pool_ok n main P \<longleftrightarrow> pool_running P \<and> loop_main P = Some main \<and> sint (thread_nums P) = int n \<and> length (pool_loops P) = n"

lemma GetNext_main: "pool_ok 0 main P \<Longrightarrow> GetNextEventLoop E True P = Inr (main, P)"
  by (simp add: pool_ok_def GetNextEventLoop_def assert_main_def)

lemma GetNext_nth:
  assumes "pool_ok n main P" and "0 < n" and "sint (next_loop P) = int j"
  shows "GetNextEventLoop E True P = Inr (pool_loops P ! (j mod n), P\<lparr>next_loop := next_loop P + 1\<rparr>)"
proof -
  have "int j smod int n = int (j mod n)" by (cases "j = 0") (simp_all add: signed_modulo_int_def zmod_int)
  moreover have "thread_nums P \<noteq> 0" using assms(1,2) by (auto simp: pool_ok_def)
  ultimately show ?thesis using assms by (auto simp: pool_ok_def GetNextEventLoop_def assert_main_def)
qed

lemma sint_of_small: "j < 2 ^ 31 \<Longrightarrow> sint (of_nat j :: 32 word) = int j"
  by (simp add: signed_of_nat signed_take_bit_int_eq_self)

lemma next_loops_turns:
  assumes "pool_ok n main P" and "0 < n" and "next_loop P = of_nat j" and "j + k \<le> 2 ^ 31"
  shows "next_loops E k P = Inr (map (\<lambda>i. pool_loops P ! (i mod n)) [j..<j + k])"
  using assms(1,3,4)
proof (induction k arbitrary: P j)
  case (Suc k)
  have "sint (next_loop P) = int j" using Suc.prems by (simp add: sint_of_small)
  note g = GetNext_nth [OF Suc.prems(1) assms(2) this, of E]
  let ?Q = "P\<lparr>next_loop := next_loop P + 1\<rparr>"
  have "next_loops E k ?Q = Inr (map (\<lambda>i. pool_loops ?Q ! (i mod n)) [Suc j..<Suc j + k])"
    by (rule Suc.IH) (use Suc.prems in \<open>simp_all add: pool_ok_def\<close>)
  moreover have "[j..<j + Suc k] = j # [Suc j..<Suc j + k]" by (simp only: upt_conv_Cons) simp
  ultimately show ?case using g by (simp del: upt_Suc)
qed simp

lemma next_loops_main: "pool_ok 0 main P \<Longrightarrow> next_loops E k P = Inr (replicate k main)"
  by (induction k) (simp_all add: GetNext_main)

section \<open>Properties\<close>

text \<open>
  C30: Round robin. A pool that has been started with \<open>n\<close> threads hands out its loops in turn: the
  \<open>i\<close>-th of up to \<open>2 ^ 31\<close> calls gets loop \<open>i mod n\<close>, so any \<open>n\<close> consecutive calls use every loop once.
  With no threads every call gets the main loop.
\<close>

theorem pool_round_robin:
  assumes "sint nums = int n" and "k \<le> 2 ^ 31"
  shows "succeeds (Pool_Start E True fresh s (set_thread_nums nums (EventLoopThreadPool_ctor main)))
    (\<lambda>P. next_loops E k P = Inr (if n = 0 then replicate k main else map (\<lambda>i. fresh (i mod n)) [0..<k]))"
proof -
  let ?P = "set_thread_nums nums (EventLoopThreadPool_ctor main)"
  have p: "loop_main ?P = Some main" "\<not> pool_running ?P" "thread_nums ?P = nums" "next_loop ?P = 0" "pool_loops ?P = []"
    by (simp_all add: set_thread_nums_def EventLoopThreadPool_ctor_def)
  have "succeeds (Start_threads E fresh s [0..<n] ?P) (\<lambda>Q. next_loops E k (Q\<lparr>pool_running := True\<rparr>)
      = Inr (if n = 0 then replicate k main else map (\<lambda>i. fresh (i mod n)) [0..<k]))"
  proof (rule succeeds_mono [OF Start_threads_ok])
    fix Q :: loop_pool assume Q: "loop_main Q = loop_main ?P \<and> thread_nums Q = thread_nums ?P \<and> next_loop Q = next_loop ?P \<and>
      pool_loops Q = pool_loops ?P @ map fresh [0..<n] \<and> (\<forall>t \<in> set (loop_threads Q). t \<in> set (loop_threads ?P) \<or> runs t) \<and>
      length (loop_threads Q) = length (loop_threads ?P) + length [0..<n]"
    let ?Q = "Q\<lparr>pool_running := True\<rparr>"
    have ok: "pool_ok n main ?Q" using Q p assms(1) by (simp add: pool_ok_def)
    have "map (\<lambda>i. pool_loops ?Q ! (i mod n)) [0..<0 + k] = map (\<lambda>i. fresh (i mod n)) [0..<k]" if "0 < n"
      using Q p that by simp
    then show "next_loops E k ?Q = Inr (if n = 0 then replicate k main else map (\<lambda>i. fresh (i mod n)) [0..<k])"
      using next_loops_main [of main ?Q E k] next_loops_turns [OF ok, of 0 k E] ok Q p(4) assms(2) by auto
  qed
  then show ?thesis using p(1-3) assms(1) by (simp add: Pool_Start_def assert_main_def)
qed

theorem pool_round_robin_witness:
  "succeeds (Pool_Start linux_env True (\<lambda>i. 100 + i) sample_sys (set_thread_nums 3 (EventLoopThreadPool_ctor 1)))
    (\<lambda>P. next_loops linux_env 5 P = Inr [100, 101, 102, 100, 101])"
  by (rule succeeds_mono [OF pool_round_robin [of 3 3 5]]) (simp_all add: upt_rec)

text \<open>
  The counter of \<^verbatim>\<open>GetNextEventLoop\<close> is an \<^verbatim>\<open>int\<close> that is never reduced. On the call after \<open>2 ^ 31\<close>
  calls it is negative, and so is the remainder: the access to the list of loops is out of
  range, unless the number of threads divides \<open>2 ^ 31\<close>.
\<close>

theorem pool_counter_overflows:
  assumes "pool_ok n main P" and "0 < n" and "next_loop P = of_nat (2 ^ 31)"
  shows "GetNextEventLoop E True P =
    (if n dvd 2 ^ 31 then Inr (pool_loops P ! 0, P\<lparr>next_loop := next_loop P + 1\<rparr>) else Inl OutOfRange)"
proof -
  have s: "sint (next_loop P) = - (2 ^ 31)" using assms(3) by simp
  have "- (2 ^ 31) smod int n = - ((2 ^ 31) mod int n)" using assms(2) by (simp add: signed_modulo_int_def)
  moreover have "(2 ^ 31) mod int n = int ((2 ^ 31) mod n)" by (simp add: zmod_int)
  ultimately have r: "sint (next_loop P) smod int n = - int (2 ^ 31 mod n)" using s by simp
  have "thread_nums P \<noteq> 0" using assms(1,2) by (auto simp: pool_ok_def)
  moreover have "n dvd 2 ^ 31 \<longleftrightarrow> 2 ^ 31 mod n = 0" by (simp only: dvd_eq_mod_eq_0)
  ultimately show ?thesis using assms(1,2) r
    by (auto simp: pool_ok_def GetNextEventLoop_def assert_main_def vec_get_def)
qed

theorem pool_counter_overflows_witness:
  "GetNextEventLoop linux_env True \<lparr>loop_main = Some 1, pool_running = True, thread_nums = 3, next_loop = of_nat (2 ^ 31),
     loop_threads = [], pool_loops = [100, 101, 102]\<rparr> = Inl OutOfRange"
  using pool_counter_overflows [of 3 1 "\<lparr>loop_main = Some 1, pool_running = True, thread_nums = 3,
     next_loop = of_nat (2 ^ 31), loop_threads = [], pool_loops = [100, 101, 102]\<rparr>" linux_env]
  by (simp add: pool_ok_def)

text \<open>
  A pool that has been started can be stopped: every loop thread is stopped and joined, so that
  destroying the pool afterwards does nothing. From then on the pool has lost its main loop,
  and every further call of \<^verbatim>\<open>Start\<close>, \<^verbatim>\<open>Stop\<close> or \<^verbatim>\<open>GetNextEventLoop\<close> fails.
\<close>

theorem Pool_Stop_ends:
  "succeeds (rbind (Pool_Start E True fresh s (set_thread_nums nums (EventLoopThreadPool_ctor main))) (Pool_Stop E True))
    (\<lambda>P. length (loop_threads P) = nat (sint nums) \<and> filter lt_running (loop_threads P) = [] \<and>
      EventLoopThreadPool_dtor E True P = Inr P \<and> Pool_Start E True fresh s P = Inl NullDereference \<and>
      Pool_Stop E True P = Inl NullDereference \<and> (\<exists>e. GetNextEventLoop E True P = Inl e))"
proof -
  let ?P = "set_thread_nums nums (EventLoopThreadPool_ctor main)"
  have p: "loop_main ?P = Some main" "\<not> pool_running ?P" "thread_nums ?P = nums" "loop_threads ?P = []"
    by (simp_all add: set_thread_nums_def EventLoopThreadPool_ctor_def)
  obtain Q where Q: "Start_threads E fresh s [0..<nat (sint nums)] ?P = Inr Q" "loop_main Q = Some main"
      "\<forall>t \<in> set (loop_threads Q). runs t" "length (loop_threads Q) = nat (sint nums)"
    using Start_threads_ok [of E fresh s "[0..<nat (sint nums)]" ?P] p by (auto elim!: succeedsE)
  obtain ts where ts: "Stop_threads E (loop_threads Q) = Inr ts" "length ts = nat (sint nums)"
      "\<forall>u \<in> set ts. \<not> lt_running u"
    using Stop_threads_ok [OF Q(3), of E] Q(4) by (auto elim!: succeedsE)
  let ?R = "Q\<lparr>pool_running := True, loop_threads := ts, pool_running := False, loop_main := None\<rparr>"
  have "rbind (Pool_Start E True fresh s ?P) (Pool_Stop E True) = Inr ?R"
    using p Q ts by (simp add: Pool_Start_def Pool_Stop_def assert_main_def)
  moreover have "\<exists>e. GetNextEventLoop E True ?R = Inl e" by (simp add: GetNextEventLoop_def assert_main_def dassert_def)
  ultimately show ?thesis using ts(2,3)
    by (simp add: EventLoopThreadPool_dtor_def Pool_Start_def Pool_Stop_def assert_main_def filter_empty_conv)
qed

end
