(* ===== verification/Socket.thy ===== *)
theory Socket
  imports InetAddress Epoller "HOL-Library.Signed_Division"
begin

text \<open>
  The wrapper of a socket descriptor (\<^verbatim>\<open>src/socket.h\<close>, \<^verbatim>\<open>src/socket.cc\<close>). The kernel's side is a record:
  the descriptors that are open, the options that were set and the names of the sockets;
  whether the kernel accepts an option is a parameter, as are the answers to \<^verbatim>\<open>getsockopt\<close>,
  \<^verbatim>\<open>getsockname\<close> and \<^verbatim>\<open>getpeername\<close>. \<^verbatim>\<open>int\<close> values are integers; \<^verbatim>\<open>interval/3\<close> is C's division.
\<close>

section \<open>The kernel's side\<close>

datatype sock_opt =
    SO_REUSEADDR | SO_REUSEPORT | TCP_NODELAY | IPV6_V6ONLY | SO_RCVTIMEO | SO_SNDTIMEO |
    SO_SNDBUF | SO_RCVBUF | SO_KEEPALIVE | TCP_KEEPIDLE | TCP_KEEPINTVL | TCP_KEEPCNT | SO_ERROR | SO_BROADCAST

record sock_env =
  senv :: poller_env
  set_ok :: "int \<Rightarrow> sock_opt \<Rightarrow> int \<Rightarrow> bool"
  get_opt :: "int \<Rightarrow> sock_opt \<Rightarrow> int option"
  get_errno :: "int"
  sockname :: "int \<Rightarrow> inet_address option"
  peername :: "int \<Rightarrow> inet_address option"
  bind_ok :: "int \<Rightarrow> inet_address \<Rightarrow> bool"
  garbage :: inet_address

record sock_state =
  open_fds :: "int list"
  options :: "(int \<times> sock_opt \<times> int) list"
  bound :: "(int \<times> inet_address) list"
  shut :: "int list"

text \<open>\<^verbatim>\<open>close\<close>: nothing happens for a descriptor that is not open.\<close>

definition sys_close :: "int \<Rightarrow> 'z sock_state_scheme \<Rightarrow> 'z sock_state_scheme" where
  "sys_close fd s = s\<lparr>open_fds := remove1 fd (open_fds s)\<rparr>"

text \<open>A call of \<^verbatim>\<open>setsockopt\<close> that asserts success; a failure that is not fatal is only logged.\<close>

definition sys_setsockopt :: "sock_env \<Rightarrow> int \<Rightarrow> sock_opt \<Rightarrow> int \<Rightarrow> 'z sock_state_scheme \<Rightarrow> (bool \<times> 'z sock_state_scheme) outcome" where
  "sys_setsockopt K fd opt v s =
     (if set_ok K fd opt v then Inr (True, s\<lparr>options := options s @ [(fd, opt, v)]\<rparr>)
      else rbind (dassert (senv K) False) (\<lambda>_. Inr (False, s)))"

definition set_option :: "sock_env \<Rightarrow> sock_opt \<Rightarrow> int \<Rightarrow> int \<Rightarrow> 'z sock_state_scheme \<Rightarrow> 'z sock_state_scheme outcome" where
  "set_option K opt v fd s = rbind (sys_setsockopt K fd opt v s) (\<lambda>(ok, s1). Inr s1)"

section \<open>The class\<close>

definition Socket_ctor :: "sock_env \<Rightarrow> int \<Rightarrow> int outcome" where
  "Socket_ctor K fd = rbind (dassert (senv K) (0 < fd)) (\<lambda>_. Inr fd)"

definition Socket_dtor :: "int \<Rightarrow> 'z sock_state_scheme \<Rightarrow> 'z sock_state_scheme" where
  "Socket_dtor fd s = (if 0 < fd then sys_close fd s else s)"

text \<open>The move constructor: the new object's descriptor, and what is left in the old one.\<close>

definition Socket_move :: "int \<Rightarrow> int \<times> int" where
  "Socket_move other = (other, - 1)"

definition ShutDownWrite :: "int \<Rightarrow> 'z sock_state_scheme \<Rightarrow> 'z sock_state_scheme" where
  "ShutDownWrite fd s = s\<lparr>shut := shut s @ [fd]\<rparr>"

definition Socket_Bind :: "sock_env \<Rightarrow> int \<Rightarrow> inet_address \<Rightarrow> 'z sock_state_scheme \<Rightarrow> 'z sock_state_scheme outcome" where
  "Socket_Bind K fd addr s =
     (if bind_ok K fd addr then Inr (s\<lparr>bound := bound s @ [(fd, addr)]\<rparr>)
      else rbind (dassert (senv K) False) (\<lambda>_. Inr s))"

definition SetReuseAddress :: "sock_env \<Rightarrow> int \<Rightarrow> 'z sock_state_scheme \<Rightarrow> 'z sock_state_scheme outcome" where
  "SetReuseAddress K = set_option K SO_REUSEADDR 1"

definition SetReusePort :: "sock_env \<Rightarrow> int \<Rightarrow> 'z sock_state_scheme \<Rightarrow> 'z sock_state_scheme outcome" where
  "SetReusePort K = set_option K SO_REUSEPORT 1"

definition SetNodelay :: "sock_env \<Rightarrow> int \<Rightarrow> 'z sock_state_scheme \<Rightarrow> 'z sock_state_scheme outcome" where
  "SetNodelay K = set_option K TCP_NODELAY 1"

definition SetIPV6Only :: "sock_env \<Rightarrow> int \<Rightarrow> 'z sock_state_scheme \<Rightarrow> 'z sock_state_scheme outcome" where
  "SetIPV6Only K = set_option K IPV6_V6ONLY 1"

text \<open>The value is the \<^verbatim>\<open>tv_sec\<close> of the \<^verbatim>\<open>timeval\<close>.\<close>

definition SetTimeoutRecv :: "sock_env \<Rightarrow> int \<Rightarrow> int \<Rightarrow> 'z sock_state_scheme \<Rightarrow> 'z sock_state_scheme outcome" where
  "SetTimeoutRecv K timeoutS = set_option K SO_RCVTIMEO timeoutS"

definition SetTimeoutSend :: "sock_env \<Rightarrow> int \<Rightarrow> int \<Rightarrow> 'z sock_state_scheme \<Rightarrow> 'z sock_state_scheme outcome" where
  "SetTimeoutSend K timeoutS = set_option K SO_SNDTIMEO timeoutS"

definition SetSendBufferSize :: "sock_env \<Rightarrow> int \<Rightarrow> int \<Rightarrow> 'z sock_state_scheme \<Rightarrow> 'z sock_state_scheme outcome" where
  "SetSendBufferSize K n = set_option K SO_SNDBUF n"

definition SetRecvBufferSize :: "sock_env \<Rightarrow> int \<Rightarrow> int \<Rightarrow> 'z sock_state_scheme \<Rightarrow> 'z sock_state_scheme outcome" where
  "SetRecvBufferSize K n = set_option K SO_RCVBUF n"

definition GetSendBufferSize :: "sock_env \<Rightarrow> int \<Rightarrow> int outcome" where
  "GetSendBufferSize K fd =
     (case get_opt K fd SO_SNDBUF of Some v \<Rightarrow> Inr v | None \<Rightarrow> rbind (dassert (senv K) False) (\<lambda>_. Inr 0))"

definition GetRecvBufferSize :: "sock_env \<Rightarrow> int \<Rightarrow> int outcome" where
  "GetRecvBufferSize K fd =
     (case get_opt K fd SO_RCVBUF of Some v \<Rightarrow> Inr v | None \<Rightarrow> rbind (dassert (senv K) False) (\<lambda>_. Inr 0))"

text \<open>\<open>garbage\<close>: the content of the uninitialised \<^verbatim>\<open>sockaddr_storage\<close> when the call fails.\<close>

definition GetLocalAddress :: "sock_env \<Rightarrow> int \<Rightarrow> inet_address outcome" where
  "GetLocalAddress K fd =
     (case sockname K fd of Some a \<Rightarrow> Inr a | None \<Rightarrow> rbind (dassert (senv K) False) (\<lambda>_. Inr (garbage K)))"

definition GetPeerAddress :: "sock_env \<Rightarrow> int \<Rightarrow> inet_address outcome" where
  "GetPeerAddress K fd =
     (case peername K fd of Some a \<Rightarrow> Inr a | None \<Rightarrow> rbind (dassert (senv K) False) (\<lambda>_. Inr (garbage K)))"

definition IsSelfConnect :: "sock_env \<Rightarrow> int \<Rightarrow> bool outcome" where
  "IsSelfConnect K fd =
     rbind (GetLocalAddress K fd) (\<lambda>l. rbind (GetPeerAddress K fd) (\<lambda>p.
       Inr (if operator_ne l p then False else True)))"

definition SetKeepAlive :: "sock_env \<Rightarrow> int \<Rightarrow> int \<Rightarrow> 'z sock_state_scheme \<Rightarrow> 'z sock_state_scheme outcome" where
  "SetKeepAlive K interval fd s =
     rbind (sys_setsockopt K fd SO_KEEPALIVE 1 s) (\<lambda>(ok, s). if \<not> ok then Inr s else
     rbind (sys_setsockopt K fd TCP_KEEPIDLE interval s) (\<lambda>(ok, s). if \<not> ok then Inr s else
     rbind (sys_setsockopt K fd TCP_KEEPINTVL (interval sdiv 3) s) (\<lambda>(ok, s). if \<not> ok then Inr s else
     rbind (sys_setsockopt K fd TCP_KEEPCNT 3 s) (\<lambda>(ok, s). Inr s))))"

definition GetSocketError :: "sock_env \<Rightarrow> int \<Rightarrow> int" where
  "GetSocketError K fd = (case get_opt K fd SO_ERROR of Some v \<Rightarrow> v | None \<Rightarrow> get_errno K)"

section \<open>Properties\<close>

text \<open>The last value given to an option.\<close>

definition option_value :: "int \<Rightarrow> sock_opt \<Rightarrow> 'z sock_state_scheme \<Rightarrow> int option" where
  "option_value fd opt s = map_of (rev (map (\<lambda>(f, k, v). ((f, k), v)) (options s))) (fd, opt)"

text \<open>The range that Linux documents for the keep-alive options: at least 1.\<close>

definition keepalive_kernel :: "sock_env \<Rightarrow> int \<Rightarrow> bool" where
  "keepalive_kernel K fd \<longleftrightarrow> (\<forall>v. set_ok K fd SO_KEEPALIVE v) \<and>
     (\<forall>v. set_ok K fd TCP_KEEPIDLE v = (1 \<le> v \<and> v \<le> 32767)) \<and>
     (\<forall>v. set_ok K fd TCP_KEEPINTVL v = (1 \<le> v \<and> v \<le> 32767)) \<and> set_ok K fd TCP_KEEPCNT 3"

text \<open>
  \<^verbatim>\<open>SetKeepAlive\<close> makes the kernel give a silent peer up after \<^verbatim>\<open>interval*2\<close> seconds, as the header
  says: the first probe after \<open>interval\<close> and then three probes, together at most \<open>2 * interval\<close> and
  more than \<open>2 * interval - 3\<close>, exactly \<open>2 * interval\<close> for multiples of 3. For an interval of 1 or 2
  the quotient is 0, which the kernel refuses, and the assertion fails in a debug build.
\<close>

theorem SetKeepAlive_detects:
  assumes "keepalive_kernel K fd" and "1 \<le> interval" and "interval \<le> 32767"
  shows "if 3 \<le> interval then
      succeeds (SetKeepAlive K interval fd s) (\<lambda>t. \<exists>idle intvl cnt.
        option_value fd SO_KEEPALIVE t = Some 1 \<and> option_value fd TCP_KEEPIDLE t = Some idle \<and>
        option_value fd TCP_KEEPINTVL t = Some intvl \<and> option_value fd TCP_KEEPCNT t = Some cnt \<and>
        idle + cnt * intvl \<le> 2 * interval \<and> 2 * interval - 3 < idle + cnt * intvl \<and>
        (3 dvd interval \<longrightarrow> idle + cnt * intvl = 2 * interval))
    else \<not> ndebug (senv K) \<longrightarrow> SetKeepAlive K interval fd s = Inl AssertionFailed"
proof -
  have d: "interval sdiv 3 = interval div 3" using assms(2) by (simp add: signed_divide_int_def)
  show ?thesis
  proof (cases "3 \<le> interval")
    case True
    then have "1 \<le> interval div 3" "interval div 3 \<le> 32767" using assms(3) by linarith+
    then have "SetKeepAlive K interval fd s = Inr (s\<lparr>options := options s @ [(fd, SO_KEEPALIVE, 1),
        (fd, TCP_KEEPIDLE, interval), (fd, TCP_KEEPINTVL, interval div 3), (fd, TCP_KEEPCNT, 3)]\<rparr>)"
      using assms by (simp add: SetKeepAlive_def sys_setsockopt_def keepalive_kernel_def d)
    moreover have "interval + 3 * (interval div 3) \<le> 2 * interval" "2 * interval - 3 < interval + 3 * (interval div 3)"
      by linarith+
    moreover have "interval + 3 * (interval div 3) = 2 * interval" if "3 dvd interval" using that by auto
    ultimately show ?thesis using True by (simp add: option_value_def)
  next
    case False
    then have "interval div 3 = 0" using assms(2) by simp
    then show ?thesis using False assms by (simp add: SetKeepAlive_def sys_setsockopt_def keepalive_kernel_def d dassert_def)
  qed
qed

definition linux_sock_env :: sock_env where
  "linux_sock_env = \<lparr>senv = linux_env,
     set_ok = (\<lambda>fd opt v. if opt = TCP_KEEPIDLE \<or> opt = TCP_KEEPINTVL then 1 \<le> v \<and> v \<le> 32767 else True),
     get_opt = (\<lambda>fd opt. Some 0), get_errno = 0, sockname = (\<lambda>fd. Some (InetAddress_raw4 [127, 0, 0, 1] (of_int fd))),
     peername = (\<lambda>fd. Some (InetAddress_raw4 [127, 0, 0, 1] 80)), bind_ok = (\<lambda>fd a. True), garbage = zero_address\<rparr>"

lemma linux_keepalive: "keepalive_kernel linux_sock_env fd"
  by (simp add: keepalive_kernel_def linux_sock_env_def)

theorem SetKeepAlive_detects_witness:
  "succeeds (SetKeepAlive linux_sock_env 30 5 \<lparr>open_fds = [5], options = [], bound = [], shut = []\<rparr>)
    (\<lambda>t. option_value 5 SO_KEEPALIVE t = Some 1)"
proof -
  have "succeeds (SetKeepAlive linux_sock_env 30 5 \<lparr>open_fds = [5], options = [], bound = [], shut = []\<rparr>)
    (\<lambda>t. \<exists>idle intvl cnt. option_value 5 SO_KEEPALIVE t = Some 1 \<and> option_value 5 TCP_KEEPIDLE t = Some idle \<and>
        option_value 5 TCP_KEEPINTVL t = Some intvl \<and> option_value 5 TCP_KEEPCNT t = Some cnt \<and>
        idle + cnt * intvl \<le> 2 * 30 \<and> 2 * 30 - 3 < idle + cnt * intvl \<and>
        (3 dvd (30 :: int) \<longrightarrow> idle + cnt * intvl = 2 * 30))"
    using SetKeepAlive_detects [OF linux_keepalive, of 30 5 "\<lparr>open_fds = [5], options = [], bound = [], shut = []\<rparr>"]
    by simp
  then show ?thesis by (rule succeeds_mono) blast
qed

end
