(* ===== verification/Acceptor.thy ===== *)
theory Acceptor
  imports EventLoop Socket "HOL-Library.Multiset"
begin

unbundle bit_operations_syntax

text \<open>
  The acceptor (\<^verbatim>\<open>src/acceptor.h\<close>, \<^verbatim>\<open>src/acceptor.cc\<close>): a listening socket with its channel in the
  owner's loop and a spare descriptor that is given up to refuse a connection when the process
  has no descriptors left. The state extends the kernel's sockets by the loop and the members of
  the class. Parameters (record \<open>acc_env\<close>): the descriptors the kernel hands out and whether \<^verbatim>\<open>poll\<close>
  answers for a new connection. \<^verbatim>\<open>HandleRead\<close> consumes a list of answers to \<^verbatim>\<open>accept4\<close>; it is
  \<open>None\<close> while the loop asks for more.
\<close>

section \<open>State\<close>

definition EMFILE :: int where "EMFILE = 24"

text \<open>An answer to \<^verbatim>\<open>accept4\<close>: its result, \<^verbatim>\<open>errno\<close> afterwards, and the peer.\<close>

record accept_answer =
  ac_fd :: int
  ac_errno :: int
  ac_peer :: inet_address

record acc_env = sock_env +
  k_null :: int
  k_socket :: "16 word \<Rightarrow> int"
  k_listen :: bool
  k_reopen :: int
  k_poll :: "int \<Rightarrow> int \<times> 16 word"

record acceptor = sock_state +
  acc_loop :: event_loop
  listen_channel :: addr
  listen_fd :: int
  idle_fd :: int
  has_new_conn_cb :: bool
  handed :: "(int \<times> inet_address) list"

section \<open>Operations\<close>

definition on_loop_of :: "(event_loop \<Rightarrow> event_loop outcome) \<Rightarrow> acceptor \<Rightarrow> acceptor outcome" where
  "on_loop_of f s = rbind (f (acc_loop s)) (\<lambda>l. Inr (s\<lparr>acc_loop := l\<rparr>))"

text \<open>\<^verbatim>\<open>Initialize\<close>: the spare descriptor.\<close>

definition Acceptor_Initialize :: "acc_env \<Rightarrow> event_loop \<Rightarrow> acceptor outcome" where
  "Acceptor_Initialize K loop =
     (if 0 > k_null K then Inl ProcessExit
      else Inr \<lparr>open_fds = [k_null K], options = [], bound = [], shut = [], acc_loop = loop, listen_channel = 0,
                listen_fd = - 1, idle_fd = k_null K, has_new_conn_cb = False, handed = []\<rparr>)"

definition Acceptor_ctor :: "acc_env \<Rightarrow> addr \<Rightarrow> inet_address \<Rightarrow> event_loop \<Rightarrow> acceptor outcome" where
  "Acceptor_ctor K p addr_listen loop =
     rbind (Acceptor_Initialize K loop) (\<lambda>s.
     rbind (Socket_ctor (sock_env.truncate K) (k_socket K (if IsV4 addr_listen then AF_INET else AF_INET6))) (\<lambda>fd.
     let s = s\<lparr>listen_fd := fd, open_fds := open_fds s @ (if 0 \<le> fd then [fd] else [])\<rparr> in
     rbind (if IsV4 addr_listen then Inr s else SetIPV6Only (sock_env.truncate K) fd s) (\<lambda>s.
     if 0 > fd then Inl ProcessExit else
     rbind (SetReuseAddress (sock_env.truncate K) fd s) (\<lambda>s.
     rbind (Socket_Bind (sock_env.truncate K) fd addr_listen s) (\<lambda>s.
     rbind (on_loop_of (new_Channel (senv K) p fd ''acceptor'') s) (\<lambda>s.
       on_loop_of (modify p (\<lambda>c. c\<lparr>ch_has_read := True\<rparr>)) (s\<lparr>listen_channel := p\<rparr>)))))))"

definition Acceptor_dtor :: "acc_env \<Rightarrow> acceptor \<Rightarrow> acceptor outcome" where
  "Acceptor_dtor K s =
     rbind (on_loop_of (DisableAll (senv K) (listen_channel s)) s) (\<lambda>s.
     rbind (on_loop_of (Channel_Remove (senv K) (listen_channel s)) s) (\<lambda>s.
       Inr (Socket_dtor (listen_fd s) (sys_close (idle_fd s) s))))"

definition set_new_conn_cb :: "acceptor \<Rightarrow> acceptor" where
  "set_new_conn_cb s = s\<lparr>has_new_conn_cb := True\<rparr>"

definition Listen :: "acc_env \<Rightarrow> acceptor \<Rightarrow> acceptor outcome" where
  "Listen K s =
     rbind (AssertInLoopThread (senv K) (acc_loop s)) (\<lambda>_.
       if \<not> k_listen K then Inl ProcessExit
       else on_loop_of (EnableReading (senv K) (listen_channel s)) s)"

text \<open>\<^verbatim>\<open>AcceptConnection\<close>: the kernel opens the descriptor; the result is -1 for a failure.\<close>

definition AcceptConnection :: "accept_answer \<Rightarrow> acceptor \<Rightarrow> int \<times> acceptor" where
  "AcceptConnection a s =
     (if 0 > ac_fd a then (- 1, s) else (ac_fd a, s\<lparr>open_fds := open_fds s @ [ac_fd a]\<rparr>))"

text \<open>\<^verbatim>\<open>CheckConnection\<close>: whether \<^verbatim>\<open>poll\<close> finds the descriptor writable.\<close>

definition POLLOUT :: "16 word" where "POLLOUT = 4"

definition CheckConnection :: "acc_env \<Rightarrow> int \<Rightarrow> bool" where
  "CheckConnection K fd =
     (let (num, revents) = k_poll K fd in if 1 = num then POLLOUT AND revents \<noteq> 0 else False)"

text \<open>\<open>cb\<close> is \<^verbatim>\<open>new_conn_cb_\<close>, which takes the socket over.\<close>

fun Acceptor_HandleRead :: "acc_env \<Rightarrow> (int \<Rightarrow> inet_address \<Rightarrow> acceptor \<Rightarrow> acceptor outcome) \<Rightarrow>
    accept_answer list \<Rightarrow> acceptor \<Rightarrow> acceptor outcome option" where
  "Acceptor_HandleRead K cb [] s = None"
| "Acceptor_HandleRead K cb (a # answers) s =
     (let (client_fd, s1) = AcceptConnection a s in
      if 0 < client_fd then
        if \<not> CheckConnection K client_fd then Acceptor_HandleRead K cb answers (sys_close client_fd s1)
        else if \<not> has_new_conn_cb s1 then Acceptor_HandleRead K cb answers (sys_close client_fd s1)
        else (case rbind (SetKeepAlive (sock_env.truncate K) 30 client_fd s1) (cb client_fd (ac_peer a)) of
                Inl e \<Rightarrow> Some (Inl e)
              | Inr s2 \<Rightarrow> Acceptor_HandleRead K cb answers s2)
      else if EAGAIN = ac_errno a then Some (Inr s1)
      else if EMFILE = ac_errno a then
        (case answers of
           [] \<Rightarrow> None
         | b # _ \<Rightarrow>
             let (fd, s2) = AcceptConnection b (sys_close (idle_fd s1) s1);
                 s3 = sys_close fd s2
             in Some (Inr (s3\<lparr>idle_fd := k_reopen K,
                  open_fds := open_fds s3 @ (if 0 \<le> k_reopen K then [k_reopen K] else [])\<rparr>)))
      else Some (Inr s1))"

section \<open>Descriptors\<close>

text \<open>A callback that keeps the connections it is given, in order.\<close>

definition keep :: "int \<Rightarrow> inet_address \<Rightarrow> acceptor \<Rightarrow> acceptor outcome" where
  "keep fd peer s = Inr (s\<lparr>handed := handed s @ [(fd, peer)]\<rparr>)"

definition writable :: "acc_env \<Rightarrow> int \<Rightarrow> bool" where
  "writable K fd \<longleftrightarrow> fst (k_poll K fd) = 1 \<and> bit (snd (k_poll K fd)) 2"

lemma CheckConnection_writable: "CheckConnection K fd \<longleftrightarrow> writable K fd"
proof -
  have "POLLOUT AND w \<noteq> 0 \<longleftrightarrow> bit w 2" for w
    using and_exp_eq_0_iff_not_bit [of w 2] by (simp add: POLLOUT_def and.commute)
  then show ?thesis by (simp add: CheckConnection_def writable_def case_prod_beta)
qed

text \<open>The connections of a list of answers that are handed over.\<close>

definition good :: "acc_env \<Rightarrow> accept_answer list \<Rightarrow> (int \<times> inet_address) list" where
  "good K answers = map (\<lambda>a. (ac_fd a, ac_peer a)) (filter (\<lambda>a. writable K (ac_fd a)) answers)"

text \<open>What the kernel promises: a new descriptor is not one that is open.\<close>

fun fresh_fds :: "acc_env \<Rightarrow> int list \<Rightarrow> accept_answer list \<Rightarrow> bool" where
  "fresh_fds K opens [] = True"
| "fresh_fds K opens (a # answers) =
     (0 < ac_fd a \<and> ac_fd a \<notin> set opens \<and>
      fresh_fds K (if writable K (ac_fd a) then opens @ [ac_fd a] else opens) answers)"

lemma SetKeepAlive_30:
  assumes "keepalive_kernel K fd"
  shows "SetKeepAlive K 30 fd s = Inr (s\<lparr>options := options s @ [(fd, SO_KEEPALIVE, 1), (fd, TCP_KEEPIDLE, 30),
    (fd, TCP_KEEPINTVL, 10), (fd, TCP_KEEPCNT, 3)]\<rparr>)"
proof -
  have "(30 :: int) sdiv 3 = 10" by (simp add: signed_divide_int_def)
  then show ?thesis using assms by (simp add: SetKeepAlive_def sys_setsockopt_def keepalive_kernel_def)
qed

text \<open>What the handler does to the members that matter, apart from options.\<close>

definition acc_view :: "acceptor \<Rightarrow> int list \<times> (int \<times> inet_address) list \<times> int \<times> bool" where
  "acc_view s = (open_fds s, handed s, idle_fd s, has_new_conn_cb s)"

lemma HandleRead_good_prefix:
  assumes "\<forall>fd. keepalive_kernel (sock_env.truncate K) fd" and "has_new_conn_cb s" and "fresh_fds K (open_fds s) oks"
  shows "\<exists>t. Acceptor_HandleRead K keep (oks @ rest) s = Acceptor_HandleRead K keep rest t \<and>
    acc_view t = (open_fds s @ map fst (good K oks), handed s @ good K oks, idle_fd s, True)"
  using assms(2,3)
proof (induction oks arbitrary: s)
  case Nil
  then show ?case by (auto simp: acc_view_def good_def intro: exI [of _ s])
next
  case (Cons a oks)
  let ?s1 = "s\<lparr>open_fds := open_fds s @ [ac_fd a]\<rparr>"
  have a: "0 < ac_fd a" "ac_fd a \<notin> set (open_fds s)" using Cons.prems(2) by simp_all
  show ?case
  proof (cases "writable K (ac_fd a)")
    case False
    have "sys_close (ac_fd a) ?s1 = s" using a(2) by (simp add: sys_close_def remove1_append)
    then have "Acceptor_HandleRead K keep ((a # oks) @ rest) s = Acceptor_HandleRead K keep (oks @ rest) s"
      using a(1) False by (simp add: AcceptConnection_def CheckConnection_writable)
    then show ?thesis using Cons.IH [OF Cons.prems(1)] Cons.prems(2) False by (simp add: good_def)
  next
    case True
    obtain s2 where s2: "rbind (SetKeepAlive (sock_env.truncate K) 30 (ac_fd a) ?s1) (keep (ac_fd a) (ac_peer a)) = Inr s2"
        "acc_view s2 = (open_fds s @ [ac_fd a], handed s @ [(ac_fd a, ac_peer a)], idle_fd s, True)"
      using assms(1) Cons.prems(1) by (simp add: SetKeepAlive_30 keep_def acc_view_def)
    have "Acceptor_HandleRead K keep ((a # oks) @ rest) s = Acceptor_HandleRead K keep (oks @ rest) s2"
      using a(1) True Cons.prems(1) s2(1) by (simp add: AcceptConnection_def CheckConnection_writable)
    then show ?thesis using Cons.IH [of s2] s2(2) Cons.prems(2) True by (auto simp: acc_view_def good_def)
  qed
qed

section \<open>The listening channel\<close>

lemma Acceptor_ctor_eq:
  assumes "0 \<le> k_null K" and "\<forall>fam. k_socket K fam = fd" and "0 < fd" and "\<forall>opt v. set_ok K fd opt v" and "bind_ok K fd addr"
  shows "\<exists>opts. Acceptor_ctor K p addr loop = Inr \<lparr>open_fds = [k_null K, fd], options = opts, bound = [(fd, addr)], shut = [],
    acc_loop = loop\<lparr>heap := (heap loop)(p \<mapsto> (Channel_ctor (Some (loop_self loop)) fd ''acceptor'')\<lparr>ch_has_read := True\<rparr>)\<rparr>,
    listen_channel = p, listen_fd = fd, idle_fd = k_null K, has_new_conn_cb = False, handed = []\<rparr>"
  using assms by (cases "IsV4 addr") (simp_all add: Let_def Acceptor_ctor_def Acceptor_Initialize_def Socket_ctor_def sock_env.defs set_option_def
      SetIPV6Only_def SetReuseAddress_def Socket_Bind_def sys_setsockopt_def on_loop_of_def new_Channel_def)

lemma Acceptor_listens:
  assumes "env_ok (senv K)" and "ep_inv loop" and "heap loop p = None" and "0 < fd" and "nat fd < length (channels loop)"
    and "nat fd \<notin> used loop" and "k_listen K"
    and s: "acc_loop s = loop\<lparr>heap := (heap loop)(p \<mapsto> (Channel_ctor (Some (loop_self loop)) fd ''acceptor'')\<lparr>ch_has_read := True\<rparr>)\<rparr>"
      "listen_channel s = p"
  shows "\<exists>l. Listen K s = Inr (s\<lparr>acc_loop := l\<rparr>) \<and> ep_inv l \<and> interest l = (interest loop)(fd \<mapsto> (kReadEvent, p)) \<and>
    (\<exists>c. heap l p = Some c \<and> ch_fd c = fd \<and> ch_status c = kAdded)"
proof -
  let ?c = "(Channel_ctor (Some (loop_self loop)) fd ''acceptor'')\<lparr>ch_has_read := True\<rparr>"
  let ?l = "loop\<lparr>heap := (heap loop)(p \<mapsto> ?c)\<rparr>"
  have "ep_inv (loop\<lparr>heap := (heap loop)(p \<mapsto> Channel_ctor (Some (loop_self loop)) fd ''acceptor'')\<rparr>)"
    by (rule ep_inv_heap_new [OF assms(2-5)])
  from ep_inv_core_upd [OF this, of p _ ?c] have inv: "ep_inv ?l" by (simp add: core_def)
  have free: "channels loop ! nat fd = None" using assms(5,6) by (simp add: used_def)
  have up: "updatable p ?c ?l" using free by (simp add: updatable_def Channel_ctor_def)
  have "ch_events ?c OR kReadEvent = kReadEvent" by (simp add: Channel_ctor_def kNoneEvent_def)
  then have "EnableReading (senv K) p ?l = Inr (registered p ?c kReadEvent ?l)"
    using set_events_eq [OF assms(1) inv up, of "\<lambda>ev. ev OR kReadEvent"] by (simp add: EnableReading_def)
  then have "Listen K s = Inr (s\<lparr>acc_loop := registered p ?c kReadEvent ?l\<rparr>)"
    using s inv assms(7) by (simp add: Listen_def on_loop_of_def)
  moreover have "ep_inv (registered p ?c kReadEvent ?l)" by (rule ep_inv_registered [OF inv up])
  moreover have "interest (registered p ?c kReadEvent ?l) = (interest loop)(fd \<mapsto> (kReadEvent, p))"
    by (simp add: registered_def Channel_ctor_def expected_interest_def read_event_status)
  moreover have "\<exists>c. heap (registered p ?c kReadEvent ?l) p = Some c \<and> ch_fd c = fd \<and> ch_status c = kAdded"
    by (simp add: registered_def Channel_ctor_def read_event_status)
  ultimately show ?thesis by blast
qed

lemma Acceptor_closes:
  assumes "env_ok (senv K)" and "ep_inv (acc_loop s)" and "heap (acc_loop s) (listen_channel s) = Some c"
    and "ch_fd c = fd" and "ch_status c = kAdded"
  shows "\<exists>l. Acceptor_dtor K s = Inr (Socket_dtor (listen_fd s) (sys_close (idle_fd s) (s\<lparr>acc_loop := l\<rparr>))) \<and> ep_inv l \<and>
    interest l = (interest (acc_loop s))(fd := None)"
proof -
  let ?l = "unregistered (listen_channel s) (c\<lparr>ch_events := kNoneEvent, ch_status := kDel\<rparr>)
    (registered (listen_channel s) c kNoneEvent (acc_loop s))"
  have "ch_status c \<noteq> kNew" using assms(5) by (simp add: status_defs)
  note d = drop_channel_eq [OF assms(1-3) this]
  have "Acceptor_dtor K s = rbind (drop_channel (senv K) (listen_channel s) (acc_loop s)) (\<lambda>l.
      Inr (Socket_dtor (listen_fd s) (sys_close (idle_fd s) (s\<lparr>acc_loop := l\<rparr>))))"
    by (auto simp: Acceptor_dtor_def on_loop_of_def drop_channel_def rbind_assoc intro!: arg_cong [where f = "rbind _"])
  moreover have "interest ?l = (interest (acc_loop s))(fd := None)"
    using assms(4) by (simp add: unregistered_def registered_def expected_interest_def)
  ultimately show ?thesis using d by auto
qed

section \<open>Properties\<close>

text \<open>
  C22: No connection is lost and no descriptor leaks. For every sequence of successful answers of
  \<^verbatim>\<open>accept4\<close> up to \<^verbatim>\<open>EAGAIN\<close>, the handler returns; exactly the connections that \<^verbatim>\<open>poll\<close> finds writable
  are handed to the callback, in order, every other one is closed, and nothing else changes in
  the table of descriptors.
\<close>

theorem acceptor_hands_over:
  assumes "\<forall>fd. keepalive_kernel (sock_env.truncate K) fd" and "has_new_conn_cb s" and "fresh_fds K (open_fds s) oks"
    and "ac_fd a < 0" and "ac_errno a = EAGAIN"
  shows "\<exists>t. Acceptor_HandleRead K keep (oks @ a # rest) s = Some (Inr t) \<and> handed t = handed s @ good K oks \<and>
    open_fds t = open_fds s @ map fst (good K oks) \<and> idle_fd t = idle_fd s"
proof -
  obtain t where t: "Acceptor_HandleRead K keep (oks @ a # rest) s = Acceptor_HandleRead K keep (a # rest) t"
      "acc_view t = (open_fds s @ map fst (good K oks), handed s @ good K oks, idle_fd s, True)"
    using HandleRead_good_prefix [OF assms(1-3)] by blast
  then show ?thesis using assms(4,5) by (auto simp: AcceptConnection_def acc_view_def)
qed


text \<open>
  An acceptor's life on its loop: construction and \<^verbatim>\<open>Listen\<close> register the listening descriptor
  for reading, for IPv4 and IPv6 alike, and change nothing else in the kernel's interest list;
  the destructor takes it out again and closes both descriptors.
\<close>

theorem Acceptor_lifecycle:
  assumes "env_ok (senv K)" and "ep_inv loop" and "heap loop p = None" and "0 < fd" and "nat fd < length (channels loop)"
    and "nat fd \<notin> used loop" and "k_listen K" and "0 \<le> k_null K" and "\<forall>fam. k_socket K fam = fd"
    and "\<forall>opt v. set_ok K fd opt v" and "bind_ok K fd addr"
  shows "succeeds (rbind (Acceptor_ctor K p addr loop) (Listen K)) (\<lambda>s. ep_inv (acc_loop s) \<and>
    interest (acc_loop s) = (interest loop)(fd \<mapsto> (kReadEvent, p)) \<and>
    succeeds (Acceptor_dtor K s) (\<lambda>t. ep_inv (acc_loop t) \<and> interest (acc_loop t) = (interest loop)(fd := None) \<and>
      open_fds t = []))"
proof -
  obtain opts where c: "Acceptor_ctor K p addr loop = Inr \<lparr>open_fds = [k_null K, fd], options = opts, bound = [(fd, addr)],
      shut = [], acc_loop = loop\<lparr>heap := (heap loop)(p \<mapsto> (Channel_ctor (Some (loop_self loop)) fd ''acceptor'')\<lparr>ch_has_read := True\<rparr>)\<rparr>,
      listen_channel = p, listen_fd = fd, idle_fd = k_null K, has_new_conn_cb = False, handed = []\<rparr>" (is "_ = Inr ?s")
    using Acceptor_ctor_eq [OF assms(8,9,4,10,11)] by blast
  obtain l c where l: "Listen K ?s = Inr (?s\<lparr>acc_loop := l\<rparr>)" "ep_inv l" "interest l = (interest loop)(fd \<mapsto> (kReadEvent, p))"
      "heap l p = Some c" "ch_fd c = fd" "ch_status c = kAdded"
    using Acceptor_listens [OF assms(1-7), of ?s] by auto
  let ?t = "?s\<lparr>acc_loop := l\<rparr>"
  obtain l' where l': "Acceptor_dtor K ?t = Inr (Socket_dtor fd (sys_close (k_null K) (?t\<lparr>acc_loop := l'\<rparr>)))" "ep_inv l'"
      "interest l' = (interest l)(fd := None)"
    using Acceptor_closes [of K ?t c fd] assms(1) l by auto
  show ?thesis using c l(1-3) l' assms(4) by (simp add: Socket_dtor_def sys_close_def)
qed

section \<open>Witnesses\<close>

definition linux_acc_env :: acc_env where
  "linux_acc_env = sock_env.extend linux_sock_env
     (acc_env.fields 9 (\<lambda>fam. 8) True 9 (\<lambda>fd. if fd \<noteq> 13 then (1, POLLOUT) else (0, 0)))"

lemma linux_acc_env_simps:
  "sock_env.truncate linux_acc_env = linux_sock_env" "senv linux_acc_env = linux_env" "k_null linux_acc_env = 9"
  "k_socket linux_acc_env fam = 8" "k_listen linux_acc_env" "k_reopen linux_acc_env = 9"
  "writable linux_acc_env fd \<longleftrightarrow> fd \<noteq> 13" "set_ok linux_acc_env = set_ok linux_sock_env" "bind_ok linux_acc_env fd addr"
  by (simp_all add: linux_acc_env_def sock_env.defs acc_env.defs linux_sock_env_def writable_def POLLOUT_def bit_numeral_rec)

definition sample_acceptor :: acceptor where
  "sample_acceptor = \<lparr>open_fds = [9, 8], options = [], bound = [], shut = [], acc_loop = event_loop.truncate sample_sys,
     listen_channel = 12, listen_fd = 8, idle_fd = 9, has_new_conn_cb = True, handed = []\<rparr>"

definition accepts :: "int \<Rightarrow> accept_answer" where
  "accepts fd = \<lparr>ac_fd = fd, ac_errno = 0, ac_peer = zero_address\<rparr>"

definition refuses :: "int \<Rightarrow> accept_answer" where
  "refuses err = \<lparr>ac_fd = - 1, ac_errno = err, ac_peer = zero_address\<rparr>"

theorem acceptor_hands_over_witness:
  "\<exists>t. Acceptor_HandleRead linux_acc_env keep ([accepts 12, accepts 13, accepts 14] @ refuses EAGAIN # []) sample_acceptor
     = Some (Inr t) \<and> open_fds t = [9, 8, 12, 14]"
  using acceptor_hands_over [of linux_acc_env sample_acceptor "[accepts 12, accepts 13, accepts 14]" "refuses EAGAIN" "[]"]
  by (simp add: linux_acc_env_simps linux_keepalive sample_acceptor_def accepts_def refuses_def good_def del: Acceptor_HandleRead.simps) blast


theorem Acceptor_lifecycle_witness:
  "\<exists>loop. EventLoop_ctor linux_env 1 7 10 5 3 11 6 None False = Inr loop \<and>
     succeeds (rbind (Acceptor_ctor (linux_acc_env\<lparr>set_ok := \<lambda>_ _ _. True\<rparr>) 12 (InetAddress_port 80 True False) loop)
         (Listen (linux_acc_env\<lparr>set_ok := \<lambda>_ _ _. True\<rparr>)))
       (\<lambda>s. interest (acc_loop s) 8 = Some (kReadEvent, 12))"
proof -
  let ?K = "linux_acc_env\<lparr>set_ok := \<lambda>_ _ _. True\<rparr>"
  obtain s where s: "EventLoop_ctor linux_env 1 7 10 5 3 11 6 None False = Inr s" "el_inv s"
      "dom (heap s) = {10, 11}" "used s = {5, 6}" "length (channels s) = kInitTotalChannelSize"
    using EventLoop_ctor_ok [OF linux_env_ok, of 10 11 5 6 1 7 3 False] by (auto elim!: succeedsE)
  have "12 \<notin> dom (heap s)" using s(3) by simp
  then have h: "heap s 12 = None" by (simp only: domIff not_not)
  have i: "env_ok (senv ?K)" "ep_inv s" "(0::int) < 8" "nat 8 < length (channels s)" "nat 8 \<notin> used s" "k_listen ?K" "0 \<le> k_null ?K"
      "\<forall>fam. k_socket ?K fam = 8" "\<forall>opt v. set_ok ?K 8 opt v" "bind_ok ?K 8 (InetAddress_port 80 True False)"
    using s linux_env_ok by (simp_all add: linux_acc_env_simps el_inv_def kInitTotalChannelSize_def)
  have "succeeds (rbind (Acceptor_ctor ?K 12 (InetAddress_port 80 True False) s) (Listen ?K))
      (\<lambda>t. interest (acc_loop t) 8 = Some (kReadEvent, 12))"
    by (rule succeeds_mono [OF Acceptor_lifecycle [OF i(1,2) h i(3-10)]]) simp
  then show ?thesis using s(1) by blast
qed

end
