(* ===== verification/TCPServer.thy ===== *)
theory TCPServer
  imports TCPConnection EventLoopThreadPool InetAddress
begin

text \<open>
  The TCP server (\<^verbatim>\<open>src/tcp_server.h\<close>, \<^verbatim>\<open>src/tcp_server.cc\<close>): the table of its connections, indexed by
  descriptor, and the life of each connection across the server's loop and the loop it was
  given. A connection object is here what the server sees of it: descriptor, loop, name
  and the state that \<^verbatim>\<open>ConnectionEstablished\<close>, \<^verbatim>\<open>HandleClose\<close> and \<^verbatim>\<open>ConnectionDestroy\<close> of theory
  \<open>TCPConnection\<close> go through. \<^verbatim>\<open>RunInLoop\<close> runs a call at once on the loop's own thread and queues it
  otherwise; \<open>sv_tasks\<close> holds the queued calls of all loops. A connection is destroyed when its last
  \<^verbatim>\<open>shared_ptr\<close> goes: it is in no slot of the table and bound in no queued call.
\<close>

section \<open>State\<close>

text \<open>Which of the five callbacks are set, and \<^verbatim>\<open>mark_\<close>.\<close>

record conn_callbacks =
  cb_connection :: bool
  cb_disconnection :: bool
  cb_read :: bool
  cb_write_complete :: bool
  cb_high_water_mark :: bool
  cb_mark :: nat

record sconn =
  sc_fd :: int
  sc_loop :: addr
  sc_name :: string
  sc_state :: conn_state
  sc_peer :: inet_address
  sc_callbacks :: conn_callbacks

datatype server_task = Establish addr | RemoveConn addr | Destroy addr

fun task_conn :: "server_task \<Rightarrow> addr" where
  "task_conn (Establish p) = p" | "task_conn (RemoveConn p) = p" | "task_conn (Destroy p) = p"

record tcp_server =
  sv_owner :: addr
  sv_pool :: loop_pool
  next_connect_id :: uint64
  tcp_conn_list :: "addr option list"
  tcp_conn_count :: nat
  sv_conns :: "addr \<Rightarrow> sconn option"
  sv_tasks :: "(addr \<times> server_task) list"
  acceptors :: "(inet_address \<times> bool) list"
  sv_callbacks :: conn_callbacks

definition kConnSize :: nat where "kConnSize = 1024 * 1024"

text \<open>\<open>acceptors\<close>: the address of each acceptor and whether it listens.\<close>

definition TCPServer_ctor :: "addr \<Rightarrow> inet_address list \<Rightarrow> tcp_server" where
  "TCPServer_ctor owner addresses =
     \<lparr>sv_owner = owner, sv_pool = EventLoopThreadPool_ctor owner, next_connect_id = 0,
      tcp_conn_list = replicate kConnSize None, tcp_conn_count = 0, sv_conns = Map.empty, sv_tasks = [],
      acceptors = map (\<lambda>a. (a, False)) addresses, sv_callbacks = conn_callbacks.make False False False False False 0\<rparr>"

text \<open>IPv4 and IPv6 on the same port.\<close>

definition TCPServer_port_ctor :: "addr \<Rightarrow> 16 word \<Rightarrow> tcp_server" where
  "TCPServer_port_ctor owner prt =
     TCPServer_ctor owner [InetAddress_port prt True False, InetAddress_port prt False False]"

definition TCPServer_set_connection_cb :: "tcp_server \<Rightarrow> tcp_server" where
  "TCPServer_set_connection_cb s = s\<lparr>sv_callbacks := (sv_callbacks s)\<lparr>cb_connection := True\<rparr>\<rparr>"

definition TCPServer_set_disconnection_cb :: "tcp_server \<Rightarrow> tcp_server" where
  "TCPServer_set_disconnection_cb s = s\<lparr>sv_callbacks := (sv_callbacks s)\<lparr>cb_disconnection := True\<rparr>\<rparr>"

definition TCPServer_set_read_cb :: "tcp_server \<Rightarrow> tcp_server" where
  "TCPServer_set_read_cb s = s\<lparr>sv_callbacks := (sv_callbacks s)\<lparr>cb_read := True\<rparr>\<rparr>"

definition TCPServer_set_write_complete_cb :: "tcp_server \<Rightarrow> tcp_server" where
  "TCPServer_set_write_complete_cb s = s\<lparr>sv_callbacks := (sv_callbacks s)\<lparr>cb_write_complete := True\<rparr>\<rparr>"

definition TCPServer_set_high_water_mark_cb :: "nat \<Rightarrow> tcp_server \<Rightarrow> tcp_server" where
  "TCPServer_set_high_water_mark_cb mark s =
     s\<lparr>sv_callbacks := (sv_callbacks s)\<lparr>cb_high_water_mark := True, cb_mark := mark\<rparr>\<rparr>"

definition set_event_loop_nums :: "32 word \<Rightarrow> tcp_server \<Rightarrow> tcp_server" where
  "set_event_loop_nums nums s = s\<lparr>sv_pool := set_thread_nums nums (sv_pool s)\<rparr>"

definition conn_at :: "addr \<Rightarrow> tcp_server \<Rightarrow> sconn outcome" where
  "conn_at p s = (case sv_conns s p of None \<Rightarrow> Inl UseAfterFree | Some c \<Rightarrow> Inr c)"

definition set_conn_state :: "addr \<Rightarrow> conn_state \<Rightarrow> tcp_server \<Rightarrow> tcp_server outcome" where
  "set_conn_state p st s = rbind (conn_at p s) (\<lambda>c. Inr (s\<lparr>sv_conns := (sv_conns s)(p \<mapsto> c\<lparr>sc_state := st\<rparr>)\<rparr>))"

text \<open>The loops that exist: the owner's, and those of a running pool.\<close>

definition loop_alive :: "addr \<Rightarrow> tcp_server \<Rightarrow> bool" where
  "loop_alive l s \<longleftrightarrow> l = sv_owner s \<or> (pool_running (sv_pool s) \<and> l \<in> set (pool_loops (sv_pool s)))"

text \<open>\<^verbatim>\<open>loop->RunInLoop(call)\<close> on the thread of loop \<open>cur\<close>.\<close>

definition run_in_loop :: "addr \<Rightarrow> addr \<Rightarrow> server_task \<Rightarrow> (tcp_server \<Rightarrow> tcp_server outcome) \<Rightarrow> tcp_server \<Rightarrow> tcp_server outcome" where
  "run_in_loop cur l k f s =
     (if \<not> loop_alive l s then Inl UseAfterFree
      else if cur = l then f s
      else Inr (s\<lparr>sv_tasks := sv_tasks s @ [(l, k)]\<rparr>))"

text \<open>The end of a \<^verbatim>\<open>shared_ptr\<close> to connection \<open>p\<close>; the destructor asserts \<^verbatim>\<open>DISCONNECTED\<close>.\<close>

definition referenced :: "addr \<Rightarrow> tcp_server \<Rightarrow> bool" where
  "referenced p s \<longleftrightarrow> Some p \<in> set (tcp_conn_list s) \<or> p \<in> task_conn ` snd ` set (sv_tasks s)"

definition release :: "poller_env \<Rightarrow> addr \<Rightarrow> tcp_server \<Rightarrow> tcp_server outcome" where
  "release E p s =
     (if referenced p s then Inr s
      else rbind (conn_at p s) (\<lambda>c.
           rbind (dassert E (sc_state c = DISCONNECTED)) (\<lambda>_. Inr (s\<lparr>sv_conns := (sv_conns s)(p := None)\<rparr>))))"

section \<open>The table\<close>

definition AddConnListItem :: "poller_env \<Rightarrow> addr \<Rightarrow> tcp_server \<Rightarrow> (bool \<times> tcp_server) outcome" where
  "AddConnListItem E p s =
     rbind (conn_at p s) (\<lambda>c.
     let fd = sc_fd c;
         lst = (if length (tcp_conn_list s) \<le> nat fd
                then vec_resize None (tcp_conn_list s) (length (tcp_conn_list s) * 2) else tcp_conn_list s);
         s1 = s\<lparr>tcp_conn_list := lst\<rparr>
     in if length lst < nat fd then Inr (False, s1)
        else rbind (vec_get lst fd) (\<lambda>slot.
             rbind (dassert E (slot = None)) (\<lambda>_.
             rbind (vec_set lst fd (Some p)) (\<lambda>lst1.
               Inr (True, s1\<lparr>tcp_conn_list := lst1, tcp_conn_count := tcp_conn_count s1 + 1\<rparr>)))))"

definition DelConnListItem :: "poller_env \<Rightarrow> addr \<Rightarrow> tcp_server \<Rightarrow> tcp_server outcome" where
  "DelConnListItem E p s =
     rbind (conn_at p s) (\<lambda>c.
     rbind (vec_get (tcp_conn_list s) (sc_fd c)) (\<lambda>slot.
     rbind (dassert E (slot \<noteq> None)) (\<lambda>_.
     rbind (vec_set (tcp_conn_list s) (sc_fd c) None) (\<lambda>lst.
       Inr (s\<lparr>tcp_conn_list := lst, tcp_conn_count := size_dec (tcp_conn_count s)\<rparr>)))))"

fun Dump_conns :: "poller_env \<Rightarrow> tcp_server \<Rightarrow> (nat \<times> addr option) list \<Rightarrow> nat \<Rightarrow> nat outcome" where
  "Dump_conns E s [] count = Inr count"
| "Dump_conns E s ((i, None) # xs) count = Dump_conns E s xs count"
| "Dump_conns E s ((i, Some p) # xs) count =
     rbind (conn_at p s) (\<lambda>c. rbind (dassert E (sc_fd c = int i)) (\<lambda>_. Dump_conns E s xs (count + 1)))"

definition DumpConnections :: "poller_env \<Rightarrow> addr \<Rightarrow> tcp_server \<Rightarrow> unit outcome" where
  "DumpConnections E cur s =
     rbind (dassert E (cur = sv_owner s)) (\<lambda>_.
     rbind (Dump_conns E s (enumerate 0 (tcp_conn_list s)) 0) (\<lambda>count. dassert E (count = tcp_conn_count s)))"

section \<open>Connections\<close>

text \<open>The connection's own methods, as far as the server sees them.\<close>

definition conn_established :: "poller_env \<Rightarrow> addr \<Rightarrow> addr \<Rightarrow> tcp_server \<Rightarrow> tcp_server outcome" where
  "conn_established E cur p s =
     rbind (conn_at p s) (\<lambda>c. rbind (dassert E (cur = sc_loop c)) (\<lambda>_. set_conn_state p CONNECTED s))"

definition conn_destroy :: "poller_env \<Rightarrow> addr \<Rightarrow> addr \<Rightarrow> tcp_server \<Rightarrow> tcp_server outcome" where
  "conn_destroy E cur p s =
     rbind (conn_at p s) (\<lambda>c. rbind (dassert E (cur = sc_loop c)) (\<lambda>_. set_conn_state p DISCONNECTED s))"

definition OnConnectionRemoveInLoop :: "poller_env \<Rightarrow> addr \<Rightarrow> addr \<Rightarrow> tcp_server \<Rightarrow> tcp_server outcome" where
  "OnConnectionRemoveInLoop E cur p s =
     rbind (dassert E (cur = sv_owner s)) (\<lambda>_.
     rbind (DelConnListItem E p s) (\<lambda>s1.
     rbind (conn_at p s1) (\<lambda>c.
     rbind (run_in_loop cur (sc_loop c) (Destroy p) (conn_destroy E cur p) s1) (\<lambda>s2.
       if ndebug E then Inr s2 else rbind (DumpConnections E cur s2) (\<lambda>_. Inr s2)))))"

definition OnConnectionRemove :: "poller_env \<Rightarrow> addr \<Rightarrow> addr \<Rightarrow> tcp_server \<Rightarrow> tcp_server outcome" where
  "OnConnectionRemove E cur p s =
     run_in_loop cur (sv_owner s) (RemoveConn p) (OnConnectionRemoveInLoop E cur p) s"

text \<open>\<^verbatim>\<open>TCPConnection::HandleClose\<close> on the connection's loop, with \<^verbatim>\<open>remove_cb_\<close>.\<close>

definition conn_close :: "poller_env \<Rightarrow> addr \<Rightarrow> tcp_server \<Rightarrow> tcp_server outcome" where
  "conn_close E p s =
     rbind (conn_at p s) (\<lambda>c.
     rbind (set_conn_state p DISCONNECTING s) (\<lambda>s1.
     rbind (OnConnectionRemove E (sc_loop c) p s1) (release E p)))"

text \<open>\<open>p\<close> is the address of the new object.\<close>

definition OnNewConnection :: "poller_env \<Rightarrow> addr \<Rightarrow> addr \<Rightarrow> int \<Rightarrow> inet_address \<Rightarrow> tcp_server \<Rightarrow> tcp_server outcome" where
  "OnNewConnection E cur p fd peer s =
     rbind (dassert E (cur = sv_owner s)) (\<lambda>_.
     rbind (GetNextEventLoop E (cur = sv_owner s) (sv_pool s)) (\<lambda>(l, P).
     let c = \<lparr>sc_fd = fd, sc_loop = l, sc_name = print_u (unat (next_connect_id s)), sc_state = CONNECTING,
           sc_peer = peer, sc_callbacks = sv_callbacks s\<rparr>;
         s1 = s\<lparr>sv_pool := P, next_connect_id := next_connect_id s + 1, sv_conns := (sv_conns s)(p \<mapsto> c)\<rparr>
     in rbind (AddConnListItem E p s1) (\<lambda>(added, s2).
        if \<not> added then release E p s2
        else rbind (conn_at p s2) (\<lambda>c.
             rbind (dassert E (sc_state c = CONNECTING)) (\<lambda>_.
             rbind (run_in_loop cur l (Establish p) (conn_established E cur p) s2) (release E p))))))"

definition run_server_task :: "poller_env \<Rightarrow> addr \<Rightarrow> server_task \<Rightarrow> tcp_server \<Rightarrow> tcp_server outcome" where
  "run_server_task E l k s =
     rbind (case k of
              Establish p \<Rightarrow> conn_established E l p s
            | RemoveConn p \<Rightarrow> OnConnectionRemoveInLoop E l p s
            | Destroy p \<Rightarrow> conn_destroy E l p s)
           (release E (task_conn k))"

section \<open>Start and stop\<close>

text \<open>\<^verbatim>\<open>Acceptor::Listen\<close> of each acceptor, at once because \<^verbatim>\<open>Start\<close> runs on the owner's thread; \<open>listen_ok\<close> is the
  kernel's answer to \<^verbatim>\<open>listen\<close>.\<close>

fun Listen_all :: "(inet_address \<Rightarrow> bool) \<Rightarrow> (inet_address \<times> bool) list \<Rightarrow> (inet_address \<times> bool) list outcome" where
  "Listen_all listen_ok [] = Inr []"
| "Listen_all listen_ok ((a, l) # xs) =
     (if listen_ok a then rbind (Listen_all listen_ok xs) (\<lambda>ys. Inr ((a, True) # ys)) else Inl ProcessExit)"

definition TCPServer_Start :: "poller_env \<Rightarrow> addr \<Rightarrow> (nat \<Rightarrow> addr) \<Rightarrow> loop_sys \<Rightarrow> (inet_address \<Rightarrow> bool) \<Rightarrow> tcp_server \<Rightarrow> tcp_server outcome" where
  "TCPServer_Start E cur fresh l0 listen_ok s =
     rbind (dassert E (cur = sv_owner s)) (\<lambda>_.
     rbind (Pool_Start E (cur = sv_owner s) fresh l0 (sv_pool s)) (\<lambda>P.
     rbind (Listen_all listen_ok (acceptors s)) (\<lambda>acs.
       Inr (s\<lparr>sv_pool := P, acceptors := acs\<rparr>))))"

fun Stop_conns :: "poller_env \<Rightarrow> addr \<Rightarrow> addr option list \<Rightarrow> tcp_server \<Rightarrow> tcp_server outcome" where
  "Stop_conns E cur [] s = Inr s"
| "Stop_conns E cur (None # xs) s = Stop_conns E cur xs s"
| "Stop_conns E cur (Some p # xs) s =
     rbind (conn_at p s) (\<lambda>c.
     rbind (run_in_loop cur (sc_loop c) (Destroy p) (conn_destroy E cur p) s) (Stop_conns E cur xs))"

definition TCPServer_Stop :: "poller_env \<Rightarrow> addr \<Rightarrow> tcp_server \<Rightarrow> tcp_server outcome" where
  "TCPServer_Stop E cur s =
     rbind (dassert E (cur = sv_owner s)) (\<lambda>_.
     rbind (Pool_Stop E (cur = sv_owner s) (sv_pool s)) (\<lambda>P.
       Stop_conns E cur (tcp_conn_list s) (s\<lparr>sv_pool := P\<rparr>)))"

section \<open>Steps\<close>

text \<open>
  The steps of a started server: a new connection, with an address and a descriptor that no living
  connection has (the kernel's lowest free one, at most one doubling of the table away), on a
  pool whose counter has not overflowed; a queued call, first of its loop; a connection that closes.
\<close>

inductive server_step :: "poller_env \<Rightarrow> tcp_server \<Rightarrow> tcp_server outcome \<Rightarrow> bool" for E where
  new_conn: "sv_conns s p = None \<Longrightarrow> 0 < fd \<Longrightarrow> nat fd < 2 * length (tcp_conn_list s) \<Longrightarrow>
    (\<forall>q c. sv_conns s q = Some c \<longrightarrow> sc_fd c \<noteq> fd) \<Longrightarrow> sint (next_loop (sv_pool s)) < 2 ^ 31 - 1 \<Longrightarrow>
    server_step E s (OnNewConnection E (sv_owner s) p fd peer s)"
| call: "sv_tasks s = xs @ (l, k) # ys \<Longrightarrow> l \<notin> fst ` set xs \<Longrightarrow>
    server_step E s (run_server_task E l k (s\<lparr>sv_tasks := xs @ ys\<rparr>))"
| closed: "sv_conns s p = Some c \<Longrightarrow> sc_state c = CONNECTED \<Longrightarrow> server_step E s (conn_close E p s)"

section \<open>Invariant\<close>

definition tasks_of :: "addr \<Rightarrow> tcp_server \<Rightarrow> (addr \<times> server_task) list" where
  "tasks_of p s = filter (\<lambda>x. task_conn (snd x) = p) (sv_tasks s)"

definition in_slot :: "addr \<Rightarrow> sconn \<Rightarrow> tcp_server \<Rightarrow> bool" where
  "in_slot p c s \<longleftrightarrow> tcp_conn_list s ! nat (sc_fd c) = Some p"

definition occupied :: "addr option list \<Rightarrow> nat" where
  "occupied xs = length (filter (\<lambda>x. x \<noteq> None) xs)"

text \<open>Where a connection stands: in the table and waiting to be established, up, closed and waiting to be
  removed, or removed and waiting to be destroyed. At most one call about it is queued.\<close>

definition phase :: "tcp_server \<Rightarrow> addr \<Rightarrow> sconn \<Rightarrow> bool" where
  "phase s p c \<longleftrightarrow>
     (case sc_state c of
        CONNECTING \<Rightarrow> in_slot p c s \<and> tasks_of p s = [(sc_loop c, Establish p)]
      | CONNECTED \<Rightarrow> in_slot p c s \<and> tasks_of p s = []
      | DISCONNECTING \<Rightarrow> (in_slot p c s \<and> tasks_of p s = [(sv_owner s, RemoveConn p)]) \<or>
          (\<not> in_slot p c s \<and> tasks_of p s = [(sc_loop c, Destroy p)])
      | DISCONNECTED \<Rightarrow> False)"

definition conn_ok :: "tcp_server \<Rightarrow> addr \<Rightarrow> sconn \<Rightarrow> bool" where
  "conn_ok s p c \<longleftrightarrow> 0 < sc_fd c \<and> nat (sc_fd c) < length (tcp_conn_list s) \<and> loop_alive (sc_loop c) s \<and> phase s p c"

definition table_ok :: "tcp_server \<Rightarrow> bool" where
  "table_ok s \<longleftrightarrow> (\<forall>i p. i < length (tcp_conn_list s) \<longrightarrow> tcp_conn_list s ! i = Some p \<longrightarrow>
      (\<exists>c. sv_conns s p = Some c \<and> sc_fd c = int i)) \<and>
    tcp_conn_count s = occupied (tcp_conn_list s)"

definition server_inv :: "tcp_server \<Rightarrow> bool" where
  "server_inv s \<longleftrightarrow> table_ok s \<and> (\<forall>p c. sv_conns s p = Some c \<longrightarrow> conn_ok s p c) \<and>
     (\<forall>x \<in> set (sv_tasks s). sv_conns s (task_conn (snd x)) \<noteq> None) \<and>
     (\<forall>p q c d. sv_conns s p = Some c \<longrightarrow> sv_conns s q = Some d \<longrightarrow> sc_fd c = sc_fd d \<longrightarrow> p = q) \<and>
     (\<exists>n. pool_ok n (sv_owner s) (sv_pool s)) \<and> 0 \<le> sint (next_loop (sv_pool s)) \<and> tcp_conn_list s \<noteq> []"

lemma phase_simps:
  "sc_state c = CONNECTING \<Longrightarrow> phase s p c \<longleftrightarrow> in_slot p c s \<and> tasks_of p s = [(sc_loop c, Establish p)]"
  "sc_state c = CONNECTED \<Longrightarrow> phase s p c \<longleftrightarrow> in_slot p c s \<and> tasks_of p s = []"
  "sc_state c = DISCONNECTING \<Longrightarrow> phase s p c \<longleftrightarrow> (in_slot p c s \<and> tasks_of p s = [(sv_owner s, RemoveConn p)]) \<or>
          (\<not> in_slot p c s \<and> tasks_of p s = [(sc_loop c, Destroy p)])"
  "sc_state c = DISCONNECTED \<Longrightarrow> phase s p c \<longleftrightarrow> False"
  by (simp_all add: phase_def)

lemma occupied_set: "i < length xs \<Longrightarrow> xs ! i = None \<Longrightarrow> occupied (xs[i := Some p]) = Suc (occupied xs)"
proof (induction xs arbitrary: i)
  case (Cons x xs)
  then show ?case by (cases i) (auto simp: occupied_def)
qed simp

lemma occupied_clear: "i < length xs \<Longrightarrow> xs ! i = Some p \<Longrightarrow> Suc (occupied (xs[i := None])) = occupied xs"
proof (induction xs arbitrary: i)
  case (Cons x xs)
  then show ?case by (cases i) (auto simp: occupied_def)
qed simp

lemma occupied_resize: "length xs \<le> n \<Longrightarrow> occupied (vec_resize None xs n) = occupied xs"
  by (simp add: occupied_def vec_resize_def)

lemma Dump_conns_ok:
  assumes "\<forall>j p. (j, Some p) \<in> set xs \<longrightarrow> (\<exists>c. sv_conns s p = Some c \<and> sc_fd c = int j)"
  shows "Dump_conns E s xs n = Inr (n + occupied (map snd xs))"
  using assms
proof (induction xs arbitrary: n)
  case (Cons x xs)
  obtain i y where x: "x = (i, y)" by (cases x)
  show ?case
  proof (cases y)
    case None
    then show ?thesis using Cons x by (simp add: occupied_def)
  next
    case (Some p)
    then obtain c where "sv_conns s p = Some c" "sc_fd c = int i" using Cons.prems x by auto
    then show ?thesis using Cons x Some by (simp add: occupied_def conn_at_def)
  qed
qed (simp add: occupied_def)

lemma DumpConnections_ok:
  assumes "table_ok s"
  shows "DumpConnections E (sv_owner s) s = Inr ()"
proof -
  have "\<exists>c. sv_conns s p = Some c \<and> sc_fd c = int j" if "(j, Some p) \<in> set (enumerate 0 (tcp_conn_list s))" for j p
    using that assms by (auto simp: in_set_enumerate_eq table_ok_def)
  then have "Dump_conns E s (enumerate 0 (tcp_conn_list s)) 0 = Inr (occupied (tcp_conn_list s))"
    using Dump_conns_ok [of "enumerate 0 (tcp_conn_list s)" s E 0] by simp
  then show ?thesis using assms by (simp add: DumpConnections_def table_ok_def)
qed

lemma fd_unique:
  "server_inv s \<Longrightarrow> sv_conns s p = Some c \<Longrightarrow> \<forall>q d. q \<noteq> p \<longrightarrow> sv_conns s q = Some d \<longrightarrow> sc_fd d \<noteq> sc_fd c"
  unfolding server_inv_def by metis

text \<open>A change that concerns one connection keeps the invariant if it leaves that one well.\<close>

lemma server_inv_change:
  assumes inv: "server_inv s" and same: "sv_owner t = sv_owner s" "sv_pool t = sv_pool s"
      "length (tcp_conn_list t) = length (tcp_conn_list s)"
    and others: "\<And>q. q \<noteq> p \<Longrightarrow> sv_conns t q = sv_conns s q" "\<And>q. q \<noteq> p \<Longrightarrow> tasks_of q t = tasks_of q s"
      "\<And>i q. i < length (tcp_conn_list s) \<Longrightarrow> q \<noteq> p \<Longrightarrow> tcp_conn_list t ! i = Some q \<longleftrightarrow> tcp_conn_list s ! i = Some q"
    and one: "\<And>c. sv_conns t p = Some c \<Longrightarrow> conn_ok t p c \<and> (\<forall>q d. q \<noteq> p \<longrightarrow> sv_conns s q = Some d \<longrightarrow> sc_fd d \<noteq> sc_fd c)"
    and tab: "table_ok t" and tsk: "tasks_of p t \<noteq> [] \<Longrightarrow> sv_conns t p \<noteq> None"
  shows "server_inv t"
proof -
  have "conn_ok t q c" if "sv_conns t q = Some c" for q c
  proof (cases "q = p")
    case False
    then have k: "conn_ok s q c" using that others(1) inv by (simp add: server_inv_def)
    then have "in_slot q c t \<longleftrightarrow> in_slot q c s" using others(3) [OF _ False] by (simp add: in_slot_def conn_ok_def)
    then have "phase t q c \<longleftrightarrow> phase s q c" using others(2) [OF False] same(1)
      by (cases "sc_state c") (simp_all add: phase_simps)
    then show ?thesis using k same by (simp add: conn_ok_def loop_alive_def)
  qed (use one that in simp)
  moreover have "sv_conns t (task_conn (snd x)) \<noteq> None" if "x \<in> set (sv_tasks t)" for x
  proof (cases "task_conn (snd x) = p")
    case True
    have "x \<in> set (tasks_of p t)" using that True by (simp add: tasks_of_def)
    then show ?thesis using tsk True by (metis empty_iff list.set(1))
  next
    case False
    have "x \<in> set (tasks_of (task_conn (snd x)) t)" using that by (simp add: tasks_of_def)
    then have "x \<in> set (tasks_of (task_conn (snd x)) s)" using others(2) [OF False] by simp
    then have "x \<in> set (sv_tasks s)" by (simp add: tasks_of_def)
    then show ?thesis using inv others(1) [OF False] by (simp add: server_inv_def)
  qed
  moreover have "a = b" if ab: "sv_conns t a = Some c" "sv_conns t b = Some d" "sc_fd c = sc_fd d" for a b c d
  proof (cases "a = p \<or> b = p")
    case True
    then show ?thesis using ab one others(1) by metis
  next
    case False
    then have "sv_conns s a = Some c" "sv_conns s b = Some d" using ab others(1) by simp_all
    then show ?thesis using inv ab(3) unfolding server_inv_def by blast
  qed
  ultimately show ?thesis using inv tab same unfolding server_inv_def by auto
qed

lemma task_conn_facts:
  assumes "server_inv s" and "sv_tasks s = xs @ (l, k) # ys"
  obtains c where "sv_conns s (task_conn k) = Some c" "conn_ok s (task_conn k) c" "tasks_of (task_conn k) s = [(l, k)]"
    "tasks_of (task_conn k) (s\<lparr>sv_tasks := xs @ ys\<rparr>) = []"
    "\<And>q. q \<noteq> task_conn k \<Longrightarrow> tasks_of q (s\<lparr>sv_tasks := xs @ ys\<rparr>) = tasks_of q s"
proof -
  obtain c where c: "sv_conns s (task_conn k) = Some c" "conn_ok s (task_conn k) c"
    using assms by (auto simp: server_inv_def)
  have m: "(l, k) \<in> set (tasks_of (task_conn k) s)" using assms(2) by (simp add: tasks_of_def)
  have "length (tasks_of (task_conn k) s) \<le> 1"
    using c(2) by (auto simp: conn_ok_def phase_def split: conn_state.splits)
  then have one: "tasks_of (task_conn k) s = [(l, k)]" using m by (cases "tasks_of (task_conn k) s") auto
  have "tasks_of (task_conn k) (s\<lparr>sv_tasks := xs @ ys\<rparr>) = []"
    using one assms(2) by (auto simp: tasks_of_def append_eq_Cons_conv)
  moreover have "tasks_of q (s\<lparr>sv_tasks := xs @ ys\<rparr>) = tasks_of q s" if "q \<noteq> task_conn k" for q
    using that assms(2) by (simp add: tasks_of_def)
  ultimately show ?thesis using that c one by blast
qed

lemma not_in_list:
  assumes "server_inv s" and "sv_conns s p = Some c" and "\<not> in_slot p c s"
  shows "Some p \<notin> set (tcp_conn_list s)"
proof
  assume "Some p \<in> set (tcp_conn_list s)"
  then obtain i where i: "i < length (tcp_conn_list s)" "tcp_conn_list s ! i = Some p" by (auto simp: in_set_conv_nth)
  then have "sc_fd c = int i" using assms(1,2) by (auto simp: server_inv_def table_ok_def)
  then show False using i assms(3) by (simp add: in_slot_def)
qed

lemma referenced_iff: "referenced p s \<longleftrightarrow> Some p \<in> set (tcp_conn_list s) \<or> tasks_of p s \<noteq> []"
  by (auto simp: referenced_def tasks_of_def filter_empty_conv image_iff)

section \<open>Every step is safe\<close>

lemma conn_at_Some [simp]: "sv_conns s p = Some c \<Longrightarrow> conn_at p s = Inr c"
  by (simp add: conn_at_def)

lemma server_inv_conn: "server_inv s \<Longrightarrow> sv_conns s p = Some c \<Longrightarrow> conn_ok s p c"
  by (simp add: server_inv_def)

text \<open>The state after a connection has left the table.\<close>

definition taken_out :: "sconn \<Rightarrow> tcp_server \<Rightarrow> tcp_server" where
  "taken_out c s = s\<lparr>tcp_conn_list := (tcp_conn_list s)[nat (sc_fd c) := None], tcp_conn_count := tcp_conn_count s - 1\<rparr>"

lemma DelConnListItem_eq:
  assumes "table_ok s" and "sv_conns s p = Some c" and "0 < sc_fd c" and "nat (sc_fd c) < length (tcp_conn_list s)"
    and "in_slot p c s"
  shows "DelConnListItem E p s = Inr (taken_out c s)"
    and "table_ok (taken_out c s)" and "Some p \<notin> set (tcp_conn_list (taken_out c s))"
    and "i < length (tcp_conn_list s) \<Longrightarrow> q \<noteq> p \<Longrightarrow> tcp_conn_list (taken_out c s) ! i = Some q \<longleftrightarrow> tcp_conn_list s ! i = Some q"
proof -
  have slot: "tcp_conn_list s ! nat (sc_fd c) = Some p" using assms(5) by (simp add: in_slot_def)
  have occ: "Suc (occupied ((tcp_conn_list s)[nat (sc_fd c) := None])) = tcp_conn_count s"
    using occupied_clear [OF assms(4) slot] assms(1) by (simp add: table_ok_def)
  then have "size_dec (tcp_conn_count s) = tcp_conn_count s - 1" by (auto simp: size_dec_def)
  then show "DelConnListItem E p s = Inr (taken_out c s)"
    using assms slot by (simp add: DelConnListItem_def taken_out_def)
  show "table_ok (taken_out c s)" using assms(1) occ
    by (auto simp: table_ok_def taken_out_def nth_update_None)
  show "Some p \<notin> set (tcp_conn_list (taken_out c s))"
  proof
    assume "Some p \<in> set (tcp_conn_list (taken_out c s))"
    then obtain i where i: "i < length (tcp_conn_list s)" "nat (sc_fd c) \<noteq> i" "tcp_conn_list s ! i = Some p"
      by (auto simp: in_set_conv_nth taken_out_def nth_update_None)
    then have "sc_fd c = int i" using assms(1,2) by (auto simp: table_ok_def)
    then show False using i(2) by simp
  qed
  show "tcp_conn_list (taken_out c s) ! i = Some q \<longleftrightarrow> tcp_conn_list s ! i = Some q"
    if "i < length (tcp_conn_list s)" "q \<noteq> p" for i q
    using that slot by (auto simp: taken_out_def nth_update_None)
qed

lemma OnConnectionRemoveInLoop_eq:
  assumes "table_ok s" and "sv_conns s p = Some c" and "0 < sc_fd c" and "nat (sc_fd c) < length (tcp_conn_list s)"
    and "in_slot p c s" and "loop_alive (sc_loop c) s"
  shows "OnConnectionRemoveInLoop E (sv_owner s) p s = Inr
    (if sc_loop c = sv_owner s
     then (taken_out c s)\<lparr>sv_conns := (sv_conns s)(p \<mapsto> c\<lparr>sc_state := DISCONNECTED\<rparr>)\<rparr>
     else (taken_out c s)\<lparr>sv_tasks := sv_tasks s @ [(sc_loop c, Destroy p)]\<rparr>)" (is "_ = Inr ?t")
proof -
  let ?s = "taken_out c s"
  note d = DelConnListItem_eq [OF assms(1-5)]
  have f: "sv_conns ?s = sv_conns s" "sv_owner ?s = sv_owner s" "sv_pool ?s = sv_pool s" "sv_tasks ?s = sv_tasks s"
    by (simp_all add: taken_out_def)
  have run: "run_in_loop (sv_owner s) (sc_loop c) (Destroy p) (conn_destroy E (sv_owner s) p) ?s = Inr ?t"
    using assms(2,6) f by (auto simp: run_in_loop_def loop_alive_def conn_destroy_def set_conn_state_def)
  have "table_ok ?t"
  proof (cases "sc_loop c = sv_owner s")
    case True
    then show ?thesis using d(2) assms(2) by (auto simp: table_ok_def taken_out_def)
  next
    case False
    then show ?thesis using d(2) by (simp add: table_ok_def)
  qed
  moreover have "sv_owner ?t = sv_owner s" using f by simp
  ultimately have "DumpConnections E (sv_owner s) ?t = Inr ()" using DumpConnections_ok by metis
  then show ?thesis using d(1) run assms(2) f by (simp add: OnConnectionRemoveInLoop_def)
qed

text \<open>A removed connection with no call left is destroyed, in the state its destructor asserts.\<close>

lemma release_dead:
  assumes "sv_conns s p = Some c" and "sc_state c = DISCONNECTED" and "Some p \<notin> set (tcp_conn_list s)" and "tasks_of p s = []"
  shows "release E p s = Inr (s\<lparr>sv_conns := (sv_conns s)(p := None)\<rparr>)"
  using assms by (simp add: release_def referenced_iff)

lemma release_live: "tasks_of p s \<noteq> [] \<or> Some p \<in> set (tcp_conn_list s) \<Longrightarrow> release E p s = Inr s"
  by (auto simp: release_def referenced_iff)

text \<open>Removal of a closed connection: \<open>s\<close> is the state in which no call about it is queued.\<close>

lemma removal_ok:
  assumes inv: "server_inv s0" and c: "sv_conns s0 p = Some c0" "in_slot p c0 s0" and c': "c = c0\<lparr>sc_state := DISCONNECTING\<rparr>"
    and s: "s = s0\<lparr>sv_conns := (sv_conns s0)(p \<mapsto> c), sv_tasks := ts\<rparr>" and ts: "tasks_of p s = []"
      "\<And>q. q \<noteq> p \<Longrightarrow> tasks_of q s = tasks_of q s0"
  shows "succeeds (rbind (OnConnectionRemoveInLoop E (sv_owner s) p s) (release E p)) server_inv"
proof -
  have ok0: "conn_ok s0 p c0" using inv c(1) by (rule server_inv_conn)
  have cs: "sv_conns s p = Some c" "0 < sc_fd c" "nat (sc_fd c) < length (tcp_conn_list s)" "in_slot p c s" "loop_alive (sc_loop c) s"
    using ok0 c c' s by (simp_all add: conn_ok_def in_slot_def loop_alive_def)
  have tab: "table_ok s" using inv c c' s by (auto simp: server_inv_def table_ok_def)
  note d = DelConnListItem_eq [OF tab cs(1-4)]
  note r = OnConnectionRemoveInLoop_eq [OF tab cs, of E]
  have oth: "sv_conns s q = sv_conns s0 q" if "q \<noteq> p" for q using that s by simp
  have len: "length (tcp_conn_list (taken_out c s)) = length (tcp_conn_list s0)" "length (tcp_conn_list s) = length (tcp_conn_list s0)"
    "sv_owner s = sv_owner s0" "sv_pool s = sv_pool s0" "tcp_conn_list s = tcp_conn_list s0"
    by (simp_all add: taken_out_def s)
  show ?thesis
  proof (cases "sc_loop c = sv_owner s")
    case True
    let ?t = "(taken_out c s)\<lparr>sv_conns := (sv_conns s)(p \<mapsto> c\<lparr>sc_state := DISCONNECTED\<rparr>)\<rparr>"
    have "release E p ?t = Inr (?t\<lparr>sv_conns := (sv_conns ?t)(p := None)\<rparr>)"
      by (rule release_dead [where c = "c\<lparr>sc_state := DISCONNECTED\<rparr>"]) (use d(3) ts(1) in \<open>simp_all add: tasks_of_def taken_out_def\<close>)
    moreover have "server_inv (?t\<lparr>sv_conns := (sv_conns ?t)(p := None)\<rparr>)"
    proof (rule server_inv_change [OF inv, where p = p])
      show "table_ok (?t\<lparr>sv_conns := (sv_conns ?t)(p := None)\<rparr>)" using d(2,3)
        by (auto simp: table_ok_def taken_out_def in_set_conv_nth)
    qed (use len oth ts d(4) in \<open>auto simp: tasks_of_def taken_out_def\<close>)
    ultimately show ?thesis using r True by simp
  next
    case False
    let ?t = "(taken_out c s)\<lparr>sv_tasks := sv_tasks s @ [(sc_loop c, Destroy p)]\<rparr>"
    have tt: "tasks_of p ?t = [(sc_loop c, Destroy p)]" "\<And>q. q \<noteq> p \<Longrightarrow> tasks_of q ?t = tasks_of q s"
      using ts(1) by (simp_all add: tasks_of_def)
    have "\<not> in_slot p c ?t" using d(3) cs(3) by (auto simp: in_slot_def taken_out_def)
    then have "conn_ok ?t p c" using cs tt(1) c'
      by (simp add: conn_ok_def phase_simps loop_alive_def taken_out_def)
    have one: "conn_ok ?t p x \<and> (\<forall>q d. q \<noteq> p \<longrightarrow> sv_conns s0 q = Some d \<longrightarrow> sc_fd d \<noteq> sc_fd x)" if "sv_conns ?t p = Some x" for x
    proof -
      have "x = c" using that cs(1) by (simp add: taken_out_def)
      moreover have "sc_fd c = sc_fd c0" using c' by simp
      ultimately have "x = c" "sc_fd c = sc_fd c0" by simp_all
      then show ?thesis using \<open>conn_ok ?t p c\<close> fd_unique [OF inv c(1)] by simp
    qed
    have "server_inv ?t"
      by (rule server_inv_change [OF inv _ _ _ _ _ _ one])
        (use len oth ts tt d(2,4) cs(1) in \<open>auto simp: taken_out_def table_ok_def\<close>)
    moreover have "release E p ?t = Inr ?t" by (rule release_live) (simp add: tt(1))
    ultimately show ?thesis using r False by simp
  qed
qed

lemma in_slot_set: "in_slot p c s \<Longrightarrow> nat (sc_fd c) < length (tcp_conn_list s) \<Longrightarrow> Some p \<in> set (tcp_conn_list s)"
  unfolding in_slot_def by (metis nth_mem)

lemma establish_ok:
  assumes inv: "server_inv s" and q: "sv_tasks s = xs @ (l, Establish p) # ys"
  shows "succeeds (run_server_task E l (Establish p) (s\<lparr>sv_tasks := xs @ ys\<rparr>)) server_inv"
proof -
  let ?s = "s\<lparr>sv_tasks := xs @ ys\<rparr>"
  obtain c where c: "sv_conns s p = Some c" "conn_ok s p c" "tasks_of p s = [(l, Establish p)]" "tasks_of p ?s = []"
      "\<And>q. q \<noteq> p \<Longrightarrow> tasks_of q ?s = tasks_of q s"
    using task_conn_facts [OF inv q] by auto
  then have st: "sc_state c = CONNECTING" "in_slot p c s" "sc_loop c = l"
    by (auto simp: conn_ok_def phase_def split: conn_state.splits)
  let ?c = "c\<lparr>sc_state := CONNECTED\<rparr>"
  let ?t = "?s\<lparr>sv_conns := (sv_conns s)(p \<mapsto> ?c)\<rparr>"
  have tk: "tasks_of q ?t = tasks_of q ?s" for q by (simp add: tasks_of_def)
  have "conn_ok ?t p ?c" using c(2,4) st tk [of p] by (simp add: conn_ok_def phase_simps in_slot_def loop_alive_def)
  then have one: "conn_ok ?t p x \<and> (\<forall>q d. q \<noteq> p \<longrightarrow> sv_conns s q = Some d \<longrightarrow> sc_fd d \<noteq> sc_fd x)" if "sv_conns ?t p = Some x" for x
    using that fd_unique [OF inv c(1)] by auto
  have "table_ok ?t" using inv c(1) by (auto simp: server_inv_def table_ok_def)
  then have "server_inv ?t" by (intro server_inv_change [OF inv _ _ _ _ _ _ one]) (use tk c(5) in auto)
  moreover have "release E p ?t = Inr ?t" using in_slot_set [OF st(2)] c(2) by (intro release_live) (simp add: conn_ok_def)
  ultimately show ?thesis using c(1) st(3) by (simp add: run_server_task_def conn_established_def set_conn_state_def)
qed

lemma remove_call_ok:
  assumes inv: "server_inv s" and q: "sv_tasks s = xs @ (l, RemoveConn p) # ys"
  shows "succeeds (run_server_task E l (RemoveConn p) (s\<lparr>sv_tasks := xs @ ys\<rparr>)) server_inv"
proof -
  let ?s = "s\<lparr>sv_tasks := xs @ ys\<rparr>"
  obtain c where c: "sv_conns s p = Some c" "conn_ok s p c" "tasks_of p s = [(l, RemoveConn p)]" "tasks_of p ?s = []"
      "\<And>q. q \<noteq> p \<Longrightarrow> tasks_of q ?s = tasks_of q s"
    using task_conn_facts [OF inv q] by auto
  then have st: "sc_state c = DISCONNECTING" "in_slot p c s" "l = sv_owner s"
    by (auto simp: conn_ok_def phase_def split: conn_state.splits)
  have "c = c\<lparr>sc_state := DISCONNECTING\<rparr>" using st(1) by simp
  moreover have "?s = s\<lparr>sv_conns := (sv_conns s)(p \<mapsto> c), sv_tasks := xs @ ys\<rparr>" using c(1) by (simp add: fun_upd_idem)
  ultimately have "succeeds (rbind (OnConnectionRemoveInLoop E (sv_owner ?s) p ?s) (release E p)) server_inv"
    using removal_ok [OF inv c(1) st(2)] c(4,5) by blast
  then show ?thesis using st(3) by (simp add: run_server_task_def)
qed

lemma destroy_call_ok:
  assumes inv: "server_inv s" and q: "sv_tasks s = xs @ (l, Destroy p) # ys"
  shows "succeeds (run_server_task E l (Destroy p) (s\<lparr>sv_tasks := xs @ ys\<rparr>)) server_inv"
proof -
  let ?s = "s\<lparr>sv_tasks := xs @ ys\<rparr>"
  obtain c where c: "sv_conns s p = Some c" "conn_ok s p c" "tasks_of p s = [(l, Destroy p)]" "tasks_of p ?s = []"
      "\<And>q. q \<noteq> p \<Longrightarrow> tasks_of q ?s = tasks_of q s"
    using task_conn_facts [OF inv q] by auto
  then have st: "sc_state c = DISCONNECTING" "\<not> in_slot p c s" "l = sc_loop c"
    by (auto simp: conn_ok_def phase_def split: conn_state.splits)
  note nl = not_in_list [OF inv c(1) st(2)]
  let ?t = "?s\<lparr>sv_conns := (sv_conns s)(p \<mapsto> c\<lparr>sc_state := DISCONNECTED\<rparr>)\<rparr>"
  have tk: "tasks_of q (u\<lparr>sv_conns := x\<rparr>) = tasks_of q u" for q u x by (simp add: tasks_of_def)
  have "release E p ?t = Inr (?t\<lparr>sv_conns := (sv_conns ?t)(p := None)\<rparr>)"
    by (rule release_dead [where c = "c\<lparr>sc_state := DISCONNECTED\<rparr>"]) (use nl tk c(4) in simp_all)
  moreover have "table_ok (?t\<lparr>sv_conns := (sv_conns ?t)(p := None)\<rparr>)"
    using inv nl by (auto simp: server_inv_def table_ok_def in_set_conv_nth)
  then have "server_inv (?t\<lparr>sv_conns := (sv_conns ?t)(p := None)\<rparr>)"
    by (intro server_inv_change [OF inv, where p = p]) (use tk c(4,5) in auto)
  ultimately show ?thesis using c(1) st(3) by (simp add: run_server_task_def conn_destroy_def set_conn_state_def)
qed

lemma conn_close_ok:
  assumes inv: "server_inv s" and c: "sv_conns s p = Some c" "sc_state c = CONNECTED"
  shows "succeeds (conn_close E p s) server_inv"
proof -
  have ok: "conn_ok s p c" "in_slot p c s" "tasks_of p s = []"
    using server_inv_conn [OF inv c(1)] c(2) by (simp_all add: conn_ok_def phase_simps)
  let ?c = "c\<lparr>sc_state := DISCONNECTING\<rparr>"
  let ?s = "s\<lparr>sv_conns := (sv_conns s)(p \<mapsto> ?c)\<rparr>"
  have tk: "tasks_of q ?s = tasks_of q s" for q by (simp add: tasks_of_def)
  have eq: "conn_close E p s = rbind (OnConnectionRemove E (sc_loop c) p ?s) (release E p)"
    using c(1) by (simp add: conn_close_def set_conn_state_def)
  show ?thesis
  proof (cases "sc_loop c = sv_owner s")
    case True
    have "succeeds (rbind (OnConnectionRemoveInLoop E (sv_owner ?s) p ?s) (release E p)) server_inv"
      by (rule removal_ok [OF inv c(1) ok(2) HOL.refl, where ts = "sv_tasks s"]) (use tk ok(3) in simp_all)
    then show ?thesis using eq True by (simp add: OnConnectionRemove_def run_in_loop_def loop_alive_def)
  next
    case False
    let ?t = "?s\<lparr>sv_tasks := sv_tasks s @ [(sv_owner s, RemoveConn p)]\<rparr>"
    have tt: "tasks_of p ?t = [(sv_owner s, RemoveConn p)]" "\<And>q. q \<noteq> p \<Longrightarrow> tasks_of q ?t = tasks_of q s"
      using ok(3) by (simp_all add: tasks_of_def)
    have "conn_ok ?t p ?c" using ok tt(1) by (simp add: conn_ok_def phase_simps in_slot_def loop_alive_def)
    then have one: "conn_ok ?t p x \<and> (\<forall>q d. q \<noteq> p \<longrightarrow> sv_conns s q = Some d \<longrightarrow> sc_fd d \<noteq> sc_fd x)" if "sv_conns ?t p = Some x" for x
      using that fd_unique [OF inv c(1)] by auto
    have "table_ok ?t" using inv c(1) by (auto simp: server_inv_def table_ok_def)
    then have "server_inv ?t" by (intro server_inv_change [OF inv _ _ _ _ _ _ one]) (use tt in auto)
    moreover have "release E p ?t = Inr ?t" by (rule release_live) (simp add: tt(1))
    ultimately show ?thesis using eq False by (simp add: OnConnectionRemove_def run_in_loop_def loop_alive_def)
  qed
qed

lemma vec_resize_id: "vec_resize d xs (length xs) = xs"
  by (simp add: vec_resize_def)

lemma next_loop_ok:
  assumes "pool_ok n owner P" and "0 \<le> sint (next_loop P)" and "sint (next_loop P) < 2 ^ 31 - 1"
  obtains l Q where "GetNextEventLoop E True P = Inr (l, Q)" "l = owner \<or> l \<in> set (pool_loops P)" "pool_ok n owner Q"
    "pool_loops Q = pool_loops P" "0 \<le> sint (next_loop Q)"
proof (cases "n = 0")
  case True
  then show ?thesis using that [of owner P] GetNext_main [of owner P E] assms by simp
next
  case False
  then have n: "0 < n" by simp
  have j: "sint (next_loop P) = int (nat (sint (next_loop P)))" using assms(2) by simp
  have w: "next_loop P = of_nat (nat (sint (next_loop P)))"
    using assms(2) by (simp add: of_nat_nat)
  have "next_loop P + 1 = of_nat (Suc (nat (sint (next_loop P))))" by (subst w) simp
  moreover have "Suc (nat (sint (next_loop P))) < 2 ^ 31" using assms(2,3) by (simp add: nat_less_iff)
  ultimately have "sint (next_loop P + 1) = int (Suc (nat (sint (next_loop P))))"
    using sint_of_small [of "Suc (nat (sint (next_loop P)))"] by (simp only:)
  then have "0 \<le> sint (next_loop P + 1)" by simp
  moreover have "nat (sint (next_loop P)) mod n < length (pool_loops P)" using assms(1) n by (simp add: pool_ok_def)
  ultimately show ?thesis using that [OF GetNext_nth [OF assms(1) n j]] assms(1) by (simp add: pool_ok_def)
qed

text \<open>Preparations for a new connection: the pool's counter and the size of the table.\<close>

lemma server_inv_prepare:
  assumes inv: "server_inv s" and "pool_ok n (sv_owner s) Q" and "pool_loops Q = pool_loops (sv_pool s)" and "0 \<le> sint (next_loop Q)"
    and "length (tcp_conn_list s) \<le> m"
  shows "server_inv (s\<lparr>sv_pool := Q, next_connect_id := k, tcp_conn_list := vec_resize None (tcp_conn_list s) m\<rparr>)" (is "server_inv ?t")
proof -
  have nth: "i < m \<Longrightarrow> tcp_conn_list ?t ! i = (if i < length (tcp_conn_list s) then tcp_conn_list s ! i else None)" for i
    by (simp add: nth_vec_resize)
  have run: "pool_running Q" "pool_running (sv_pool s)" using assms(2) inv by (auto simp: server_inv_def pool_ok_def)
  have "conn_ok ?t p c" if "sv_conns s p = Some c" for p c
  proof -
    have k: "conn_ok s p c" using inv that by (rule server_inv_conn)
    then have "nat (sc_fd c) < m" using assms(5) by (simp add: conn_ok_def)
    then have "in_slot p c ?t \<longleftrightarrow> in_slot p c s" using k nth by (simp add: in_slot_def conn_ok_def)
    then have "phase ?t p c \<longleftrightarrow> phase s p c" by (cases "sc_state c") (simp_all add: phase_simps tasks_of_def)
    then show ?thesis using k assms(3,5) run by (simp add: conn_ok_def loop_alive_def)
  qed
  moreover have "table_ok ?t" using inv nth assms(5)
    by (auto simp: server_inv_def table_ok_def occupied_resize split: if_splits)
  moreover have "tcp_conn_list ?t \<noteq> []" using inv assms(5) by (auto simp: server_inv_def vec_resize_def)
  ultimately show ?thesis using inv assms(2,4) by (auto simp: server_inv_def)
qed

text \<open>The slot of a descriptor that no connection has is free, and a new connection may be entered there.\<close>

lemma slot_free:
  assumes "server_inv s" and "0 < fd" and "nat fd < length (tcp_conn_list s)" and "\<forall>q c. sv_conns s q = Some c \<longrightarrow> sc_fd c \<noteq> fd"
  shows "tcp_conn_list s ! nat fd = None"
proof (rule ccontr)
  assume "tcp_conn_list s ! nat fd \<noteq> None"
  then obtain q where "tcp_conn_list s ! nat fd = Some q" by auto
  moreover have "table_ok s" using assms(1) by (simp add: server_inv_def)
  ultimately have "\<exists>d. sv_conns s q = Some d \<and> sc_fd d = int (nat fd)" using assms(3) unfolding table_ok_def by blast
  then show False using assms(2,4) by auto
qed

lemma server_inv_add:
  assumes inv: "server_inv s" and p: "sv_conns s p = None" and fd: "0 < fd" "nat fd < length (tcp_conn_list s)"
      "\<forall>q c. sv_conns s q = Some c \<longrightarrow> sc_fd c \<noteq> fd" and d: "sc_fd d = fd"
    and t: "t = s\<lparr>sv_conns := (sv_conns s)(p \<mapsto> d), tcp_conn_list := (tcp_conn_list s)[nat fd := Some p],
        tcp_conn_count := tcp_conn_count s + 1, sv_tasks := x\<rparr>"
    and "conn_ok t p d" and x: "\<And>q. q \<noteq> p \<Longrightarrow> filter (\<lambda>y. task_conn (snd y) = q) x = tasks_of q s"
  shows "server_inv t"
proof -
  note free = slot_free [OF inv fd]
  have "\<exists>e. ((sv_conns s)(p \<mapsto> d)) q = Some e \<and> sc_fd e = int i"
    if "i < length (tcp_conn_list s)" "(tcp_conn_list s)[nat fd := Some p] ! i = Some q" for i q
  proof (cases "i = nat fd")
    case True
    then show ?thesis using that d fd(1,2) by simp
  next
    case False
    then have "\<exists>e. sv_conns s q = Some e \<and> sc_fd e = int i" using that inv by (simp add: server_inv_def table_ok_def)
    then show ?thesis using p by auto
  qed
  moreover have "tcp_conn_count s + 1 = occupied ((tcp_conn_list s)[nat fd := Some p])"
    using inv fd(2) free by (simp add: server_inv_def table_ok_def occupied_set)
  ultimately have tab: "table_ok t" by (simp add: table_ok_def t)
  show ?thesis
  proof (rule server_inv_change [OF inv, where p = p])
    fix i q assume "i < length (tcp_conn_list s)" "q \<noteq> p"
    then show "tcp_conn_list t ! i = Some q \<longleftrightarrow> tcp_conn_list s ! i = Some q" using free fd(2) by (cases "i = nat fd") (simp_all add: t)
  qed (use assms(8) x tab d fd(3) in \<open>auto simp: tasks_of_def t\<close>)
qed

lemma OnNewConnection_ok:
  assumes inv: "server_inv s" and p: "sv_conns s p = None" and fd: "0 < fd" "nat fd < 2 * length (tcp_conn_list s)"
      "\<forall>q c. sv_conns s q = Some c \<longrightarrow> sc_fd c \<noteq> fd" and small: "sint (next_loop (sv_pool s)) < 2 ^ 31 - 1"
  shows "succeeds (OnNewConnection E (sv_owner s) p fd peer s) (\<lambda>t. server_inv t \<and> (\<exists>c. sv_conns t p = Some c \<and> sc_fd c = fd))"
proof -
  obtain n where n: "pool_ok n (sv_owner s) (sv_pool s)" "0 \<le> sint (next_loop (sv_pool s))" using inv by (auto simp: server_inv_def)
  obtain l Q where g: "GetNextEventLoop E True (sv_pool s) = Inr (l, Q)" "l = sv_owner s \<or> l \<in> set (pool_loops (sv_pool s))"
      "pool_ok n (sv_owner s) Q" "pool_loops Q = pool_loops (sv_pool s)" "0 \<le> sint (next_loop Q)"
    by (rule next_loop_ok [OF n small])
  define m where "m = (if length (tcp_conn_list s) \<le> nat fd then length (tcp_conn_list s) * 2 else length (tcp_conn_list s))"
  have m: "length (tcp_conn_list s) \<le> m" "nat fd < m" using fd(2) by (auto simp: m_def)
  let ?lst = "vec_resize None (tcp_conn_list s) m"
  let ?s1 = "s\<lparr>sv_pool := Q, next_connect_id := next_connect_id s + 1, tcp_conn_list := ?lst\<rparr>"
  have inv1: "server_inv ?s1" by (rule server_inv_prepare [OF inv g(3-5) m(1)])
  define c where "c = \<lparr>sc_fd = fd, sc_loop = l, sc_name = print_u (unat (next_connect_id s)), sc_state = CONNECTING,
           sc_peer = peer, sc_callbacks = sv_callbacks s\<rparr>"
  let ?t = "\<lambda>d x. ?s1\<lparr>sv_conns := (sv_conns s)(p \<mapsto> d), tcp_conn_list := ?lst[nat fd := Some p], tcp_conn_count := tcp_conn_count s + 1, sv_tasks := x\<rparr>"
  have "?lst ! nat fd = None" using slot_free [OF inv1 fd(1)] m(2) fd(3) by simp
  then have add: "AddConnListItem E p (s\<lparr>sv_pool := Q, next_connect_id := next_connect_id s + 1, sv_conns := (sv_conns s)(p \<mapsto> c)\<rparr>)
      = Inr (True, ?t c (sv_tasks s))"
    by (cases "length (tcp_conn_list s) \<le> nat fd")
      (use m(2) fd(1) in \<open>simp_all add: AddConnListItem_def c_def Let_def m_def vec_resize_id\<close>)
  have nt: "tasks_of p s = []" using inv p by (auto simp: server_inv_def tasks_of_def filter_empty_conv)
  have run: "pool_running Q" "pool_running (sv_pool s)" using g(3) n(1) by (simp_all add: pool_ok_def)
  have inv2: "server_inv (?t d x) \<and> release E p (?t d x) = Inr (?t d x)" if "sc_fd d = fd" "conn_ok (?t d x) p d"
      "\<And>q. q \<noteq> p \<Longrightarrow> filter (\<lambda>y. task_conn (snd y) = q) x = tasks_of q s" for d x
  proof
    show "server_inv (?t d x)" by (rule server_inv_add [OF inv1, of p fd d _ x]) (use that p fd(1,3) m(2) in \<open>simp_all add: tasks_of_def\<close>)
    have "Some p \<in> set (?lst[nat fd := Some p])" using m(2) by (intro set_update_memI) simp
    then show "release E p (?t d x) = Inr (?t d x)" by (intro release_live) simp
  qed
  have eq: "OnNewConnection E (sv_owner s) p fd peer s =
      rbind (run_in_loop (sv_owner s) l (Establish p) (conn_established E (sv_owner s) p) (?t c (sv_tasks s))) (release E p)"
    using g(1) add by (simp add: OnNewConnection_def c_def)
  note ok = conn_ok_def phase_simps c_def tasks_of_def in_slot_def loop_alive_def
  show ?thesis
  proof (cases "l = sv_owner s")
    case True
    let ?d = "c\<lparr>sc_state := CONNECTED\<rparr>"
    have "conn_ok (?t ?d (sv_tasks s)) p ?d" using g(2,4) run nt m(2) fd(1) by (auto simp: ok)
    then have "server_inv (?t ?d (sv_tasks s)) \<and> release E p (?t ?d (sv_tasks s)) = Inr (?t ?d (sv_tasks s))"
      by (intro inv2) (simp_all add: c_def tasks_of_def)
    moreover have "run_in_loop (sv_owner s) l (Establish p) (conn_established E (sv_owner s) p) (?t c (sv_tasks s)) = Inr (?t ?d (sv_tasks s))"
      using True by (simp add: run_in_loop_def loop_alive_def conn_established_def set_conn_state_def c_def)
    ultimately show ?thesis unfolding eq by (simp add: c_def)
  next
    case False
    let ?x = "sv_tasks s @ [(l, Establish p)]"
    have "conn_ok (?t c ?x) p c" using g(2,4) run nt m(2) fd(1) by (auto simp: ok)
    then have "server_inv (?t c ?x) \<and> release E p (?t c ?x) = Inr (?t c ?x)" by (intro inv2) (simp_all add: c_def tasks_of_def)
    moreover have "run_in_loop (sv_owner s) l (Establish p) (conn_established E (sv_owner s) p) (?t c (sv_tasks s)) = Inr (?t c ?x)"
      using False g(2,4) run by (simp add: run_in_loop_def loop_alive_def)
    ultimately show ?thesis unfolding eq by (simp add: c_def)
  qed
qed

lemma server_step_ok:
  assumes "server_step E s r" and "server_inv s"
  shows "succeeds r server_inv"
  using assms(1)
proof cases
  case (new_conn p fd peer)
  then show ?thesis using succeeds_mono [OF OnNewConnection_ok [OF assms(2)]] by simp
next
  case (call xs l k ys)
  then show ?thesis using assms(2) by (cases k) (simp_all add: establish_ok remove_call_ok destroy_call_ok)
next
  case (closed p c)
  then show ?thesis using conn_close_ok [OF assms(2)] by simp
qed

inductive server_reach :: "poller_env \<Rightarrow> tcp_server \<Rightarrow> bool" for E where
  started: "TCPServer_Start E owner fresh l0 listen_ok (set_event_loop_nums nums (TCPServer_ctor owner addresses)) = Inr s \<Longrightarrow>
    0 \<le> sint nums \<Longrightarrow> server_reach E s"
| callbacks: "server_reach E s \<Longrightarrow> server_reach E (s\<lparr>sv_callbacks := cbs\<rparr>)"
| reached: "server_reach E s \<Longrightarrow> server_step E s (Inr s') \<Longrightarrow> server_reach E s'"

lemma Listen_all_eq: "(\<forall>x \<in> set xs. ok (fst x)) \<Longrightarrow> Listen_all ok xs = Inr (map (\<lambda>x. (fst x, True)) xs)"
  by (induction ok xs rule: Listen_all.induct) simp_all

text \<open>The invariant does not depend on the callbacks and the acceptors.\<close>

lemma conn_ok_members [simp]:
  "conn_ok (s\<lparr>sv_callbacks := cbs\<rparr>) p c \<longleftrightarrow> conn_ok s p c"
  "conn_ok (s\<lparr>acceptors := acs\<rparr>) p c \<longleftrightarrow> conn_ok s p c"
  by (cases "sc_state c"; simp add: conn_ok_def phase_simps in_slot_def tasks_of_def loop_alive_def)+

lemma server_inv_members [simp]:
  "server_inv (s\<lparr>sv_callbacks := cbs\<rparr>) \<longleftrightarrow> server_inv s"
  "server_inv (s\<lparr>acceptors := acs\<rparr>) \<longleftrightarrow> server_inv s"
  by (simp_all add: server_inv_def table_ok_def)

text \<open>\<^verbatim>\<open>Start\<close> either ends the process, because an acceptor cannot listen, or starts the server.\<close>

lemma TCPServer_Start_cases:
  assumes "0 \<le> sint nums"
  shows "\<exists>s. server_inv s \<and> sv_owner s = owner \<and> sv_conns s = Map.empty \<and> sv_tasks s = [] \<and>
    tcp_conn_list s = replicate kConnSize None \<and> next_loop (sv_pool s) = 0 \<and> pool_running (sv_pool s) \<and>
    pool_loops (sv_pool s) = map fresh [0..<nat (sint nums)] \<and> loop_main (sv_pool s) = Some owner \<and>
    (\<forall>t \<in> set (loop_threads (sv_pool s)). runs t) \<and>
    TCPServer_Start E owner fresh l0 listen_ok (set_event_loop_nums nums (TCPServer_ctor owner addresses)) =
      rbind (Listen_all listen_ok (map (\<lambda>a. (a, False)) addresses)) (\<lambda>acs. Inr (s\<lparr>acceptors := acs\<rparr>))"
proof -
  let ?P = "set_thread_nums nums (EventLoopThreadPool_ctor owner)"
  let ?s = "set_event_loop_nums nums (TCPServer_ctor owner addresses)"
  have p: "loop_main ?P = Some owner" "\<not> pool_running ?P" "thread_nums ?P = nums" "next_loop ?P = 0" "pool_loops ?P = []"
      "loop_threads ?P = []"
    by (simp_all add: set_thread_nums_def EventLoopThreadPool_ctor_def)
  obtain Q where Q: "Start_threads E fresh l0 [0..<nat (sint nums)] ?P = Inr Q" "loop_main Q = Some owner" "thread_nums Q = nums"
      "next_loop Q = 0" "pool_loops Q = map fresh [0..<nat (sint nums)]" "\<forall>t \<in> set (loop_threads Q). runs t"
    using Start_threads_ok [of E fresh l0 "[0..<nat (sint nums)]" ?P] p by (auto elim!: succeedsE)
  have s: "sv_owner ?s = owner" "sv_pool ?s = ?P" by (simp_all add: set_event_loop_nums_def TCPServer_ctor_def)
  let ?t = "?s\<lparr>sv_pool := Q\<lparr>pool_running := True\<rparr>\<rparr>"
  have "acceptors ?s = map (\<lambda>a. (a, False)) addresses" by (simp add: set_event_loop_nums_def TCPServer_ctor_def)
  then have "TCPServer_Start E owner fresh l0 listen_ok ?s =
      rbind (Listen_all listen_ok (map (\<lambda>a. (a, False)) addresses)) (\<lambda>acs. Inr (?t\<lparr>acceptors := acs\<rparr>))"
    using s p Q by (simp add: TCPServer_Start_def Pool_Start_def assert_main_def)
  moreover have "pool_ok (nat (sint nums)) owner (Q\<lparr>pool_running := True\<rparr>)" using Q assms by (simp add: pool_ok_def)
  then have "server_inv ?t" using Q s
    by (auto simp: server_inv_def table_ok_def set_event_loop_nums_def TCPServer_ctor_def occupied_def kConnSize_def)
  ultimately show ?thesis using Q s by (intro exI [of _ ?t]) (simp add: set_event_loop_nums_def TCPServer_ctor_def)
qed


lemma server_reach_inv: "server_reach E s \<Longrightarrow> server_inv s"
proof (induction rule: server_reach.induct)
  case (started owner fresh l0 listen_ok nums addresses s)
  obtain u where "server_inv u" "rbind (Listen_all listen_ok (map (\<lambda>a. (a, False)) addresses)) (\<lambda>acs. Inr (u\<lparr>acceptors := acs\<rparr>)) = Inr s"
    using TCPServer_Start_cases [OF started(2), of owner fresh E l0 listen_ok addresses] started(1) by auto
  then show ?case by (auto simp: rbind_Inr_conv)
next
  case (callbacks s cbs)
  then show ?case by simp
next
  case (reached s s')
  then show ?case using server_step_ok by (metis succeeds_simps(2))
qed

section \<open>Properties\<close>


definition sample_server :: tcp_server where
  "sample_server = projr (TCPServer_Start linux_env 1 (\<lambda>i. 100 + i) sample_sys (\<lambda>a. True)
     (set_event_loop_nums 2 (TCPServer_port_ctor 1 9950)))"

lemma sample_server_facts:
  "server_reach linux_env sample_server" "sv_owner sample_server = 1" "sv_conns sample_server = Map.empty"
  "tcp_conn_list sample_server = replicate kConnSize None" "next_loop (sv_pool sample_server) = 0"
proof -
  let ?r = "TCPServer_Start linux_env 1 (\<lambda>i. 100 + i) sample_sys (\<lambda>a. True) (set_event_loop_nums 2 (TCPServer_port_ctor 1 9950))"
  obtain s where s: "?r = Inr s" "sv_owner s = 1" "sv_conns s = Map.empty" "tcp_conn_list s = replicate kConnSize None"
      "next_loop (sv_pool s) = 0"
    using TCPServer_Start_cases [of 2 1 "\<lambda>i. 100 + i" linux_env sample_sys "\<lambda>a. True"
        "[InetAddress_port 9950 True False, InetAddress_port 9950 False False]"]
    by (auto simp: TCPServer_port_ctor_def)
  then have e: "sample_server = s" by (simp add: sample_server_def)
  show "server_reach linux_env sample_server"
    using server_reach.started [of linux_env 1 "\<lambda>i. 100 + i" sample_sys "\<lambda>a. True" 2 _ s] s(1) e by (simp add: TCPServer_port_ctor_def)
  show "sv_owner sample_server = 1" "sv_conns sample_server = Map.empty" "tcp_conn_list sample_server = replicate kConnSize None"
    "next_loop (sv_pool sample_server) = 0"
    using s e by simp_all
qed


text \<open>
  C12: In every reachable state the table is exact: a slot holds a connection if and only if its
  descriptor is the slot's index and it has not been removed, no two living connections share a
  descriptor, and \<^verbatim>\<open>tcp_conn_count_\<close> is the number of slots in use.
\<close>

theorem server_table_exact:
  assumes "server_reach E s" and "sv_conns s p = Some c"
  shows "tcp_conn_count s = length (filter (\<lambda>x. x \<noteq> None) (tcp_conn_list s)) \<and>
    (\<forall>i < length (tcp_conn_list s). tcp_conn_list s ! i = Some p \<longrightarrow> sc_fd c = int i) \<and>
    (sc_state c \<in> {CONNECTING, CONNECTED} \<longrightarrow> tcp_conn_list s ! nat (sc_fd c) = Some p) \<and>
    (\<forall>q d. sv_conns s q = Some d \<and> sc_fd d = sc_fd c \<longrightarrow> q = p)"
proof -
  have inv: "server_inv s" by (rule server_reach_inv [OF assms(1)])
  have "sc_fd c = int i" if "i < length (tcp_conn_list s)" "tcp_conn_list s ! i = Some p" for i
    using inv that assms(2) by (auto simp: server_inv_def table_ok_def)
  moreover have "tcp_conn_list s ! nat (sc_fd c) = Some p" if "sc_state c \<in> {CONNECTING, CONNECTED}"
    using server_inv_conn [OF inv assms(2)] that by (auto simp: conn_ok_def phase_simps in_slot_def)
  moreover have "tcp_conn_count s = length (filter (\<lambda>x. x \<noteq> None) (tcp_conn_list s))"
    using inv by (simp add: server_inv_def table_ok_def occupied_def)
  ultimately show ?thesis using fd_unique [OF inv assms(2)] by blast
qed

lemma sample_server_conn:
  obtains s c where "OnNewConnection linux_env 1 50 9 INVALID_ADDR sample_server = Inr s" "server_reach linux_env s" "sv_conns s 50 = Some c" "sc_fd c = 9"
proof -
  have "server_step linux_env sample_server (OnNewConnection linux_env (sv_owner sample_server) 50 9 INVALID_ADDR sample_server)"
    by (rule server_step.new_conn) (simp_all add: sample_server_facts kConnSize_def)
  moreover obtain s c where s: "OnNewConnection linux_env 1 50 9 INVALID_ADDR sample_server = Inr s" "sv_conns s 50 = Some c" "sc_fd c = 9"
    using OnNewConnection_ok [OF server_reach_inv [OF sample_server_facts(1)], of 50 9 linux_env INVALID_ADDR]
    by (auto simp: sample_server_facts kConnSize_def elim!: succeedsE)
  ultimately show ?thesis using that server_reach.reached [OF sample_server_facts(1)] by (simp add: sample_server_facts(2))
qed

theorem server_table_exact_witness:
  "\<exists>s. OnNewConnection linux_env 1 50 9 INVALID_ADDR sample_server = Inr s \<and> tcp_conn_count s = length (filter (\<lambda>x. x \<noteq> None) (tcp_conn_list s))"
proof -
  obtain s c where s: "OnNewConnection linux_env 1 50 9 INVALID_ADDR sample_server = Inr s" "server_reach linux_env s" "sv_conns s 50 = Some c"
    by (rule sample_server_conn)
  then show ?thesis using server_table_exact [OF s(2,3)] by blast
qed

text \<open>
  \<^verbatim>\<open>Stop\<close> stops the pool first and asks each connection's loop to destroy it afterwards. When the
  first connection of the table belongs to a pool thread, its loop does not exist any more: the
  call uses a destroyed loop.
\<close>

lemma Stop_uses_dead_loops:
  assumes "server_reach E s" and "tcp_conn_list s = pre @ Some p # post" and "filter (\<lambda>x. x \<noteq> None) pre = []"
    and "sv_conns s p = Some c" and "\<forall>t \<in> set (loop_threads (sv_pool s)). runs t" and "sc_loop c \<noteq> sv_owner s"
  shows "TCPServer_Stop E (sv_owner s) s = Inl UseAfterFree"
proof -
  obtain n where n: "pool_ok n (sv_owner s) (sv_pool s)" using server_reach_inv [OF assms(1)] by (auto simp: server_inv_def)
  obtain ts where ts: "Stop_threads E (loop_threads (sv_pool s)) = Inr ts"
    using Stop_threads_ok [OF assms(5), of E] by (auto elim!: succeedsE)
  let ?s = "s\<lparr>sv_pool := (sv_pool s)\<lparr>loop_threads := ts, pool_running := False, loop_main := None\<rparr>\<rparr>"
  have eq: "TCPServer_Stop E (sv_owner s) s = Stop_conns E (sv_owner s) (pre @ Some p # post) ?s"
    using n ts assms(2) by (simp add: TCPServer_Stop_def Pool_Stop_def assert_main_def pool_ok_def)
  have skip: "Stop_conns E o1 (xs @ ys) u = Stop_conns E o1 ys u" if "filter (\<lambda>x. x \<noteq> None) xs = []" for xs ys o1 u
    using that by (induction xs) (auto split: if_splits)
  have "\<not> loop_alive (sc_loop c) ?s" using assms(6) by (simp add: loop_alive_def)
  then show ?thesis unfolding eq skip [OF assms(3)] using assms(4) by (simp add: run_in_loop_def)
qed

text \<open>
  A descriptor equal to the size of the table after the one doubling passes the guard of
  \<^verbatim>\<open>AddConnListItem\<close>, which compares with \<^verbatim>\<open><\<close>, and is outside the table.
\<close>

lemma AddConnListItem_boundary:
  assumes "sv_conns s p = Some c" and "sc_fd c = int (2 * length (tcp_conn_list s))"
  shows "AddConnListItem E p s = Inl OutOfRange"
  using assms by (auto simp: AddConnListItem_def conn_at_def vec_get_def Let_def)

text \<open>A connection the table has no room for is released while it is \<^verbatim>\<open>CONNECTING\<close>, against the destructor's assertion.\<close>

lemma OnNewConnection_refused:
  assumes "server_inv s" and "sv_conns s p = None" and "int (2 * length (tcp_conn_list s)) < fd"
    and "sint (next_loop (sv_pool s)) < 2 ^ 31 - 1" and "\<not> ndebug E"
  shows "OnNewConnection E (sv_owner s) p fd peer s = Inl AssertionFailed"
proof -
  obtain n where n: "pool_ok n (sv_owner s) (sv_pool s)" "0 \<le> sint (next_loop (sv_pool s))" using assms(1) by (auto simp: server_inv_def)
  obtain l Q where g: "GetNextEventLoop E True (sv_pool s) = Inr (l, Q)"
    using next_loop_ok [OF n assms(4)] by metis
  have "Some p \<notin> set (tcp_conn_list s)" "p \<notin> task_conn ` snd ` set (sv_tasks s)"
    using assms(1,2) by (auto simp: server_inv_def table_ok_def in_set_conv_nth)
  moreover have "length (tcp_conn_list s) \<le> nat fd" "length (tcp_conn_list s) * 2 < nat fd" using assms(3) by auto
  ultimately show ?thesis
    using g assms(5) by (simp add: OnNewConnection_def AddConnListItem_def release_def referenced_def conn_at_def dassert_def vec_resize_def)
qed

section \<open>The server's view of a connection\<close>

text \<open>
  The states that the server's view goes through are those of \<open>TCPConnection\<close>: when the view agrees with
  the connection, the connection's own methods succeed and the views of the results agree.
\<close>

lemma conn_view_agrees:
  assumes "conn_inv CE t" and "send_ok CE" and "sv_conns s p = Some c" and "sc_state c = c_state t"
  shows "c_state t = CONNECTING \<Longrightarrow> succeeds (ConnectionEstablished CE t) (\<lambda>t'. conn_inv CE t' \<and>
      succeeds (conn_established E (sc_loop c) p s) (\<lambda>s'. \<exists>d. sv_conns s' p = Some d \<and> sc_state d = c_state t'))"
    and "succeeds (TCPConnection_HandleClose CE t) (\<lambda>t'. conn_inv CE t' \<and>
      succeeds (set_conn_state p DISCONNECTING s) (\<lambda>s'. \<exists>d. sv_conns s' p = Some d \<and> sc_state d = c_state t'))"
    and "succeeds (ConnectionDestroy CE t) (\<lambda>t'. conn_inv CE t' \<and>
      succeeds (conn_destroy E (sc_loop c) p s) (\<lambda>s'. \<exists>d. sv_conns s' p = Some d \<and> sc_state d = c_state t'))"
  using assms succeeds_mono [OF ConnectionEstablished_ok [OF assms(1,2)]] succeeds_mono [OF HandleClose_ok [OF assms(1,2)]]
    succeeds_mono [OF ConnectionDestroy_ok [OF assms(1)]]
  by (simp_all add: conn_established_def conn_destroy_def set_conn_state_def conn_at_def)

end
