(* ===== verification/TCPConnector.thy ===== *)
theory TCPConnector
  imports EventLoop Socket "HOL-Library.Multiset"
begin

unbundle bit_operations_syntax

text \<open>
  The TCP connector (\<^verbatim>\<open>src/tcp_connector.h\<close>, \<^verbatim>\<open>src/tcp_connector.cc\<close>): the state machine that opens a
  connection without blocking and retries after a delay that doubles. The state extends the
  loop's, so that the connector's channel is one of the loop's channels. Parameters (record
  \<open>ctr_env\<close>): the answers of the kernel to \<^verbatim>\<open>socket\<close> and \<^verbatim>\<open>connect\<close> for each attempt, the address of the
  channel the attempt allocates, and the kernel's side of the sockets (theory \<open>Socket\<close>). The
  retry timers of the connector that are pending in the loop's timer queue are \<open>ct_timers\<close>, and its calls in
  the loop's task queue are \<open>ct_tasks\<close>.
\<close>

section \<open>State\<close>

datatype ctr_state = CtDisconnected | CtConnecting | CtConnected

datatype ctr_task = StartTask | StopTask | ResetTask

record tcp_connector = event_loop +
  ct_running :: bool
  ct_state :: ctr_state
  ct_channel :: "addr option"
  retry_delay :: int
  ct_timer_id :: nat
  ct_timers :: "(nat \<times> int) list"
  ct_next_timer :: nat
  ct_tasks :: "ctr_task list"
  ct_attempts :: nat
  ct_open :: "int list"
  ct_handed :: "int list"
  ct_leaked :: "int list"

text \<open>
  \<open>ct_open\<close> are the connector's descriptors that are open, \<open>ct_handed\<close> those that it gave to
  \<^verbatim>\<open>new_conn_cb_\<close>. \<open>ct_leaked\<close> is a history variable without counterpart in the code: descriptors whose last
  reference was dropped while they were open. \<open>k_attempt i\<close>: the descriptor of the \<open>i\<close>-th attempt and the
  error of \<^verbatim>\<open>connect\<close>, 0 for none.
\<close>

record ctr_env =
  ksock :: sock_env
  k_attempt :: "nat \<Rightarrow> int \<times> int"
  new_addr :: "nat \<Rightarrow> addr"

definition EINPROGRESS :: int where "EINPROGRESS = 115"
definition EISCONN :: int where "EISCONN = 106"

definition kInitRetryDelay :: int where "kInitRetryDelay = 1000"
definition kMaxRetryDelay :: int where "kMaxRetryDelay = 30 * 1000"

abbreviation cpenv_of :: "ctr_env \<Rightarrow> poller_env" where
  "cpenv_of K \<equiv> senv (ksock K)"

definition TCPConnector_ctor :: "event_loop \<Rightarrow> tcp_connector" where
  "TCPConnector_ctor loop =
     event_loop.extend loop
       (tcp_connector.fields False CtDisconnected None kInitRetryDelay 0 [] 1 [] 0 [] [] [])"

section \<open>What the connector uses of its loop\<close>

text \<open>\<^verbatim>\<open>QueueInLoop\<close> and \<^verbatim>\<open>RunInLoop\<close> of one of the connector's calls.\<close>

definition ct_post :: "ctr_task \<Rightarrow> 'z tcp_connector_scheme \<Rightarrow> 'z tcp_connector_scheme" where
  "ct_post k s = QueueInLoop_wake (s\<lparr>ct_tasks := ct_tasks s @ [k]\<rparr>)"

definition ct_run_in_loop :: "ctr_task \<Rightarrow> ('z tcp_connector_scheme \<Rightarrow> 'z tcp_connector_scheme outcome) \<Rightarrow>
    'z tcp_connector_scheme \<Rightarrow> 'z tcp_connector_scheme outcome" where
  "ct_run_in_loop k f s = (if IsInLoopThread s then f s else Inr (ct_post k s))"

text \<open>\<^verbatim>\<open>TimerAfter\<close> and \<^verbatim>\<open>TimerCancel\<close>; a handle that is not pending is ignored.\<close>

definition ct_timer_after :: "int \<Rightarrow> 'z tcp_connector_scheme \<Rightarrow> 'z tcp_connector_scheme" where
  "ct_timer_after delayS s =
     s\<lparr>ct_timers := ct_timers s @ [(ct_next_timer s, delayS)], ct_timer_id := ct_next_timer s,
       ct_next_timer := ct_next_timer s + 1\<rparr>"

definition ct_timer_cancel :: "nat \<Rightarrow> 'z tcp_connector_scheme \<Rightarrow> 'z tcp_connector_scheme" where
  "ct_timer_cancel i s = s\<lparr>ct_timers := filter (\<lambda>t. fst t \<noteq> i) (ct_timers s)\<rparr>"

definition ct_close :: "int \<Rightarrow> 'z tcp_connector_scheme \<Rightarrow> 'z tcp_connector_scheme" where
  "ct_close fd s = s\<lparr>ct_open := remove1 fd (ct_open s)\<rparr>"

definition ct_chan :: "'z tcp_connector_scheme \<Rightarrow> addr outcome" where
  "ct_chan s = (case ct_channel s of None \<Rightarrow> Inl NullDereference | Some p \<Rightarrow> Inr p)"

section \<open>Operations\<close>

definition Retry :: "'z tcp_connector_scheme \<Rightarrow> 'z tcp_connector_scheme" where
  "Retry s =
     (let s = s\<lparr>ct_state := CtDisconnected\<rparr> in
      if ct_running s
      then (ct_timer_after (retry_delay s sdiv 1000) s)\<lparr>retry_delay := min (retry_delay s * 2) kMaxRetryDelay\<rparr>
      else s)"

definition RemoveAndResetChannel :: "ctr_env \<Rightarrow> 'z tcp_connector_scheme \<Rightarrow> 'z tcp_connector_scheme outcome" where
  "RemoveAndResetChannel K s =
     rbind (ct_chan s) (\<lambda>p.
     rbind (DisableAll (cpenv_of K) p s) (\<lambda>s.
     rbind (Channel_Remove (cpenv_of K) p s) (\<lambda>s. Inr (ct_post ResetTask s))))"

definition ResetChannel :: "ctr_env \<Rightarrow> 'z tcp_connector_scheme \<Rightarrow> 'z tcp_connector_scheme outcome" where
  "ResetChannel K s =
     (case ct_channel s of
        None \<Rightarrow> Inr s
      | Some p \<Rightarrow> rbind (delete_Channel (cpenv_of K) p s) (\<lambda>s. Inr (s\<lparr>ct_channel := None\<rparr>)))"

definition Connecting :: "ctr_env \<Rightarrow> addr \<Rightarrow> int \<Rightarrow> 'z tcp_connector_scheme \<Rightarrow> 'z tcp_connector_scheme outcome" where
  "Connecting K p fd s =
     rbind (dassert (cpenv_of K) (CtDisconnected = ct_state s)) (\<lambda>_.
     rbind (dassert (cpenv_of K) (ct_channel s = None)) (\<lambda>_.
     rbind (new_Channel (cpenv_of K) p fd '''' (s\<lparr>ct_state := CtConnecting, ct_channel := Some p\<rparr>)) (\<lambda>s.
     rbind (modify p (\<lambda>c. c\<lparr>ch_has_write := True, ch_has_error := True, ch_has_close := True\<rparr>) s)
       (EnableWriting (cpenv_of K) p))))"

text \<open>\<^verbatim>\<open>socket\<close> opens the descriptor, unless it fails.\<close>

definition Connect :: "ctr_env \<Rightarrow> 'z tcp_connector_scheme \<Rightarrow> 'z tcp_connector_scheme outcome" where
  "Connect K s =
     (let i = ct_attempts s;
          sockfd = fst (k_attempt K i);
          err_no = snd (k_attempt K i);
          s = s\<lparr>ct_attempts := i + 1, ct_open := ct_open s @ (if 0 \<le> sockfd then [sockfd] else [])\<rparr>
      in if err_no = 0 \<or> err_no = EINTR \<or> err_no = EINPROGRESS \<or> err_no = EISCONN
         then Connecting K (new_addr K i) sockfd s
         else Inr (Retry (ct_close sockfd s)))"

definition StartInLoop :: "ctr_env \<Rightarrow> 'z tcp_connector_scheme \<Rightarrow> 'z tcp_connector_scheme outcome" where
  "StartInLoop K s =
     rbind (AssertInLoopThread (cpenv_of K) s) (\<lambda>_.
     rbind (dassert (cpenv_of K) (CtDisconnected = ct_state s)) (\<lambda>_.
       if ct_running s then Connect K s else Inr s))"

definition ct_leak :: "'z tcp_connector_scheme \<Rightarrow> 'z tcp_connector_scheme" where
  "ct_leak s = (case ct_channel s of
      None \<Rightarrow> s
    | Some p \<Rightarrow> (case heap s p of None \<Rightarrow> s | Some c \<Rightarrow> s\<lparr>ct_leaked := ct_leaked s @ [ch_fd c]\<rparr>))"

definition StopInLoop :: "ctr_env \<Rightarrow> 'z tcp_connector_scheme \<Rightarrow> 'z tcp_connector_scheme outcome" where
  "StopInLoop K s =
     rbind (AssertInLoopThread (cpenv_of K) s) (\<lambda>_.
     let s = ct_timer_cancel (ct_timer_id s) s in
       if CtConnecting = ct_state s
       then RemoveAndResetChannel K (ct_leak (s\<lparr>ct_state := CtDisconnected\<rparr>))
       else Inr s)"

definition TCPConnector_Start :: "ctr_env \<Rightarrow> 'z tcp_connector_scheme \<Rightarrow> 'z tcp_connector_scheme outcome" where
  "TCPConnector_Start K s = ct_run_in_loop StartTask (StartInLoop K) (s\<lparr>ct_running := True\<rparr>)"

definition TCPConnector_Stop :: "ctr_env \<Rightarrow> 'z tcp_connector_scheme \<Rightarrow> 'z tcp_connector_scheme outcome" where
  "TCPConnector_Stop K s = ct_run_in_loop StopTask (StopInLoop K) (s\<lparr>ct_running := False\<rparr>)"

definition Restart :: "ctr_env \<Rightarrow> 'z tcp_connector_scheme \<Rightarrow> 'z tcp_connector_scheme outcome" where
  "Restart K s =
     rbind (AssertInLoopThread (cpenv_of K) s) (\<lambda>_.
       StartInLoop K (s\<lparr>ct_running := True, ct_state := CtDisconnected, retry_delay := kInitRetryDelay\<rparr>))"

text \<open>\<open>cb\<close> is \<^verbatim>\<open>new_conn_cb_\<close>, which takes the descriptor over.\<close>

definition ct_hand_over :: "int \<Rightarrow> 'z tcp_connector_scheme \<Rightarrow> 'z tcp_connector_scheme outcome" where
  "ct_hand_over fd s = Inr (s\<lparr>ct_handed := ct_handed s @ [fd]\<rparr>)"

definition ct_HandleWrite :: "ctr_env \<Rightarrow> (int \<Rightarrow> 'z tcp_connector_scheme \<Rightarrow> 'z tcp_connector_scheme outcome) \<Rightarrow>
    'z tcp_connector_scheme \<Rightarrow> 'z tcp_connector_scheme outcome" where
  "ct_HandleWrite K cb s =
     rbind (dassert (cpenv_of K) (CtConnecting = ct_state s)) (\<lambda>_.
     rbind (ct_chan s) (\<lambda>p.
     rbind (deref p s) (\<lambda>c.
     let sockfd = ch_fd c in
     rbind (RemoveAndResetChannel K s) (\<lambda>s.
     if 0 < GetSocketError (ksock K) sockfd then Inr (Retry (ct_close sockfd s))
     else
     rbind (GetLocalAddress (ksock K) sockfd) (\<lambda>l.
     rbind (GetPeerAddress (ksock K) sockfd) (\<lambda>r.
     if operator_eq l r then Inr (Retry (ct_close sockfd s))
     else
       let s = s\<lparr>ct_state := CtConnected\<rparr> in
       if ct_running s then cb sockfd s else Inr (ct_close sockfd s)))))))"

definition ct_HandleError :: "ctr_env \<Rightarrow> 'z tcp_connector_scheme \<Rightarrow> 'z tcp_connector_scheme outcome" where
  "ct_HandleError K s =
     (if CtConnecting = ct_state s then
        rbind (ct_chan s) (\<lambda>p.
        rbind (deref p s) (\<lambda>c.
        rbind (RemoveAndResetChannel K s) (\<lambda>s. Inr (Retry (ct_close (ch_fd c) s)))))
      else Inr s)"

text \<open>The callbacks that \<^verbatim>\<open>Connecting\<close> binds to the channel.\<close>

definition ctr_call :: "ctr_env \<Rightarrow> (int \<Rightarrow> 'z tcp_connector_scheme \<Rightarrow> 'z tcp_connector_scheme outcome) \<Rightarrow>
    callback \<Rightarrow> 'z tcp_connector_scheme \<Rightarrow> 'z tcp_connector_scheme outcome" where
  "ctr_call K cb k s =
     (case k of
        ReadCb \<Rightarrow> Inr s
      | WriteCb \<Rightarrow> ct_HandleWrite K cb s
      | CloseCb \<Rightarrow> ct_HandleError K s
      | ErrorCb \<Rightarrow> ct_HandleError K s)"

definition run_ctr_task :: "ctr_env \<Rightarrow> ctr_task \<Rightarrow> 'z tcp_connector_scheme \<Rightarrow> 'z tcp_connector_scheme outcome" where
  "run_ctr_task K k s =
     (case k of StartTask \<Rightarrow> StartInLoop K s | StopTask \<Rightarrow> StopInLoop K s | ResetTask \<Rightarrow> ResetChannel K s)"

section \<open>Steps\<close>

text \<open>
  The steps of a connector: an event of its channel while it is registered, with arbitrary
  \<open>revents\<close>; an event that the same round of the loop had ready when another handler of the round stopped the
  connector, unless it is a write event (\<open>Stop_late_write_fails\<close> below); the first call of the task queue; a retry timer. A timer is due in a later round of the
  loop than the one that set it, when the calls queued with it have run: \<^verbatim>\<open>ResetChannel\<close> is not
  pending. Its user starts it when it is idle, restarts it when it is connected or idle, and stops it at any
  time, on the loop's thread or on another one (\<open>tid\<close>). The kernel hands out descriptors that are not in
  use, below the capacity of the poller, and the allocator addresses that are not in use.
\<close>

definition ct_idle :: "'z tcp_connector_scheme \<Rightarrow> bool" where
  "ct_idle s \<longleftrightarrow> ct_channel s = None \<and> ct_timers s = [] \<and> ct_tasks s = []"

definition attempt_ok :: "ctr_env \<Rightarrow> 'z tcp_connector_scheme \<Rightarrow> bool" where
  "attempt_ok K s \<longleftrightarrow>
     (let (fd, err) = k_attempt K (ct_attempts s) in
        (fd < 0 \<longrightarrow> err \<notin> {0, EINTR, EINPROGRESS, EISCONN}) \<and>
        (0 \<le> fd \<longrightarrow> 0 < fd \<and> fd \<notin> set (ct_open s) \<and> nat fd \<notin> used s \<and> nat fd < length (channels s)) \<and>
        heap s (new_addr K (ct_attempts s)) = None)"

definition ct_deliver :: "ctr_env \<Rightarrow> addr \<Rightarrow> events \<Rightarrow> tcp_connector \<Rightarrow> tcp_connector outcome" where
  "ct_deliver K p re s =
     rbind (modify p (\<lambda>c. c\<lparr>ch_revents := re\<rparr>) s) (HandleEvent (\<lambda>_ _. True) (ctr_call K ct_hand_over) p)"

definition ct_foreign :: "int \<Rightarrow> (tcp_connector \<Rightarrow> tcp_connector outcome) \<Rightarrow> tcp_connector \<Rightarrow> tcp_connector outcome" where
  "ct_foreign tid f s = rbind (f (s\<lparr>current_tid := tid\<rparr>)) (\<lambda>t. Inr (t\<lparr>current_tid := current_tid s\<rparr>))"

text \<open>Whether \<^verbatim>\<open>Channel::HandleEvent_\<close> calls the callback for writing.\<close>

definition fires_write :: "events \<Rightarrow> bool" where
  "fires_write re \<longleftrightarrow> \<not> has_event re (EPOLLHUP OR EPOLLRDHUP) \<and> \<not> has_event re EPOLLERR \<and> has_event re EPOLLOUT"

inductive ctr_step :: "ctr_env \<Rightarrow> tcp_connector \<Rightarrow> tcp_connector outcome \<Rightarrow> bool" for K where
  event: "ct_channel s = Some p \<Longrightarrow> ct_state s = CtConnecting \<Longrightarrow> ctr_step K s (ct_deliver K p re s)"
| late_event: "ct_channel s = Some p \<Longrightarrow> ct_state s \<noteq> CtConnecting \<Longrightarrow> \<not> fires_write re \<Longrightarrow> ctr_step K s (ct_deliver K p re s)"
| task: "ct_tasks s = k # ks \<Longrightarrow> attempt_ok K s \<Longrightarrow> ctr_step K s (run_ctr_task K k (s\<lparr>ct_tasks := ks\<rparr>))"
| timer: "ct_timers s = xs @ t # ys \<Longrightarrow> ResetTask \<notin> set (ct_tasks s) \<Longrightarrow> attempt_ok K s \<Longrightarrow>
    ctr_step K s (StartInLoop K (s\<lparr>ct_timers := xs @ ys\<rparr>))"
| start: "ct_idle s \<Longrightarrow> ct_state s = CtDisconnected \<Longrightarrow> attempt_ok K s \<Longrightarrow>
    ctr_step K s (TCPConnector_Start K s)"
| foreign_start: "ct_idle s \<Longrightarrow> ct_state s = CtDisconnected \<Longrightarrow> tid \<noteq> loop_tid s \<Longrightarrow>
    ctr_step K s (ct_foreign tid (TCPConnector_Start K) s)"
| restart: "ct_idle s \<Longrightarrow> attempt_ok K s \<Longrightarrow> ctr_step K s (Restart K s)"
| stop: "ctr_step K s (TCPConnector_Stop K s)"
| foreign_stop: "tid \<noteq> loop_tid s \<Longrightarrow> ctr_step K s (ct_foreign tid (TCPConnector_Stop K) s)"

section \<open>Invariant\<close>

text \<open>The channel while the connector is connecting, and after its removal until it is reset; \<open>h\<close> tells whether one of its
  events is being handled.\<close>

definition ct_chan_ok :: "bool \<Rightarrow> 'z tcp_connector_scheme \<Rightarrow> bool" where
  "ct_chan_ok h s \<longleftrightarrow>
     (ct_channel s = None \<longrightarrow> ct_state s \<noteq> CtConnecting \<and> ResetTask \<notin> set (ct_tasks s)) \<and>
     (\<forall>p. ct_channel s = Some p \<longrightarrow> (\<exists>c. heap s p = Some c \<and> ch_handling c = h \<and> \<not> ch_tied c \<and>
        (if ct_state s = CtConnecting then ch_status c = kAdded \<and> ch_has_write c \<and> ResetTask \<notin> set (ct_tasks s)
         else ch_status c = kNew \<and> count_list (ct_tasks s) ResetTask = 1)))"

text \<open>Every open descriptor was handed over or leaked, or is the one that is connecting.\<close>

definition ct_pending :: "'z tcp_connector_scheme \<Rightarrow> int multiset" where
  "ct_pending s = (if ct_state s = CtConnecting
     then {#ch_fd (the (heap s (the (ct_channel s))))#} else {#})"

definition ct_fds_ok :: "'z tcp_connector_scheme \<Rightarrow> bool" where
  "ct_fds_ok s \<longleftrightarrow> mset (ct_open s) = mset (ct_handed s) + mset (ct_leaked s) + ct_pending s \<and>
     (\<forall>fd \<in> set (ct_open s). 0 < fd)"

text \<open>The start of an attempt that is due: a queued call or a timer, never both, and nothing else is going on.\<close>

definition ct_due_ok :: "'z tcp_connector_scheme \<Rightarrow> bool" where
  "ct_due_ok s \<longleftrightarrow>
     (StartTask \<in> set (ct_tasks s) \<longrightarrow> ct_state s = CtDisconnected \<and> ct_channel s = None \<and> ct_timers s = [] \<and>
        count_list (ct_tasks s) StartTask = 1) \<and>
     (ct_timers s \<noteq> [] \<longrightarrow> ct_state s = CtDisconnected \<and> (\<exists>d. ct_timers s = [(ct_timer_id s, d)])) \<and>
     (StopTask \<in> set (ct_tasks s) \<longrightarrow> \<not> ct_running s)"

text \<open>A running connector is connecting or connected, or a start is due.\<close>

definition ct_live :: "'z tcp_connector_scheme \<Rightarrow> bool" where
  "ct_live s \<longleftrightarrow> (ct_running s \<longrightarrow>
     ct_state s \<noteq> CtDisconnected \<or> ct_timers s \<noteq> [] \<or> StartTask \<in> set (ct_tasks s))"

definition delay_ok :: "'z tcp_connector_scheme \<Rightarrow> bool" where
  "delay_ok s \<longleftrightarrow> kInitRetryDelay \<le> retry_delay s \<and> retry_delay s \<le> kMaxRetryDelay \<and>
     (\<forall>t \<in> set (ct_timers s). 1 \<le> snd t \<and> snd t \<le> 30)"

text \<open>All but \<open>ct_live\<close>, and the whole invariant, while an event is handled and between the steps.\<close>

definition ctr_core :: "bool \<Rightarrow> 'z tcp_connector_scheme \<Rightarrow> bool" where
  "ctr_core h s \<longleftrightarrow> ep_inv s \<and> ct_chan_ok h s \<and> ct_fds_ok s \<and> ct_due_ok s \<and> delay_ok s"

definition ctr_inv :: "'z tcp_connector_scheme \<Rightarrow> bool" where
  "ctr_inv s \<longleftrightarrow> ctr_core False s \<and> ct_live s"

lemmas ctr_inv_defs = ct_chan_ok_def ct_fds_ok_def ct_pending_def ct_due_ok_def ct_live_def delay_ok_def

lemma ctr_core_thread: "ctr_core h s \<Longrightarrow> IsInLoopThread s"
  by (simp add: ctr_core_def ep_inv_def)

lemma sdiv_1000: "1000 \<le> d \<Longrightarrow> d \<le> 30000 \<Longrightarrow> 1 \<le> d sdiv (1000 :: int) \<and> d sdiv 1000 \<le> 30"
  by (simp add: signed_divide_int_def) linarith

section \<open>Fields\<close>

lemma ct_post_fields [simp]:
  "heap (ct_post k s) = heap s" "ct_running (ct_post k s) = ct_running s" "ct_state (ct_post k s) = ct_state s"
  "ct_channel (ct_post k s) = ct_channel s" "retry_delay (ct_post k s) = retry_delay s" "ct_timer_id (ct_post k s) = ct_timer_id s"
  "ct_timers (ct_post k s) = ct_timers s" "ct_tasks (ct_post k s) = ct_tasks s @ [k]" "ct_open (ct_post k s) = ct_open s"
  "ct_handed (ct_post k s) = ct_handed s" "ct_leaked (ct_post k s) = ct_leaked s"
  by (simp_all add: ct_post_def QueueInLoop_wake_def Wakeup_def)

text \<open>What \<^verbatim>\<open>DisableAll\<close> and \<^verbatim>\<open>Remove\<close> leave of a registered channel.\<close>

definition dropped :: "addr \<Rightarrow> channel \<Rightarrow> 'z tcp_connector_scheme \<Rightarrow> 'z tcp_connector_scheme" where
  "dropped p c s = unregistered p (c\<lparr>ch_events := kNoneEvent, ch_status := kDel\<rparr>) (registered p c kNoneEvent s)"

lemma dropped_fields [simp]:
  "heap (dropped p c s) = (heap s)(p \<mapsto> c\<lparr>ch_events := kNoneEvent, ch_status := kNew\<rparr>)"
  "ct_running (dropped p c s) = ct_running s" "ct_state (dropped p c s) = ct_state s"
  "ct_channel (dropped p c s) = ct_channel s" "retry_delay (dropped p c s) = retry_delay s" "ct_timer_id (dropped p c s) = ct_timer_id s"
  "ct_timers (dropped p c s) = ct_timers s" "ct_tasks (dropped p c s) = ct_tasks s" "ct_open (dropped p c s) = ct_open s"
  "ct_handed (dropped p c s) = ct_handed s" "ct_leaked (dropped p c s) = ct_leaked s"
  by (simp_all add: dropped_def unregistered_def registered_def)

lemma Retry_fields [simp]:
  "heap (Retry s) = heap s" "ct_running (Retry s) = ct_running s" "ct_state (Retry s) = CtDisconnected"
  "ct_channel (Retry s) = ct_channel s" "ct_tasks (Retry s) = ct_tasks s" "ct_open (Retry s) = ct_open s"
  "ct_handed (Retry s) = ct_handed s" "ct_leaked (Retry s) = ct_leaked s"
  "retry_delay (Retry s) = (if ct_running s then min (retry_delay s * 2) kMaxRetryDelay else retry_delay s)"
  "ct_timers (Retry s) = (if ct_running s then ct_timers s @ [(ct_next_timer s, retry_delay s sdiv 1000)] else ct_timers s)"
  "ct_timer_id (Retry s) = (if ct_running s then ct_next_timer s else ct_timer_id s)"
  by (simp_all add: Retry_def ct_timer_after_def Let_def)

lemma ct_close_fields [simp]:
  "heap (ct_close fd s) = heap s" "ct_running (ct_close fd s) = ct_running s" "ct_state (ct_close fd s) = ct_state s"
  "ct_channel (ct_close fd s) = ct_channel s" "retry_delay (ct_close fd s) = retry_delay s" "ct_timer_id (ct_close fd s) = ct_timer_id s"
  "ct_timers (ct_close fd s) = ct_timers s" "ct_tasks (ct_close fd s) = ct_tasks s" "ct_open (ct_close fd s) = remove1 fd (ct_open s)"
  "ct_handed (ct_close fd s) = ct_handed s" "ct_leaked (ct_close fd s) = ct_leaked s"
  by (simp_all add: ct_close_def)

text \<open>The poller's invariant is not affected by the connector's own members.\<close>

lemma ep_inv_own [simp]:
  "ep_inv (ct_post k s) = ep_inv s" "ep_inv (Retry s) = ep_inv s" "ep_inv (ct_close fd s) = ep_inv s"
  "ep_inv (s\<lparr>ct_state := st\<rparr>) = ep_inv s" "ep_inv (s\<lparr>ct_handed := hs\<rparr>) = ep_inv s" "ep_inv (s\<lparr>ct_tasks := ks\<rparr>) = ep_inv s"
  "ep_inv (s\<lparr>ct_timers := ts\<rparr>) = ep_inv s" "ep_inv (s\<lparr>ct_running := b\<rparr>) = ep_inv s" "ep_inv (s\<lparr>ct_leaked := ls\<rparr>) = ep_inv s"
  "ep_inv (s\<lparr>ct_channel := ch\<rparr>) = ep_inv s" "ep_inv (s\<lparr>retry_delay := d\<rparr>) = ep_inv s" "ep_inv (s\<lparr>ct_attempts := i, ct_open := os\<rparr>) = ep_inv s"
proof -
  have eq: "ep_inv t = ep_inv u" if "poller.truncate t = poller.truncate u" for t u :: "'z tcp_connector_scheme"
  proof -
    have f: "heap t = heap u" "channels t = channels u" "active_channels t = active_channels u" "channel_nums t = channel_nums u"
      "cur_max_fd t = cur_max_fd u" "event_list t = event_list u" "interest t = interest u" "loop_self t = loop_self u"
      "loop_tid t = loop_tid u" "current_tid t = current_tid u"
      using that by (simp_all add: poller.defs)
    show ?thesis by (rule iffI) (erule ep_inv_ext, simp_all add: f)+
  qed
  show "ep_inv (ct_post k s) = ep_inv s" "ep_inv (Retry s) = ep_inv s" "ep_inv (ct_close fd s) = ep_inv s"
    "ep_inv (s\<lparr>ct_state := st\<rparr>) = ep_inv s" "ep_inv (s\<lparr>ct_handed := hs\<rparr>) = ep_inv s" "ep_inv (s\<lparr>ct_tasks := ks\<rparr>) = ep_inv s"
    "ep_inv (s\<lparr>ct_timers := ts\<rparr>) = ep_inv s" "ep_inv (s\<lparr>ct_running := b\<rparr>) = ep_inv s" "ep_inv (s\<lparr>ct_leaked := ls\<rparr>) = ep_inv s"
    "ep_inv (s\<lparr>ct_channel := ch\<rparr>) = ep_inv s" "ep_inv (s\<lparr>retry_delay := d\<rparr>) = ep_inv s" "ep_inv (s\<lparr>ct_attempts := i, ct_open := os\<rparr>) = ep_inv s"
    by (rule eq; simp add: poller.defs ct_post_def QueueInLoop_wake_def Wakeup_def Retry_def ct_timer_after_def ct_close_def Let_def)+
qed

section \<open>The steps keep the invariant\<close>

text \<open>\<^verbatim>\<open>RemoveAndResetChannel\<close>: the channel leaves the poller and stays allocated.\<close>

lemma RemoveAndResetChannel_eq:
  assumes "env_ok (cpenv_of K)" and "ep_inv s" and "ct_channel s = Some p" and "heap s p = Some c" and "ch_status c = kAdded"
  shows "RemoveAndResetChannel K s = Inr (ct_post ResetTask (dropped p c s))" and "ep_inv (dropped p c s)"
proof -
  have "ch_status c \<noteq> kNew" using assms(5) by (simp add: status_defs)
  note d = drop_channel_eq [OF assms(1,2,4) this]
  have "RemoveAndResetChannel K s = rbind (drop_channel (cpenv_of K) p s) (\<lambda>s. Inr (ct_post ResetTask s))"
    using assms(3) by (simp add: RemoveAndResetChannel_def ct_chan_def drop_channel_def rbind_assoc)
  then show "RemoveAndResetChannel K s = Inr (ct_post ResetTask (dropped p c s))" and "ep_inv (dropped p c s)"
    using d by (simp_all add: dropped_def)
qed

lemma count_list_append1 [simp]: "count_list (xs @ ys) x = count_list xs x + count_list ys x"
  by (induction xs) simp_all

lemma count_list_zero: "x \<notin> set xs \<Longrightarrow> count_list xs x = 0"
  by (induction xs) auto

lemma connecting_facts:
  assumes "ctr_core h s" and "ct_state s = CtConnecting"
  obtains p c where "ct_channel s = Some p" "heap s p = Some c" "ch_handling c = h" "\<not> ch_tied c" "ch_status c = kAdded"
    "ct_timers s = []" "StartTask \<notin> set (ct_tasks s)" "ResetTask \<notin> set (ct_tasks s)"
    "mset (ct_open s) = mset (ct_handed s) + mset (ct_leaked s) + {#ch_fd c#}" "ep_inv s"
    "\<forall>fd \<in> set (ct_open s). 0 < fd"
  using assms by (cases "ct_channel s") (auto simp: ctr_core_def ct_chan_ok_def ct_fds_ok_def ct_pending_def ct_due_ok_def)

text \<open>The end of an attempt: the channel is removed, the descriptor closed, and the next attempt scheduled.\<close>

lemma attempt_failed:
  assumes "env_ok (cpenv_of K)" and "ctr_core h s" and "ct_state s = CtConnecting" and "ct_channel s = Some p" and "heap s p = Some c"
  shows "ctr_core h (Retry (ct_close (ch_fd c) (ct_post ResetTask (dropped p c s))))"
    and "ct_live (Retry (ct_close (ch_fd c) (ct_post ResetTask (dropped p c s))))"
proof -
  let ?t = "Retry (ct_close (ch_fd c) (ct_post ResetTask (dropped p c s)))"
  note f = connecting_facts [OF assms(2,3)]
  have c: "ch_handling c = h" "\<not> ch_tied c" "ch_status c = kAdded" "ct_timers s = []" "StartTask \<notin> set (ct_tasks s)"
      "ResetTask \<notin> set (ct_tasks s)" "mset (ct_open s) = mset (ct_handed s) + mset (ct_leaked s) + {#ch_fd c#}" "ep_inv s"
      "\<forall>fd \<in> set (ct_open s). 0 < fd"
    by (rule f; use assms(4,5) in simp)+
  have ep: "ep_inv ?t" using RemoveAndResetChannel_eq(2) [OF assms(1) c(8) assms(4,5) c(3)] by simp
  have "ct_chan_ok h ?t" using assms(4) c by (simp add: ct_chan_ok_def count_list_zero)
  moreover have "ct_fds_ok ?t" using c(7,9) set_remove1_subset [of "ch_fd c" "ct_open s"] by (auto simp: ct_fds_ok_def ct_pending_def)
  moreover have "ct_due_ok ?t" using assms(2) c by (auto simp: ctr_core_def ct_due_ok_def)
  moreover have "delay_ok ?t" using assms(2) c(4) sdiv_1000 [of "retry_delay s"]
    by (auto simp: ctr_core_def delay_ok_def kInitRetryDelay_def kMaxRetryDelay_def)
  ultimately show "ctr_core h ?t" using ep by (simp add: ctr_core_def)
  show "ct_live ?t" by (simp add: ct_live_def)
qed

lemma ct_HandleError_ok:
  assumes "env_ok (cpenv_of K)" and "ctr_core h s" and "ct_state s = CtConnecting"
  shows "succeeds (ct_HandleError K s) (\<lambda>t. ctr_core h t \<and> ct_live t \<and> ct_channel t = ct_channel s)"
proof -
  obtain p c where c: "ct_channel s = Some p" "heap s p = Some c" "ch_status c = kAdded" "ep_inv s"
    by (rule connecting_facts [OF assms(2,3)])
  show ?thesis using RemoveAndResetChannel_eq(1) [OF assms(1) c(4,1-3)] attempt_failed [OF assms c(1,2)] assms(3) c
    by (simp add: ct_HandleError_def ct_chan_def)
qed

text \<open>After a connect without error the kernel knows both names of the socket.\<close>

definition names_ok :: "ctr_env \<Rightarrow> bool" where
  "names_ok K \<longleftrightarrow> (\<forall>fd. GetSocketError (ksock K) fd \<le> 0 \<longrightarrow> sockname (ksock K) fd \<noteq> None \<and> peername (ksock K) fd \<noteq> None)"

lemma attempt_done:
  assumes "env_ok (cpenv_of K)" and "ctr_core h s" and "ct_state s = CtConnecting" and "ct_channel s = Some p" and "heap s p = Some c"
  defines "u \<equiv> (ct_post ResetTask (dropped p c s))\<lparr>ct_state := CtConnected\<rparr>"
  shows "ctr_core h (u\<lparr>ct_handed := ct_handed s @ [ch_fd c]\<rparr>)" and "ctr_core h (ct_close (ch_fd c) u)"
proof -
  note f = connecting_facts [OF assms(2,3)]
  have c: "ch_handling c = h" "\<not> ch_tied c" "ch_status c = kAdded" "ct_timers s = []" "StartTask \<notin> set (ct_tasks s)"
      "ResetTask \<notin> set (ct_tasks s)" "mset (ct_open s) = mset (ct_handed s) + mset (ct_leaked s) + {#ch_fd c#}" "ep_inv s"
      "\<forall>fd \<in> set (ct_open s). 0 < fd"
    by (rule f; use assms(4,5) in simp)+
  have ep: "ep_inv (dropped p c s)" by (rule RemoveAndResetChannel_eq(2) [OF assms(1) c(8) assms(4,5) c(3)])
  show "ctr_core h (u\<lparr>ct_handed := ct_handed s @ [ch_fd c]\<rparr>)" "ctr_core h (ct_close (ch_fd c) u)"
    using assms(2) ep c assms(4) set_remove1_subset [of "ch_fd c" "ct_open s"]
    by (auto simp: u_def ctr_core_def ct_chan_ok_def ct_fds_ok_def ct_pending_def ct_due_ok_def delay_ok_def count_list_zero)
qed

lemma ct_HandleWrite_ok:
  assumes "env_ok (cpenv_of K)" and "names_ok K" and "ctr_core h s" and "ct_state s = CtConnecting"
  shows "succeeds (ct_HandleWrite K ct_hand_over s) (\<lambda>t. ctr_core h t \<and> ct_live t \<and> ct_channel t = ct_channel s)"
proof -
  obtain p c where c: "ct_channel s = Some p" "heap s p = Some c" "ch_status c = kAdded" "ep_inv s"
    by (rule connecting_facts [OF assms(3,4)])
  note rm = RemoveAndResetChannel_eq(1) [OF assms(1) c(4,1-3)]
  note fail = attempt_failed [OF assms(1,3,4) c(1,2)] and success = attempt_done [OF assms(1,3,4) c(1,2)]
  let ?u = "ct_post ResetTask (dropped p c s)"
  show ?thesis
  proof (cases "0 < GetSocketError (ksock K) (ch_fd c)")
    case True
    then show ?thesis using rm c(1,2) assms(4) fail by (simp add: ct_HandleWrite_def ct_chan_def)
  next
    case False
    then obtain l r where n: "sockname (ksock K) (ch_fd c) = Some l" "peername (ksock K) (ch_fd c) = Some r"
      using assms(2) unfolding names_ok_def by force
    have eq: "ct_HandleWrite K ct_hand_over s = (if operator_eq l r then Inr (Retry (ct_close (ch_fd c) ?u))
        else if ct_running s then ct_hand_over (ch_fd c) (?u\<lparr>ct_state := CtConnected\<rparr>)
        else Inr (ct_close (ch_fd c) (?u\<lparr>ct_state := CtConnected\<rparr>)))"
      using rm c(1,2) assms(4) False n by (simp add: ct_HandleWrite_def ct_chan_def GetLocalAddress_def GetPeerAddress_def)
    show ?thesis unfolding eq using fail success c(1)
      by (simp add: ct_hand_over_def ct_live_def)
  qed
qed

text \<open>Marking the channel does not matter to the invariant.\<close>

lemma ctr_core_mark:
  assumes "ctr_core h s" and "ct_channel s = Some p" and "heap s p = Some c"
  shows "ctr_core h' (s\<lparr>heap := (heap s)(p \<mapsto> c\<lparr>ch_revents := re, ch_handling := h'\<rparr>)\<rparr>)"
proof -
  have "ep_inv (s\<lparr>heap := (heap s)(p \<mapsto> c\<lparr>ch_revents := re, ch_handling := h'\<rparr>)\<rparr>)"
    by (rule ep_inv_core_upd [of s p c]) (use assms in \<open>simp_all add: ctr_core_def core_def\<close>)
  then show ?thesis using assms
    by (simp add: ctr_core_def ct_chan_ok_def ct_fds_ok_def ct_pending_def ct_due_ok_def delay_ok_def)
qed

lemma ct_live_heap [simp]: "ct_live (s\<lparr>heap := H\<rparr>) = ct_live s"
  by (simp add: ct_live_def)

text \<open>At most one callback runs for an event, and the channel outlives it.\<close>

lemma ctr_call_ok:
  assumes "env_ok (cpenv_of K)" and "names_ok K" and "ctr_core h s" and "ct_live s" and "ct_state s = CtConnecting"
  shows "succeeds (ctr_call K ct_hand_over k s) (\<lambda>t. ctr_core h t \<and> ct_live t \<and> ct_channel t = ct_channel s)"
  using assms ct_HandleError_ok ct_HandleWrite_ok by (cases k) (auto simp: ctr_call_def)

lemma ct_deliver_ok:
  assumes "env_ok (cpenv_of K)" and "names_ok K" and "ctr_inv s" and "ct_state s = CtConnecting" and "ct_channel s = Some p"
  shows "succeeds (ct_deliver K p re s) ctr_inv"
proof -
  have core: "ctr_core False s" "ct_live s" using assms(3) by (simp_all add: ctr_inv_def)
  obtain c where c: "heap s p = Some c" "\<not> ch_tied c" "\<not> ch_handling c" 
    by (rule connecting_facts [OF core(1) assms(4)]) (use assms(5) in auto)
  let ?c = "c\<lparr>ch_revents := re, ch_handling := True\<rparr>"
  let ?s = "s\<lparr>heap := (heap s)(p \<mapsto> ?c)\<rparr>"
  have s: "ctr_core True ?s" "ct_live ?s" "ct_state ?s = CtConnecting" "ct_channel ?s = Some p" "heap ?s p = Some ?c"
    using ctr_core_mark [OF core(1) assms(5) c(1)] core(2) assms(4,5) by simp_all
  have close: "succeeds (modify p (\<lambda>c. c\<lparr>ch_handling := False\<rparr>) t) ctr_inv"
    if t: "ctr_core True t" "ct_live t" "ct_channel t = Some p" for t
  proof -
    obtain d where d: "heap t p = Some d" using t(1,3) by (auto simp: ctr_core_def ct_chan_ok_def)
    have "d\<lparr>ch_handling := False\<rparr> = d\<lparr>ch_revents := ch_revents d, ch_handling := False\<rparr>" by simp
    then show ?thesis using ctr_core_mark [OF t(1,3) d, of False "ch_revents d"] t(2) d by (simp add: ctr_inv_def)
  qed
  let ?Z = "\<lambda>t. succeeds (modify p (\<lambda>c. c\<lparr>ch_handling := False\<rparr>) t) ctr_inv"
  have self: "?Z ?s" by (rule close [OF s(1,2,4)])
  have call: "succeeds (ctr_call K ct_hand_over k ?s) ?Z" for k
    by (rule succeeds_mono [OF ctr_call_ok [OF assms(1,2) s(1-3), of k]], rule close) (use s(4) in auto)
  have fire: "succeeds (fire (ctr_call K ct_hand_over) k bits p ?s) ?Z" for k bits
    unfolding fire_def deref_Some [OF s(5)] rbind_simps succeeds_if succeeds_simps using call self by blast
  have read: "fire (ctr_call K ct_hand_over) ReadCb bits p ?s = Inr ?s" for bits using s(5) by (simp add: fire_def ctr_call_def)
  have "ct_deliver K p re s = HandleEvent_impl (ctr_call K ct_hand_over) p (s\<lparr>heap := (heap s)(p \<mapsto> c\<lparr>ch_revents := re\<rparr>)\<rparr>)"
    using c by (simp add: ct_deliver_def HandleEvent_def)
  then show ?thesis using fire read by (simp add: HandleEvent_impl_def)
qed

text \<open>An event that comes after the channel was taken out of the poller has no effect on the connector.\<close>

lemma ct_deliver_late:
  assumes "ctr_inv s" and "ct_state s \<noteq> CtConnecting" and "ct_channel s = Some p" and "\<not> fires_write re"
  shows "succeeds (ct_deliver K p re s) ctr_inv"
proof -
  have core: "ctr_core False s" "ct_live s" using assms(1) by (simp_all add: ctr_inv_def)
  obtain c where c: "heap s p = Some c" "\<not> ch_tied c" using core(1) assms(3) by (auto simp: ctr_core_def ct_chan_ok_def)
  have "ct_deliver K p re s = Inr (s\<lparr>heap := (heap s)(p \<mapsto> c\<lparr>ch_revents := re, ch_handling := False\<rparr>)\<rparr>)"
    using c assms(2,4) by (auto simp: ct_deliver_def HandleEvent_def HandleEvent_impl_def fire_def ctr_call_def ct_HandleError_def fires_write_def)
  moreover have "ctr_inv (s\<lparr>heap := (heap s)(p \<mapsto> c\<lparr>ch_revents := re, ch_handling := False\<rparr>)\<rparr>)"
    using ctr_core_mark [OF core(1) assms(3) c(1)] core(2) by (simp add: ctr_inv_def)
  ultimately show ?thesis by simp
qed

section \<open>Starting and stopping\<close>

lemma write_event_status: "expected_status kWriteEvent = kAdded" "kNoneEvent OR kWriteEvent = kWriteEvent"
  by (simp_all add: expected_status_def event_masks kNoneEvent_def)

lemma Connecting_ok:
  assumes "env_ok (cpenv_of K)" and "ctr_core False s" and "ct_state s = CtDisconnected" and "ct_channel s = None"
    and "ct_timers s = []" and "StartTask \<notin> set (ct_tasks s)"
    and new: "heap s p = None" "0 < fd" "nat fd \<notin> used s" "nat fd < length (channels s)"
  shows "succeeds (Connecting K p fd (s\<lparr>ct_attempts := i, ct_open := ct_open s @ [fd]\<rparr>)) (\<lambda>t. ctr_inv t \<and> ct_state t = CtConnecting \<and>
    ct_channel t = Some p \<and> interest t = (interest s)(fd \<mapsto> (kWriteEvent, p)) \<and> ct_open t = ct_open s @ [fd] \<and> ct_running t = ct_running s \<and>
    tcp_connector.more t = tcp_connector.more s)"
proof -
  let ?s = "s\<lparr>ct_attempts := i, ct_open := ct_open s @ [fd], ct_state := CtConnecting, ct_channel := Some p\<rparr>"
  let ?c = "(Channel_ctor (Some (loop_self s)) fd '''')\<lparr>ch_has_write := True, ch_has_error := True, ch_has_close := True\<rparr>"
  let ?l = "?s\<lparr>heap := (heap s)(p \<mapsto> ?c)\<rparr>"
  let ?t = "registered p ?c kWriteEvent ?l"
  have ep: "ep_inv ?s" by (rule ep_inv_ext [of s]) (use assms(2) in \<open>simp_all add: ctr_core_def\<close>)
  have "ep_inv (?s\<lparr>heap := (heap ?s)(p \<mapsto> Channel_ctor (Some (loop_self ?s)) fd '''')\<rparr>)"
    by (rule ep_inv_heap_new [OF ep]) (use new in simp_all)
  from ep_inv_core_upd [OF this, of p _ ?c] have inv: "ep_inv ?l" by (simp add: core_def)
  have free: "channels s ! nat fd = None" using new(3,4) by (simp add: used_def)
  have up: "updatable p ?c ?l" using free by (simp add: updatable_def Channel_ctor_def)
  have "EnableWriting (cpenv_of K) p ?l = Inr ?t"
    using set_events_eq [OF assms(1) inv up, of "\<lambda>ev. ev OR kWriteEvent"]
    by (simp add: EnableWriting_def Channel_ctor_def write_event_status)
  then have eq: "Connecting K p fd (s\<lparr>ct_attempts := i, ct_open := ct_open s @ [fd]\<rparr>) = Inr ?t"
    using assms(3,4) new(2) by (simp add: Connecting_def new_Channel_def)
  have ept: "ep_inv ?t" by (rule ep_inv_registered [OF inv up])
  have f: "heap ?t p = Some (?c\<lparr>ch_events := kWriteEvent, ch_status := kAdded\<rparr>)" "ct_channel ?t = Some p" "ct_state ?t = CtConnecting"
    "ct_tasks ?t = ct_tasks s" "ct_timers ?t = []" "retry_delay ?t = retry_delay s" "ct_open ?t = ct_open s @ [fd]"
    "ct_handed ?t = ct_handed s" "ct_leaked ?t = ct_leaked s" "ct_running ?t = ct_running s"
    "tcp_connector.more ?t = tcp_connector.more s"
    using assms(5) by (simp_all add: registered_def write_event_status)
  have c: "\<not> ch_handling (Channel_ctor l fd n)" "\<not> ch_tied (Channel_ctor l fd n)" "ch_fd (Channel_ctor l fd n) = fd" for l n
    by (simp_all add: Channel_ctor_def)
  have "ctr_inv ?t" using ept new(2) assms(2-6) unfolding ctr_inv_def ctr_core_def ctr_inv_defs
    by (simp add: f c)
  moreover have "interest ?t = (interest s)(fd \<mapsto> (kWriteEvent, p))"
    using write_event_status(1) by (auto simp: registered_def Channel_ctor_def expected_interest_def expected_status_def status_defs split: if_splits)
  ultimately show ?thesis using eq f by simp
qed

lemma StartInLoop_result:
  assumes "env_ok (cpenv_of K)" and "ctr_core False s" and "ct_state s = CtDisconnected" and "ct_channel s = None"
    and "ct_timers s = []" and "StartTask \<notin> set (ct_tasks s)" and "attempt_ok K s"
  shows "succeeds (StartInLoop K s) (\<lambda>t. ctr_inv t \<and> ct_running t = ct_running s \<and> tcp_connector.more t = tcp_connector.more s \<and>
    (ct_running s \<longrightarrow> ct_state t = CtConnecting \<or> ct_timers t \<noteq> []))"
proof -
  obtain fd err where a: "k_attempt K (ct_attempts s) = (fd, err)" by fastforce
  have th: "AssertInLoopThread (cpenv_of K) s = Inr ()" using ctr_core_thread [OF assms(2)] by (simp add: AssertInLoopThread_def)
  show ?thesis
  proof (cases "ct_running s")
    case False
    then show ?thesis using assms(2,3) th by (simp add: StartInLoop_def ctr_inv_def ct_live_def)
  next
    case run: True
    show ?thesis
    proof (cases "err \<in> {0, EINTR, EINPROGRESS, EISCONN}")
      case True
      then have fd: "heap s (new_addr K (ct_attempts s)) = None" "0 < fd" "nat fd \<notin> used s" "nat fd < length (channels s)"
        using assms(7) a by (auto simp: attempt_ok_def)
      have "StartInLoop K s = Connecting K (new_addr K (ct_attempts s)) fd (s\<lparr>ct_attempts := ct_attempts s + 1, ct_open := ct_open s @ [fd]\<rparr>)"
        using True run assms(3) th a fd(2) by (auto simp: StartInLoop_def Connect_def Let_def)
      then show ?thesis using succeeds_mono [OF Connecting_ok [OF assms(1-6) fd]] by simp
    next
      case False
      let ?o = "ct_open s @ (if 0 \<le> fd then [fd] else [])"
      let ?t = "Retry (ct_close fd (s\<lparr>ct_attempts := ct_attempts s + 1, ct_open := ?o\<rparr>))"
      have eq: "StartInLoop K s = Inr ?t" using False run assms(3) th a by (simp add: StartInLoop_def Connect_def)
      have m: "mset (remove1 fd ?o) = mset (ct_open s)"
      proof (cases "0 \<le> fd")
        case True
        then show ?thesis by simp
      next
        case False
        have "fd \<notin> set (ct_open s)" using False assms(2) by (auto simp: ctr_core_def ct_fds_ok_def)
        then show ?thesis using False by (simp add: remove1_idem)
      qed
      have ep: "ep_inv ?t" using assms(2) by (simp add: ctr_core_def)
      have d: "delay_ok ?t" using assms(2,5) run sdiv_1000 [of "retry_delay s"]
        by (auto simp: ctr_core_def delay_ok_def kInitRetryDelay_def kMaxRetryDelay_def)
      have "\<forall>x \<in> set (remove1 fd ?o). 0 < x" using assms(2) mset_eq_setD [OF m] by (simp add: ctr_core_def ct_fds_ok_def)
      then have "ct_fds_ok ?t" using assms(2,3) m by (simp add: ctr_core_def ct_fds_ok_def ct_pending_def)
      moreover have "ct_chan_ok False ?t" "ct_due_ok ?t" using assms(2-6) run by (auto simp: ctr_core_def ct_chan_ok_def ct_due_ok_def)
      moreover have "ct_live ?t" using run by (simp add: ct_live_def)
      moreover have "tcp_connector.more ?t = tcp_connector.more s" by (simp add: Retry_def ct_timer_after_def ct_close_def Let_def)
      ultimately show ?thesis using eq ep d run by (simp add: ctr_inv_def ctr_core_def)
    qed
  qed
qed

lemma StartInLoop_ok:
  assumes "env_ok (cpenv_of K)" and "ctr_core False s" and "ct_state s = CtDisconnected" and "ct_channel s = None"
    and "ct_timers s = []" and "StartTask \<notin> set (ct_tasks s)" and "attempt_ok K s"
  shows "succeeds (StartInLoop K s) ctr_inv"
  by (rule succeeds_mono [OF StartInLoop_result [OF assms]]) simp

lemma StopInLoop_ok:
  assumes "env_ok (cpenv_of K)" and "ctr_core False s" and "\<not> ct_running s"
  shows "succeeds (StopInLoop K s) (\<lambda>t. ctr_inv t \<and> \<not> ct_running t \<and> ct_timers t = [] \<and> ct_state t \<noteq> CtConnecting)"
proof -
  let ?s = "ct_timer_cancel (ct_timer_id s) s"
  have th: "AssertInLoopThread (cpenv_of K) s = Inr ()" using ctr_core_thread [OF assms(2)] by (simp add: AssertInLoopThread_def)
  have tm: "ct_timers ?s = []" using assms(2) by (auto simp: ct_timer_cancel_def ctr_core_def ct_due_ok_def)
  show ?thesis
  proof (cases "ct_state s = CtConnecting")
    case False
    have "ctr_core False ?s" using assms(2) tm
      by (auto simp: ctr_core_def ctr_inv_defs ct_timer_cancel_def)
    then show ?thesis using False th tm assms(3) by (simp add: StopInLoop_def ctr_inv_def ct_live_def ct_timer_cancel_def)
  next
    case True
    obtain p c where c: "ct_channel s = Some p" "heap s p = Some c" "ch_status c = kAdded" "ep_inv s" "\<not> ch_handling c" "\<not> ch_tied c"
        "ResetTask \<notin> set (ct_tasks s)" "StartTask \<notin> set (ct_tasks s)" "ct_timers s = []"
        "mset (ct_open s) = mset (ct_handed s) + mset (ct_leaked s) + {#ch_fd c#}" "\<forall>fd \<in> set (ct_open s). 0 < fd"
      by (rule connecting_facts [OF assms(2) True]) (use that in auto)
    let ?u = "s\<lparr>ct_state := CtDisconnected, ct_leaked := ct_leaked s @ [ch_fd c]\<rparr>"
    have s: "?s = s" using c(9) by (simp add: ct_timer_cancel_def)
    have u: "ep_inv ?u" "ct_channel ?u = Some p" "heap ?u p = Some c" using c by simp_all
    note rm = RemoveAndResetChannel_eq [OF assms(1) u c(3)]
    have eq: "StopInLoop K s = Inr (ct_post ResetTask (dropped p c ?u))"
      using rm(1) True c(1,2) th unfolding StopInLoop_def s by (simp add: ct_leak_def)
    have "ctr_inv (ct_post ResetTask (dropped p c ?u))" using rm(2) assms(2,3) c
      by (auto simp: ctr_inv_def ctr_core_def ctr_inv_defs count_list_zero)
    then show ?thesis using eq assms(3) c(9) by simp
  qed
qed

lemma ResetChannel_ok:
  assumes "ctr_inv s" and "ct_tasks s = ResetTask # ks"
  shows "succeeds (ResetChannel K (s\<lparr>ct_tasks := ks\<rparr>)) (\<lambda>t. ctr_inv t \<and> ct_channel t = None)"
proof -
  have core: "ctr_core False s" "ct_live s" using assms(1) by (simp_all add: ctr_inv_def)
  obtain p c where c: "ct_channel s = Some p" "heap s p = Some c" "\<not> ch_handling c" "ch_status c = kNew" "ct_state s \<noteq> CtConnecting"
      "ResetTask \<notin> set ks"
    using core(1) assms(2) by (cases "ct_channel s") (auto simp: ctr_core_def ct_chan_ok_def count_list_0_iff split: if_splits)
  let ?t = "s\<lparr>ct_tasks := ks, heap := (heap s)(p := None), ct_channel := None\<rparr>"
  have "ep_inv ((s\<lparr>ct_tasks := ks\<rparr>)\<lparr>heap := (heap (s\<lparr>ct_tasks := ks\<rparr>))(p := None)\<rparr>)"
    by (rule ep_inv_heap_None [of _ _ c]) (use core(1) c in \<open>simp_all add: ctr_core_def\<close>)
  then have ep: "ep_inv ?t" using ep_inv_own(10) [of None "s\<lparr>ct_tasks := ks, heap := (heap s)(p := None)\<rparr>"] by simp
  have "ctr_inv ?t" using ep core c assms(2) by (auto simp: ctr_inv_def ctr_core_def ctr_inv_defs)
  then show ?thesis using c by (simp add: ResetChannel_def delete_Channel_def)
qed

section \<open>Runs\<close>

lemma ct_foreign_eq:
  assumes "tid \<noteq> loop_tid s"
  shows "ct_foreign tid (TCPConnector_Start K) s = Inr ((ct_post StartTask (s\<lparr>current_tid := tid, ct_running := True\<rparr>))\<lparr>current_tid := current_tid s\<rparr>)"
    and "ct_foreign tid (TCPConnector_Stop K) s = Inr ((ct_post StopTask (s\<lparr>current_tid := tid, ct_running := False\<rparr>))\<lparr>current_tid := current_tid s\<rparr>)"
  using assms by (simp_all add: ct_foreign_def TCPConnector_Start_def TCPConnector_Stop_def ct_run_in_loop_def IsInLoopThread_def)

lemma ep_inv_posted:
  "ep_inv s \<Longrightarrow> ep_inv ((ct_post k (s\<lparr>current_tid := tid, ct_running := b\<rparr>))\<lparr>current_tid := current_tid s\<rparr>)"
  by (erule ep_inv_ext) (simp_all add: ct_post_def QueueInLoop_wake_def Wakeup_def)

lemma ct_idle_facts: "ct_idle s \<Longrightarrow> ct_channel s = None \<and> ct_timers s = [] \<and> ct_tasks s = []"
  by (simp add: ct_idle_def)

lemma ctr_task_ok:
  assumes "env_ok (cpenv_of K)" and "ctr_inv s" and "ct_tasks s = k # ks" and "attempt_ok K s"
  shows "succeeds (run_ctr_task K k (s\<lparr>ct_tasks := ks\<rparr>)) ctr_inv"
proof (cases k)
  case StartTask
  then have f: "ct_state s = CtDisconnected" "ct_channel s = None" "ct_timers s = []" "StartTask \<notin> set ks"
    using assms(2,3) by (auto simp: ctr_inv_def ctr_core_def ct_due_ok_def count_list_0_iff)
  have "ctr_core False (s\<lparr>ct_tasks := ks\<rparr>)" using assms(2,3) f StartTask
    by (auto simp: ctr_inv_def ctr_core_def ctr_inv_defs)
  then show ?thesis using StartInLoop_ok [OF assms(1), of "s\<lparr>ct_tasks := ks\<rparr>"] f assms(4) StartTask
    by (simp add: run_ctr_task_def attempt_ok_def used_def)
next
  case StopTask
  have "ctr_core False (s\<lparr>ct_tasks := ks\<rparr>)" using assms(2,3) StopTask
    by (auto simp: ctr_inv_def ctr_core_def ctr_inv_defs split: option.splits if_splits)
  moreover have "\<not> ct_running s" using assms(2,3) StopTask by (simp add: ctr_inv_def ctr_core_def ct_due_ok_def)
  ultimately show ?thesis using succeeds_mono [OF StopInLoop_ok [OF assms(1), of "s\<lparr>ct_tasks := ks\<rparr>"]] StopTask
    by (simp add: run_ctr_task_def)
next
  case ResetTask
  then show ?thesis using succeeds_mono [OF ResetChannel_ok [OF assms(2)]] assms(3) by (simp add: run_ctr_task_def)
qed

lemma ctr_step_ok:
  assumes "env_ok (cpenv_of K)" and "names_ok K" and "ctr_inv s" and "ctr_step K s r"
  shows "succeeds r ctr_inv"
  using assms(4)
proof cases
  case (event p re)
  then show ?thesis using ct_deliver_ok [OF assms(1-3)] by simp
next
  case (late_event p re)
  then show ?thesis using ct_deliver_late [OF assms(3)] by simp
next
  case (task k ks)
  then show ?thesis using ctr_task_ok [OF assms(1,3)] by simp
next
  case (timer xs t ys)
  have f: "ct_state s = CtDisconnected" "xs = []" "ys = []" "StartTask \<notin> set (ct_tasks s)" "ct_channel s = None"
    using timer assms(3) by (auto simp: ctr_inv_def ctr_core_def ct_due_ok_def ct_chan_ok_def append_eq_Cons_conv count_list_zero)
  have "ctr_core False (s\<lparr>ct_timers := []\<rparr>)" using assms(3) by (auto simp: ctr_inv_def ctr_core_def ctr_inv_defs)
  then show ?thesis using StartInLoop_ok [OF assms(1), of "s\<lparr>ct_timers := []\<rparr>"] timer f by (simp add: attempt_ok_def used_def)
next
  case start
  note i = ct_idle_facts [OF start(2)]
  have "ctr_core False (s\<lparr>ct_running := True\<rparr>)" using assms(3) i by (auto simp: ctr_inv_def ctr_core_def ctr_inv_defs)
  then show ?thesis using StartInLoop_ok [OF assms(1), of "s\<lparr>ct_running := True\<rparr>"] start i ctr_core_thread [of False s] assms(3)
    by (simp add: TCPConnector_Start_def ct_run_in_loop_def attempt_ok_def used_def ctr_inv_def IsInLoopThread_def)
next
  case (foreign_start tid)
  note i = ct_idle_facts [OF foreign_start(2)]
  show ?thesis unfolding foreign_start(1) ct_foreign_eq(1) [OF foreign_start(4)]
    using assms(3) i foreign_start(3) ep_inv_posted [of s] by (simp add: ctr_inv_def ctr_core_def ctr_inv_defs)
next
  case restart
  note i = ct_idle_facts [OF restart(2)]
  let ?s = "s\<lparr>ct_running := True, ct_state := CtDisconnected, retry_delay := kInitRetryDelay\<rparr>"
  have "ctr_core False ?s" using assms(3) i by (auto simp: ctr_inv_def ctr_core_def ctr_inv_defs kInitRetryDelay_def kMaxRetryDelay_def)
  then show ?thesis using StartInLoop_ok [OF assms(1), of ?s] restart i ctr_core_thread [of False s] assms(3)
    by (simp add: Restart_def attempt_ok_def used_def ctr_inv_def AssertInLoopThread_def)
next
  case stop
  have "ctr_core False (s\<lparr>ct_running := False\<rparr>)" using assms(3) by (auto simp: ctr_inv_def ctr_core_def ctr_inv_defs)
  then show ?thesis using succeeds_mono [OF StopInLoop_ok [OF assms(1), of "s\<lparr>ct_running := False\<rparr>"]] stop ctr_core_thread [of False s] assms(3)
    by (simp add: TCPConnector_Stop_def ct_run_in_loop_def ctr_inv_def IsInLoopThread_def)
next
  case (foreign_stop tid)
  show ?thesis unfolding foreign_stop(1) ct_foreign_eq(2) [OF foreign_stop(2)]
    using assms(3) ep_inv_posted [of s] by (auto simp: ctr_inv_def ctr_core_def ctr_inv_defs split: option.splits)
qed

inductive ctr_reach :: "ctr_env \<Rightarrow> tcp_connector \<Rightarrow> bool" for K where
  created: "ep_inv loop \<Longrightarrow> ctr_reach K (TCPConnector_ctor loop)"
| stepped: "ctr_reach K s \<Longrightarrow> ctr_step K s (Inr t) \<Longrightarrow> ctr_reach K t"

lemma TCPConnector_ctor_ok: "ep_inv loop \<Longrightarrow> ctr_inv (TCPConnector_ctor loop)"
proof -
  assume "ep_inv loop"
  then have "ep_inv (TCPConnector_ctor loop)"
    by (rule ep_inv_ext) (simp_all add: TCPConnector_ctor_def event_loop.defs)
  then show ?thesis
    by (simp add: ctr_inv_def ctr_core_def ctr_inv_defs TCPConnector_ctor_def event_loop.defs tcp_connector.defs
        kInitRetryDelay_def kMaxRetryDelay_def)
qed

lemma ctr_reach_inv:
  assumes "env_ok (cpenv_of K)" and "names_ok K" and "ctr_reach K s"
  shows "ctr_inv s"
  using assms(3)
proof induction
  case (created loop)
  then show ?case by (rule TCPConnector_ctor_ok)
next
  case (stepped s t)
  then show ?case using ctr_step_ok [OF assms(1,2)] by fastforce
qed

section \<open>Delays\<close>

text \<open>The retry policy that this connector and the older one share: while it is on, each retry doubles the delay up to a limit.\<close>

locale backoff =
  fixes delay :: "'s \<Rightarrow> int" and retry :: "'s \<Rightarrow> 's" and active :: "'s \<Rightarrow> bool"
  assumes active_retry: "active s \<Longrightarrow> active (retry s)"
    and delay_retry: "active s \<Longrightarrow> delay (retry s) = min (delay s * 2) kMaxRetryDelay"
begin

lemma active_iterate: "active s \<Longrightarrow> active ((retry ^^ n) s)"
  by (induction n) (simp_all add: active_retry)

lemma delay_iterate:
  assumes "active s" and "delay s = kInitRetryDelay"
  shows "delay ((retry ^^ n) s) = 1000 * min (2 ^ n) 30"
proof (induction n)
  case 0
  then show ?case using assms(2) by (simp add: kInitRetryDelay_def)
next
  case (Suc n)
  then show ?case using active_iterate [OF assms(1), of n] by (simp add: delay_retry kMaxRetryDelay_def min_def)
qed

end

interpretation ctr: backoff retry_delay Retry ct_running
  by unfold_locales simp_all

section \<open>Properties\<close>


text \<open>
  C18: A running connector is never stuck: it is connected, or connecting with its channel in the
  poller, or a start is due, by a call in the task queue or by exactly one timer, never both; a timer
  is due after one to thirty seconds.
\<close>

theorem connector_never_stuck:
  assumes "env_ok (cpenv_of K)" and "names_ok K" and "ctr_reach K s" and "ct_running s"
  shows "ct_state s = CtConnected \<or>
    (ct_state s = CtConnecting \<and> (\<exists>p c. ct_channel s = Some p \<and> heap s p = Some c \<and> ch_status c = kAdded)) \<or>
    (ct_state s = CtDisconnected \<and> (\<exists>d. ct_timers s = [(ct_timer_id s, d)] \<and> 1 \<le> d \<and> d \<le> 30) \<and> StartTask \<notin> set (ct_tasks s)) \<or>
    (ct_state s = CtDisconnected \<and> ct_timers s = [] \<and> count_list (ct_tasks s) StartTask = 1)"
proof -
  have core: "ctr_core False s" "ct_live s" using ctr_reach_inv [OF assms(1-3)] by (simp_all add: ctr_inv_def)
  show ?thesis
  proof (cases "ct_state s")
    case CtConnecting
    then show ?thesis by (metis connecting_facts [OF core(1)])
  next
    case CtDisconnected
    then show ?thesis using core assms(4) by (auto simp: ctr_core_def ct_due_ok_def ct_live_def delay_ok_def)
  qed simp
qed

text \<open>
  C19: The connector's descriptors: an open descriptor was handed over, or is the one that is
  connecting, or was leaked by a stop while it was connecting; no other is open.
\<close>

theorem connector_descriptors:
  assumes "env_ok (cpenv_of K)" and "names_ok K" and "ctr_reach K s"
  shows "mset (ct_open s) = mset (ct_handed s) + mset (ct_leaked s) +
    (case ct_channel s of Some p \<Rightarrow> if ct_state s = CtConnecting then {#ch_fd (the (heap s p))#} else {#} | None \<Rightarrow> {#})"
proof -
  have core: "ctr_core False s" using ctr_reach_inv [OF assms] by (simp add: ctr_inv_def)
  then have "ct_channel s = None \<Longrightarrow> ct_state s \<noteq> CtConnecting" by (simp add: ctr_core_def ct_chan_ok_def)
  then show ?thesis using core by (auto simp: ctr_core_def ct_fds_ok_def ct_pending_def split: option.splits)
qed

text \<open>
  C31: The delays: \<open>n\<close> failures in a row, from the initial delay, are answered by timers of 1, 2, 4, 8,
  16 and from then on 30 seconds.
\<close>

theorem connector_backoff:
  assumes "ct_running s" and "retry_delay s = kInitRetryDelay"
  shows "map snd (ct_timers ((Retry ^^ n) s)) = map snd (ct_timers s) @ map (\<lambda>i. min (2 ^ i) 30) [0..<n]"
proof -
  have q: "(1000 * min (2 ^ n) 30) sdiv 1000 = (min (2 ^ n) 30 :: int)" for n by (simp add: signed_divide_int_def)
  show ?thesis
  proof (induction n)
    case (Suc n)
    then show ?case using ctr.active_iterate [OF assms(1), of n] by (simp add: ctr.delay_iterate [OF assms] q)
  qed simp
qed

text \<open>\<^verbatim>\<open>Stop\<close> on the loop's thread while the connector is connecting.\<close>

lemma Stop_connecting:
  assumes "env_ok (cpenv_of K)" and "ctr_inv s" and "ct_state s = CtConnecting"
  obtains p c t where "ct_channel s = Some p" "heap s p = Some c" "\<not> ch_tied c"
    "TCPConnector_Stop K s = Inr t" "t = ct_post ResetTask (dropped p c (s\<lparr>ct_running := False, ct_state := CtDisconnected, ct_leaked := ct_leaked s @ [ch_fd c]\<rparr>))"
    "IsInLoopThread t" "ct_attempts t = ct_attempts s"
proof -
  have core: "ctr_core False s" using assms(2) by (simp add: ctr_inv_def)
  obtain p c where c: "ct_channel s = Some p" "heap s p = Some c" "ch_status c = kAdded" "ep_inv s" "ct_timers s = []" "\<not> ch_tied c"
    by (rule connecting_facts [OF core assms(3)])
  let ?u = "s\<lparr>ct_running := False, ct_state := CtDisconnected, ct_leaked := ct_leaked s @ [ch_fd c]\<rparr>"
  have th: "IsInLoopThread s" by (rule ctr_core_thread [OF core])
  have u: "ep_inv ?u" "ct_channel ?u = Some p" "heap ?u p = Some c" using c by simp_all
  note rm = RemoveAndResetChannel_eq [OF assms(1) u c(3)]
  let ?t = "ct_post ResetTask (dropped p c ?u)"
  have cancel: "ct_timer_cancel i (s\<lparr>ct_running := False\<rparr>) = s\<lparr>ct_running := False\<rparr>" for i using c(5) by (simp add: ct_timer_cancel_def)
  have "TCPConnector_Stop K s = Inr ?t" using rm(1) assms(3) c(1,2) th
    by (simp add: TCPConnector_Stop_def ct_run_in_loop_def StopInLoop_def cancel ct_leak_def IsInLoopThread_def AssertInLoopThread_def)
  moreover have "IsInLoopThread ?t" "ct_attempts ?t = ct_attempts s"
    using th by (simp_all add: IsInLoopThread_def ct_post_def QueueInLoop_wake_def Wakeup_def dropped_def unregistered_def registered_def)
  ultimately show ?thesis using that c by blast
qed

text \<open>
  A stop on the loop's thread while the connector is connecting, followed by a start before the
  loop has run \<^verbatim>\<open>ResetChannel\<close>, fails \<^verbatim>\<open>assert(!channel_)\<close>.
\<close>

theorem Stop_Start_fails:
  assumes "env_ok (cpenv_of K)" and "ctr_inv s" and "ct_state s = CtConnecting" and "\<not> ndebug (cpenv_of K)"
    and "snd (k_attempt K (ct_attempts s)) = EINPROGRESS"
  shows "rbind (TCPConnector_Stop K s) (TCPConnector_Start K) = Inl AssertionFailed"
proof -
  obtain p c t where p: "ct_channel s = Some p" and t: "TCPConnector_Stop K s = Inr t"
      "t = ct_post ResetTask (dropped p c (s\<lparr>ct_running := False, ct_state := CtDisconnected, ct_leaked := ct_leaked s @ [ch_fd c]\<rparr>))"
      "IsInLoopThread t" "ct_attempts t = ct_attempts s"
    by (rule Stop_connecting [OF assms(1-3)])
  have "ct_state t = CtDisconnected" "ct_channel t = Some p" using t(2) p by simp_all
  then show ?thesis using t(1,3,4) assms(4,5)
    by (simp add: TCPConnector_Start_def ct_run_in_loop_def StartInLoop_def Connect_def Connecting_def IsInLoopThread_def
        AssertInLoopThread_def dassert_def Let_def)
qed

text \<open>
  When another handler stops a connecting connector in the same round of the loop in which the kernel reported its
  socket writable, the write event still reaches \<^verbatim>\<open>HandleWrite\<close>, whose assertion on the state fails.
\<close>

theorem Stop_late_write_fails:
  assumes "env_ok (cpenv_of K)" and "ctr_inv s" and "ct_state s = CtConnecting" and "\<not> ndebug (cpenv_of K)"
    and "ct_channel s = Some p" and "fires_write re"
  shows "rbind (TCPConnector_Stop K s) (ct_deliver K p re) = Inl AssertionFailed"
proof -
  obtain c where c: "heap s p = Some c" "ch_has_write c" using assms(2,3,5) by (auto simp: ctr_inv_def ctr_core_def ct_chan_ok_def)
  obtain t where t: "TCPConnector_Stop K s = Inr t" "\<not> ch_tied c"
      "t = ct_post ResetTask (dropped p c (s\<lparr>ct_running := False, ct_state := CtDisconnected, ct_leaked := ct_leaked s @ [ch_fd c]\<rparr>))"
    by (rule Stop_connecting [OF assms(1-3)]) (use assms(5) c(1) in auto)
  obtain d where d: "heap t p = Some d" "\<not> ch_tied d" "ch_has_write d" "ct_state t = CtDisconnected"
    using t(2,3) c(2) by (auto simp: dropped_def unregistered_def registered_def)
  then show ?thesis using t(1) assms(4,6)
    by (simp add: ct_deliver_def HandleEvent_def HandleEvent_impl_def fire_def has_cb_def ctr_call_def ct_HandleWrite_def fires_write_def dassert_def)
qed

text \<open>Starting a connector that is connected, connecting or waiting to retry fails too, at once or when the timer is due.\<close>

lemma Start_when_connected_fails:
  assumes "IsInLoopThread s" and "ct_state s \<noteq> CtDisconnected" and "\<not> ndebug (cpenv_of K)"
  shows "TCPConnector_Start K s = Inl AssertionFailed"
  using assms by (auto simp: TCPConnector_Start_def ct_run_in_loop_def StartInLoop_def AssertInLoopThread_def IsInLoopThread_def dassert_def)

text \<open>
  \<^verbatim>\<open>StopInLoop\<close> leaks the descriptor of the attempt it interrupts: it stays open although the
  connector has handed it to nobody and forgets the channel that knows it.
\<close>

theorem Stop_leaks_descriptor:
  assumes "env_ok (cpenv_of K)" and "ctr_inv s" and "ct_state s = CtConnecting" and "ct_channel s = Some p" and "heap s p = Some c"
  shows "succeeds (StopInLoop K (s\<lparr>ct_running := False\<rparr>)) (\<lambda>t. ct_open t = ct_open s \<and> ch_fd c \<in> set (ct_open t) \<and>
    ct_handed t = ct_handed s \<and> ct_state t = CtDisconnected \<and> ResetTask \<in> set (ct_tasks t))"
proof -
  have core: "ctr_core False s" using assms(2) by (simp add: ctr_inv_def)
  have f: "ch_status c = kAdded" "ep_inv s" "ct_timers s = []" "ch_fd c \<in> set (ct_open s)"
    by (rule connecting_facts [OF core assms(3)]; use assms(4,5) in \<open>auto dest: arg_cong [where f = set_mset]\<close>)+
  let ?u = "s\<lparr>ct_running := False, ct_state := CtDisconnected, ct_leaked := ct_leaked s @ [ch_fd c]\<rparr>"
  have u: "ep_inv ?u" "ct_channel ?u = Some p" "heap ?u p = Some c" using f assms(4,5) by simp_all
  have cancel: "ct_timer_cancel i (s\<lparr>ct_running := False\<rparr>) = s\<lparr>ct_running := False\<rparr>" for i using f(3) by (simp add: ct_timer_cancel_def)
  have "StopInLoop K (s\<lparr>ct_running := False\<rparr>) = Inr (ct_post ResetTask (dropped p c ?u))"
    using RemoveAndResetChannel_eq(1) [OF assms(1) u f(1)] assms(3-5) ctr_core_thread [OF core]
    by (simp add: StopInLoop_def cancel ct_leak_def AssertInLoopThread_def IsInLoopThread_def)
  then show ?thesis using f(4) by simp
qed


section \<open>Witnesses\<close>

text \<open>A kernel on which every attempt is in progress with descriptor 8.\<close>

definition sample_ctr_env :: ctr_env where
  "sample_ctr_env = \<lparr>ksock = linux_sock_env, k_attempt = (\<lambda>i. (8, EINPROGRESS)), new_addr = (\<lambda>i. 20 + i)\<rparr>"

lemma sample_ctr_env_ok: "env_ok (cpenv_of sample_ctr_env)" "names_ok sample_ctr_env" "\<not> ndebug (cpenv_of sample_ctr_env)"
  using linux_env_ok by (simp_all add: sample_ctr_env_def linux_sock_env_def names_ok_def linux_env_def)

lemma sample_connector:
  obtains s t where "ctr_reach sample_ctr_env s" "TCPConnector_Start sample_ctr_env s = Inr t" "ctr_step sample_ctr_env s (TCPConnector_Start sample_ctr_env s)"
    "ctr_reach sample_ctr_env t" "ct_running t" "ct_state t = CtConnecting" "ct_channel t = Some 20" "ct_open t = [8]" "retry_delay s = kInitRetryDelay"
proof -
  obtain l :: event_loop where l: "ep_inv l" "dom (heap l) = {10, 11}" "used l = {5, 6}" "length (channels l) = kInitTotalChannelSize"
    using EventLoop_ctor_ok [OF linux_env_ok, of 10 11 5 6 1 7 3 False] by (auto simp: el_inv_def elim!: succeedsE)
  let ?s = "TCPConnector_ctor l" and ?K = sample_ctr_env
  have f: "heap ?s = heap l" "used ?s = used l" "channels ?s = channels l" "ct_state ?s = CtDisconnected" "ct_channel ?s = None"
      "ct_timers ?s = []" "ct_tasks ?s = []" "ct_open ?s = []" "ct_attempts ?s = 0" "retry_delay ?s = kInitRetryDelay"
    by (simp_all add: TCPConnector_ctor_def event_loop.defs tcp_connector.defs used_def)
  have "20 \<notin> dom (heap l)" using l(2) by simp
  then have h: "heap l 20 = None" by (simp only: domIff not_not)
  have "attempt_ok ?K ?s" using l(3,4) h f by (simp add: attempt_ok_def sample_ctr_env_def kInitTotalChannelSize_def)
  then have st: "ctr_step ?K ?s (TCPConnector_Start ?K ?s)" using f by (intro ctr_step.start) (simp_all add: ct_idle_def)
  have r: "ctr_reach ?K ?s" by (rule ctr_reach.created [OF l(1)])
  have inv: "ctr_inv ?s" by (rule TCPConnector_ctor_ok [OF l(1)])
  let ?u = "?s\<lparr>ct_running := True\<rparr>"
  have th: "IsInLoopThread ?u" using inv ctr_core_thread [of False ?s] by (simp add: ctr_inv_def IsInLoopThread_def)
  have core: "ctr_core False ?u" using inv f by (auto simp: ctr_inv_def ctr_core_def ctr_inv_defs)
  have "TCPConnector_Start ?K ?s = Connecting ?K 20 8 (?u\<lparr>ct_attempts := 1, ct_open := ct_open ?u @ [8]\<rparr>)"
    using th f by (simp add: TCPConnector_Start_def ct_run_in_loop_def StartInLoop_def AssertInLoopThread_def Connect_def sample_ctr_env_def Let_def)
  moreover have "succeeds (Connecting ?K 20 8 (?u\<lparr>ct_attempts := 1, ct_open := ct_open ?u @ [8]\<rparr>)) (\<lambda>t. ctr_inv t \<and> ct_state t = CtConnecting \<and>
    ct_channel t = Some 20 \<and> interest t = (interest ?u)(8 \<mapsto> (kWriteEvent, 20)) \<and> ct_open t = ct_open ?u @ [8] \<and> ct_running t = ct_running ?u \<and> tcp_connector.more t = tcp_connector.more ?u)"
    by (rule Connecting_ok [OF sample_ctr_env_ok(1) core]) (use f h l in \<open>simp_all add: used_def kInitTotalChannelSize_def\<close>)
  ultimately obtain t where t: "TCPConnector_Start ?K ?s = Inr t" "ctr_inv t" "ct_state t = CtConnecting" "ct_channel t = Some 20" "ct_open t = [8]" "ct_running t"
    using f by (auto elim!: succeedsE)
  then show ?thesis using that [OF r t(1) st ctr_reach.stepped [OF r]] t st f by simp
qed


theorem connector_never_stuck_witness:
  "\<exists>s. ctr_reach sample_ctr_env s \<and> ct_running s \<and> (ct_state s = CtConnected \<or> ct_state s = CtConnecting \<or> ct_timers s \<noteq> [] \<or> ct_tasks s \<noteq> [])"
proof -
  obtain s where s: "ctr_reach sample_ctr_env s" "ct_running s" by (rule sample_connector)
  have "ct_state s = CtConnected \<or> ct_state s = CtConnecting \<or> ct_timers s \<noteq> [] \<or> ct_tasks s \<noteq> []"
    using connector_never_stuck [OF sample_ctr_env_ok(1,2) s] by auto
  then show ?thesis using s by blast
qed

theorem connector_descriptors_witness:
  "\<exists>s. ctr_reach sample_ctr_env s \<and> ct_state s = CtConnecting \<and> ct_open s = [8] \<and> ct_handed s = [] \<and> ct_leaked s = []"
proof -
  obtain s where s: "ctr_reach sample_ctr_env s" "ct_state s = CtConnecting" "ct_channel s = Some 20" "ct_open s = [8]"
    by (rule sample_connector)
  have "{#8#} = mset (ct_handed s) + mset (ct_leaked s) + {#ch_fd (the (heap s 20))#}"
    using connector_descriptors [OF sample_ctr_env_ok(1,2) s(1)] s(2-4) by simp
  from arg_cong [OF this, of size] have "ct_handed s = []" "ct_leaked s = []" by simp_all
  then show ?thesis using s by blast
qed

theorem connector_backoff_witness:
  "map snd (ct_timers ((Retry ^^ 7) ((TCPConnector_ctor (event_loop.truncate sample_sys))\<lparr>ct_running := True\<rparr>))) =
    [1, 2, 4, 8, 16, 30, 30]"
proof -
  let ?s = "(TCPConnector_ctor (event_loop.truncate sample_sys))\<lparr>ct_running := True\<rparr>"
  have s: "ct_running ?s" "retry_delay ?s = kInitRetryDelay" "ct_timers ?s = []"
    by (simp_all add: TCPConnector_ctor_def event_loop.defs tcp_connector.defs)
  have "[0..<7] = [0, 1, 2, 3, 4, 5, 6 :: nat]" by code_simp
  then show ?thesis using connector_backoff [OF s(1,2), of 7] s(3) by simp
qed

theorem Stop_Start_fails_witness:
  "\<exists>s. ctr_reach sample_ctr_env s \<and> rbind (TCPConnector_Stop sample_ctr_env s) (TCPConnector_Start sample_ctr_env) = Inl AssertionFailed"
proof -
  obtain s where s: "ctr_reach sample_ctr_env s" "ct_state s = CtConnecting" by (rule sample_connector)
  have "snd (k_attempt sample_ctr_env (ct_attempts s)) = EINPROGRESS" by (simp add: sample_ctr_env_def)
  then show ?thesis
    using Stop_Start_fails [OF sample_ctr_env_ok(1) ctr_reach_inv [OF sample_ctr_env_ok(1,2) s(1)] s(2) sample_ctr_env_ok(3)] s(1) by blast
qed

theorem Stop_late_write_fails_witness:
  "\<exists>s. ctr_reach sample_ctr_env s \<and> rbind (TCPConnector_Stop sample_ctr_env s) (ct_deliver sample_ctr_env 20 EPOLLOUT) = Inl AssertionFailed"
proof -
  obtain s where s: "ctr_reach sample_ctr_env s" "ct_state s = CtConnecting" "ct_channel s = Some 20" by (rule sample_connector)
  have "fires_write EPOLLOUT" by (simp add: fires_write_def has_event_def event_masks)
  then show ?thesis
    using Stop_late_write_fails [OF sample_ctr_env_ok(1) ctr_reach_inv [OF sample_ctr_env_ok(1,2) s(1)] s(2) sample_ctr_env_ok(3) s(3)] s(1) by blast
qed

theorem Stop_leaks_descriptor_witness:
  "\<exists>s. ctr_reach sample_ctr_env s \<and> succeeds (StopInLoop sample_ctr_env (s\<lparr>ct_running := False\<rparr>)) (\<lambda>t. 8 \<in> set (ct_open t))"
proof -
  obtain s where s: "ctr_reach sample_ctr_env s" "ct_state s = CtConnecting" "ct_channel s = Some 20" "ct_open s = [8]" by (rule sample_connector)
  have inv: "ctr_inv s" by (rule ctr_reach_inv [OF sample_ctr_env_ok(1,2) s(1)])
  then obtain c where "heap s 20 = Some c" using s(3) by (auto simp: ctr_inv_def ctr_core_def ct_chan_ok_def)
  from Stop_leaks_descriptor [OF sample_ctr_env_ok(1) inv s(2,3) this]
  show ?thesis using s(1,4) by (auto elim!: succeedsE)
qed

end
