(* ===== verification/Connector.thy ===== *)
theory Connector
  imports TCPConnector
begin

text \<open>
  The older connector (\<^verbatim>\<open>src/connector.h\<close>, \<^verbatim>\<open>src/connector.cc\<close>). Its members are those of \<^verbatim>\<open>TCPConnector\<close>, so
  the state and the environment of theory \<open>TCPConnector\<close> serve it too. It differs in who closes the
  descriptor (\<^verbatim>\<open>Retry\<close>, \<^verbatim>\<open>StopInLoop\<close>), in its \<^verbatim>\<open>HandleWrite\<close>, and in that \<^verbatim>\<open>Retry\<close> sets no timer: the call is
  commented out.
\<close>

section \<open>Operations\<close>

definition Connector_ctor :: "event_loop \<Rightarrow> tcp_connector" where
  "Connector_ctor loop =
     event_loop.extend loop
       (tcp_connector.fields False CtDisconnected None kInitRetryDelay 0 [] 1 [] 0 [] [] [])"

definition Connector_Retry :: "int \<Rightarrow> 'z tcp_connector_scheme \<Rightarrow> 'z tcp_connector_scheme" where
  "Connector_Retry fd s =
     (let s = (ct_close fd s)\<lparr>ct_state := CtDisconnected\<rparr> in
      if ct_running s then s\<lparr>retry_delay := min (retry_delay s * 2) kMaxRetryDelay\<rparr> else s)"

definition Connector_RemoveAndResetChannel :: "ctr_env \<Rightarrow> 'z tcp_connector_scheme \<Rightarrow> (int \<times> 'z tcp_connector_scheme) outcome" where
  "Connector_RemoveAndResetChannel K s =
     rbind (ct_chan s) (\<lambda>p.
     rbind (DisableAll (cpenv_of K) p s) (\<lambda>s.
     rbind (Channel_Remove (cpenv_of K) p s) (\<lambda>s.
     rbind (deref p s) (\<lambda>c. Inr (ch_fd c, ct_post ResetTask s)))))"

definition Connector_ResetChannel :: "ctr_env \<Rightarrow> 'z tcp_connector_scheme \<Rightarrow> 'z tcp_connector_scheme outcome" where
  "Connector_ResetChannel K s =
     (case ct_channel s of
        None \<Rightarrow> Inr s
      | Some p \<Rightarrow> rbind (delete_Channel (cpenv_of K) p s) (\<lambda>s. Inr (s\<lparr>ct_channel := None\<rparr>)))"

definition Connector_Connecting :: "ctr_env \<Rightarrow> addr \<Rightarrow> int \<Rightarrow> 'z tcp_connector_scheme \<Rightarrow> 'z tcp_connector_scheme outcome" where
  "Connector_Connecting K p fd s =
     rbind (dassert (cpenv_of K) (CtDisconnected = ct_state s)) (\<lambda>_.
     rbind (dassert (cpenv_of K) (ct_channel s = None)) (\<lambda>_.
     rbind (new_Channel (cpenv_of K) p fd '''' (s\<lparr>ct_state := CtConnecting, ct_channel := Some p\<rparr>)) (\<lambda>s.
     rbind (modify p (\<lambda>c. c\<lparr>ch_has_write := True, ch_has_error := True, ch_has_close := True\<rparr>) s)
       (EnableWriting (cpenv_of K) p))))"

definition Connector_Connect :: "ctr_env \<Rightarrow> 'z tcp_connector_scheme \<Rightarrow> 'z tcp_connector_scheme outcome" where
  "Connector_Connect K s =
     (let i = ct_attempts s;
          sockfd = fst (k_attempt K i);
          err_no = snd (k_attempt K i);
          s = s\<lparr>ct_attempts := i + 1, ct_open := ct_open s @ (if 0 \<le> sockfd then [sockfd] else [])\<rparr>
      in if err_no = 0 \<or> err_no = EINTR \<or> err_no = EINPROGRESS \<or> err_no = EISCONN
         then Connector_Connecting K (new_addr K i) sockfd s
         else Inr (Connector_Retry sockfd s))"

definition Connector_StartInLoop :: "ctr_env \<Rightarrow> 'z tcp_connector_scheme \<Rightarrow> 'z tcp_connector_scheme outcome" where
  "Connector_StartInLoop K s =
     rbind (AssertInLoopThread (cpenv_of K) s) (\<lambda>_.
     rbind (dassert (cpenv_of K) (CtDisconnected = ct_state s)) (\<lambda>_.
       if ct_running s then Connector_Connect K s else Inr s))"

definition Connector_StopInLoop :: "ctr_env \<Rightarrow> 'z tcp_connector_scheme \<Rightarrow> 'z tcp_connector_scheme outcome" where
  "Connector_StopInLoop K s =
     rbind (AssertInLoopThread (cpenv_of K) s) (\<lambda>_.
       if CtConnecting = ct_state s
       then rbind (Connector_RemoveAndResetChannel K (s\<lparr>ct_state := CtDisconnected\<rparr>)) (\<lambda>(sockfd, s). Inr (ct_close sockfd s))
       else Inr s)"

definition Connector_Start :: "ctr_env \<Rightarrow> 'z tcp_connector_scheme \<Rightarrow> 'z tcp_connector_scheme outcome" where
  "Connector_Start K s = ct_run_in_loop StartTask (Connector_StartInLoop K) (s\<lparr>ct_running := True\<rparr>)"

definition Connector_Restart :: "ctr_env \<Rightarrow> 'z tcp_connector_scheme \<Rightarrow> 'z tcp_connector_scheme outcome" where
  "Connector_Restart K s =
     rbind (AssertInLoopThread (cpenv_of K) s) (\<lambda>_.
       Connector_StartInLoop K (s\<lparr>ct_state := CtDisconnected, retry_delay := kInitRetryDelay, ct_running := True\<rparr>))"

definition Connector_Stop :: "ctr_env \<Rightarrow> 'z tcp_connector_scheme \<Rightarrow> 'z tcp_connector_scheme outcome" where
  "Connector_Stop K s =
     rbind (ct_run_in_loop StopTask (Connector_StopInLoop K) (s\<lparr>ct_running := False\<rparr>)) (\<lambda>s.
       Inr (ct_timer_cancel (ct_timer_id s) s))"

text \<open>After a self connection \<^verbatim>\<open>HandleWrite\<close> retries, and goes on: there is no \<^verbatim>\<open>return\<close>.\<close>

definition Connector_HandleWrite :: "ctr_env \<Rightarrow> (int \<Rightarrow> 'z tcp_connector_scheme \<Rightarrow> 'z tcp_connector_scheme outcome) \<Rightarrow>
    'z tcp_connector_scheme \<Rightarrow> 'z tcp_connector_scheme outcome" where
  "Connector_HandleWrite K cb s =
     rbind (dassert (cpenv_of K) (CtConnecting = ct_state s)) (\<lambda>_.
     rbind (Connector_RemoveAndResetChannel K s) (\<lambda>(sockfd, s).
     if 0 < GetSocketError (ksock K) sockfd then Inr (Connector_Retry sockfd s)
     else
     rbind (GetLocalAddress (ksock K) sockfd) (\<lambda>l.
     rbind (GetPeerAddress (ksock K) sockfd) (\<lambda>r.
     let s = (if operator_eq l r then Connector_Retry sockfd s else s);
         s = s\<lparr>ct_state := CtConnected\<rparr> in
     rbind (if ct_running s then cb sockfd s else Inr (ct_close sockfd s)) (\<lambda>s.
       Inr (s\<lparr>retry_delay := kInitRetryDelay\<rparr>))))))"

definition Connector_HandleError :: "ctr_env \<Rightarrow> 'z tcp_connector_scheme \<Rightarrow> 'z tcp_connector_scheme outcome" where
  "Connector_HandleError K s =
     (if CtConnecting = ct_state s
      then rbind (Connector_RemoveAndResetChannel K s) (\<lambda>(sockfd, s). Inr (Connector_Retry sockfd s))
      else Inr s)"

section \<open>Common parts\<close>

text \<open>The operations that are the same as those of \<^verbatim>\<open>TCPConnector\<close>.\<close>

lemma Connector_Connecting_eq: "Connector_Connecting = Connecting" and Connector_ResetChannel_eq: "Connector_ResetChannel = ResetChannel"
  and Connector_ctor_eq: "Connector_ctor = TCPConnector_ctor"
  by (simp_all add: fun_eq_iff Connector_Connecting_def Connecting_def Connector_ResetChannel_def ResetChannel_def
      Connector_ctor_def TCPConnector_ctor_def)

lemma Connector_RemoveAndResetChannel_eq:
  assumes "env_ok (cpenv_of K)" and "ep_inv s" and "ct_channel s = Some p" and "heap s p = Some c" and "ch_status c = kAdded"
  shows "Connector_RemoveAndResetChannel K s = Inr (ch_fd c, ct_post ResetTask (dropped p c s))"
proof -
  have "ch_status c \<noteq> kNew" using assms(5) by (simp add: status_defs)
  then have "drop_channel (cpenv_of K) p s = Inr (dropped p c s)"
    using drop_channel_eq(1) [OF assms(1,2,4)] by (simp add: dropped_def)
  moreover have "Connector_RemoveAndResetChannel K s =
      rbind (drop_channel (cpenv_of K) p s) (\<lambda>s. rbind (deref p s) (\<lambda>c. Inr (ch_fd c, ct_post ResetTask s)))"
    using assms(3) by (simp add: Connector_RemoveAndResetChannel_def ct_chan_def drop_channel_def rbind_assoc)
  ultimately show ?thesis by simp
qed

interpretation old: backoff retry_delay "Connector_Retry fd" ct_running for fd
  by unfold_locales (simp_all add: Connector_Retry_def Let_def)

section \<open>Properties\<close>

text \<open>
  A stop while the older connector is connecting takes the channel out of the poller and closes
  the descriptor, which \<^verbatim>\<open>TCPConnector\<close> does not.
\<close>

theorem Connector_Stop_closes:
  assumes "env_ok (cpenv_of K)" and "ctr_inv s" and "ct_state s = CtConnecting"
  shows "succeeds (Connector_Stop K s) (\<lambda>t. mset (ct_open t) = mset (ct_handed t) + mset (ct_leaked t) \<and> \<not> ct_running t \<and>
    ct_state t = CtDisconnected \<and> ep_inv t)"
proof -
  have core: "ctr_core False s" using assms(2) by (simp add: ctr_inv_def)
  obtain p c where c: "ct_channel s = Some p" "heap s p = Some c" "ch_status c = kAdded" "ep_inv s" "ct_timers s = []"
      "mset (ct_open s) = mset (ct_handed s) + mset (ct_leaked s) + {#ch_fd c#}"
    by (rule connecting_facts [OF core assms(3)])
  let ?u = "s\<lparr>ct_running := False, ct_state := CtDisconnected\<rparr>"
  have u: "ep_inv ?u" "ct_channel ?u = Some p" "heap ?u p = Some c" using c by simp_all
  let ?t = "ct_close (ch_fd c) (ct_post ResetTask (dropped p c ?u))"
  have "Connector_Stop K s = Inr (ct_timer_cancel (ct_timer_id ?t) ?t)"
    using Connector_RemoveAndResetChannel_eq [OF assms(1) u c(3)] assms(3) ctr_core_thread [OF core]
    by (simp add: Connector_Stop_def ct_run_in_loop_def Connector_StopInLoop_def AssertInLoopThread_def IsInLoopThread_def)
  moreover have "ep_inv ?t" using RemoveAndResetChannel_eq(2) [OF assms(1) u c(3)] by simp
  ultimately show ?thesis using c(6) by (simp add: ct_timer_cancel_def)
qed

text \<open>
  The older connector does not retry: after a failed attempt it is disconnected and running, its
  delay is doubled, and no timer and no call will ever start another attempt.
\<close>

theorem Connector_never_retries:
  assumes "env_ok (cpenv_of K)" and "ctr_inv s" and "ct_state s = CtConnecting" and "ct_running s"
  shows "succeeds (Connector_HandleError K s) (\<lambda>t. ct_running t \<and> ct_state t = CtDisconnected \<and> ct_timers t = [] \<and>
    StartTask \<notin> set (ct_tasks t) \<and> retry_delay t = min (retry_delay s * 2) kMaxRetryDelay)"
proof -
  have core: "ctr_core False s" using assms(2) by (simp add: ctr_inv_def)
  obtain p c where c: "ct_channel s = Some p" "heap s p = Some c" "ch_status c = kAdded" "ep_inv s" "ct_timers s = []"
      "StartTask \<notin> set (ct_tasks s)"
    by (rule connecting_facts [OF core assms(3)])
  show ?thesis using Connector_RemoveAndResetChannel_eq [OF assms(1) c(4,1-3)] assms(3,4) c(5,6)
    by (simp add: Connector_HandleError_def Connector_Retry_def)
qed

text \<open>
  On a connection to itself the older connector closes the descriptor and gives it to the
  callback all the same: the user receives a descriptor that is not open.
\<close>

theorem Connector_self_connect:
  assumes "env_ok (cpenv_of K)" and "ctr_inv s" and "ct_state s = CtConnecting" and "ct_running s"
    and "ct_channel s = Some p" and "heap s p = Some c" and "distinct (ct_open s)"
    and "GetSocketError (ksock K) (ch_fd c) \<le> 0" and "sockname (ksock K) (ch_fd c) = Some a" and "peername (ksock K) (ch_fd c) = Some a"
  shows "succeeds (Connector_HandleWrite K ct_hand_over s) (\<lambda>t. ct_handed t = ct_handed s @ [ch_fd c] \<and> ch_fd c \<notin> set (ct_open t) \<and>
    ct_state t = CtConnected)"
proof -
  have core: "ctr_core False s" using assms(2) by (simp add: ctr_inv_def)
  have f: "ch_status c = kAdded" "ep_inv s"
    by (rule connecting_facts [OF core assms(3)]; use assms(5,6) in simp)+
  have "operator_eq a a" by (simp add: operator_eq_def)
  then show ?thesis using Connector_RemoveAndResetChannel_eq [OF assms(1) f(2) assms(5,6) f(1)] assms(3,4,7-10)
    by (simp add: Connector_HandleWrite_def GetLocalAddress_def GetPeerAddress_def Connector_Retry_def ct_hand_over_def Let_def)
qed

section \<open>Witnesses\<close>

lemma sample_connecting:
  obtains s :: tcp_connector and c where "ctr_inv s" "ct_state s = CtConnecting" "ct_running s" "ct_channel s = Some 20" "heap s 20 = Some c" "distinct (ct_open s)"
    "ch_fd c = 8"
proof -
  obtain s where s: "ctr_reach sample_ctr_env s" "ct_state s = CtConnecting" "ct_channel s = Some 20" "ct_open s = [8]" "ct_running s"
    by (rule sample_connector)
  have inv: "ctr_inv s" by (rule ctr_reach_inv [OF sample_ctr_env_ok(1,2) s(1)])
  then obtain c where c: "heap s 20 = Some c" using s(3) by (auto simp: ctr_inv_def ctr_core_def ct_chan_ok_def)
  have m: "mset (ct_open s) = mset (ct_handed s) + mset (ct_leaked s) + {#ch_fd c#}"
    using inv s(2,3) c by (simp add: ctr_inv_def ctr_core_def ct_fds_ok_def ct_pending_def)
  then have "ch_fd c \<in> set (ct_open s)" by (metis set_mset_mset union_iff union_single_eq_member)
  then have "ch_fd c = 8" using s(4) by simp
  then show ?thesis using that [OF inv s(2,5,3) c] s(4) by simp
qed

theorem Connector_Stop_closes_witness: "\<exists>s :: tcp_connector. ct_state s = CtConnecting \<and> succeeds (Connector_Stop sample_ctr_env s) (\<lambda>t. \<not> ct_running t)"
proof -
  obtain s :: tcp_connector where s: "ctr_inv s" "ct_state s = CtConnecting" by (rule sample_connecting)
  have "succeeds (Connector_Stop sample_ctr_env s) (\<lambda>t. \<not> ct_running t)"
    by (rule succeeds_mono [OF Connector_Stop_closes [OF sample_ctr_env_ok(1) s]]) simp
  then show ?thesis using s(2) by blast
qed

theorem Connector_never_retries_witness:
  "\<exists>s :: tcp_connector. ct_running s \<and> succeeds (Connector_HandleError sample_ctr_env s) (\<lambda>t. ct_running t \<and> ct_timers t = [])"
proof -
  obtain s :: tcp_connector where s: "ctr_inv s" "ct_state s = CtConnecting" "ct_running s" by (rule sample_connecting)
  have "succeeds (Connector_HandleError sample_ctr_env s) (\<lambda>t. ct_running t \<and> ct_timers t = [])"
    by (rule succeeds_mono [OF Connector_never_retries [OF sample_ctr_env_ok(1) s]]) simp
  then show ?thesis using s(3) by blast
qed

theorem Connector_self_connect_witness:
  "\<exists>s :: tcp_connector. succeeds (Connector_HandleWrite (sample_ctr_env\<lparr>ksock := linux_sock_env\<lparr>sockname := peername linux_sock_env\<rparr>\<rparr>) ct_hand_over s)
    (\<lambda>t. ct_handed t = ct_handed s @ [8] \<and> 8 \<notin> set (ct_open t))"
proof -
  let ?K = "sample_ctr_env\<lparr>ksock := linux_sock_env\<lparr>sockname := peername linux_sock_env\<rparr>\<rparr>"
  obtain s :: tcp_connector and c where s: "ctr_inv s" "ct_state s = CtConnecting" "ct_running s" "ct_channel s = Some 20" "heap s 20 = Some c"
      "distinct (ct_open s)" "ch_fd c = 8"
    by (rule sample_connecting)
  have k: "env_ok (cpenv_of ?K)" "GetSocketError (ksock ?K) (ch_fd c) \<le> 0"
      "sockname (ksock ?K) (ch_fd c) = Some (InetAddress_raw4 [127, 0, 0, 1] 80)"
      "peername (ksock ?K) (ch_fd c) = Some (InetAddress_raw4 [127, 0, 0, 1] 80)"
    using linux_env_ok by (simp_all add: sample_ctr_env_def linux_sock_env_def GetSocketError_def)
  have "succeeds (Connector_HandleWrite ?K ct_hand_over s) (\<lambda>t. ct_handed t = ct_handed s @ [8] \<and> 8 \<notin> set (ct_open t))"
    by (rule succeeds_mono [OF Connector_self_connect [OF k(1) s(1-6) k(2-4)]]) (simp add: s(7))
  then show ?thesis by blast
qed

end
