(* ===== verification/TCPClient.thy ===== *)
theory TCPClient
  imports TCPServer TCPConnector
begin

text \<open>
  The TCP client (\<^verbatim>\<open>src/tcp_client.h\<close>, \<^verbatim>\<open>src/tcp_client.cc\<close>): a connector and the connection it yields. The state
  extends the connector's. A connection is what its owner sees of it, as in theory \<open>TCPServer\<close>; \<open>cl_tasks\<close> are the
  calls about connections in the loop's task queue, and \<open>cl_refs\<close> the references that the user has. \<open>p\<close> is
  the address of a connection object that is allocated.
\<close>

section \<open>State\<close>

datatype client_task = ForceTask addr | DestroyTask addr

record tcp_client = tcp_connector +
  cl_retry :: bool
  cl_connect :: bool
  cl_next_conn_id :: int
  cl_name :: string
  cl_callbacks :: conn_callbacks
  cl_conn :: "addr option"
  cl_conns :: "addr \<Rightarrow> sconn option"
  cl_tasks :: "client_task list"
  cl_refs :: "addr list"

fun client_task_conn :: "client_task \<Rightarrow> addr" where
  "client_task_conn (ForceTask p) = p" | "client_task_conn (DestroyTask p) = p"

definition TCPClient_ctor :: "string \<Rightarrow> event_loop \<Rightarrow> tcp_client" where
  "TCPClient_ctor name loop =
     tcp_connector.extend (TCPConnector_ctor loop)
       (tcp_client.fields False False 0 name (conn_callbacks.make False False False False False 10240) None Map.empty [] [])"

definition set_conn_cb :: "tcp_client \<Rightarrow> tcp_client" where
  "set_conn_cb s = s\<lparr>cl_callbacks := (cl_callbacks s)\<lparr>cb_connection := True\<rparr>\<rparr>"

definition TCPClient_set_read_cb :: "tcp_client \<Rightarrow> tcp_client" where
  "TCPClient_set_read_cb s = s\<lparr>cl_callbacks := (cl_callbacks s)\<lparr>cb_read := True\<rparr>\<rparr>"

definition TCPClient_set_write_complete_cb :: "tcp_client \<Rightarrow> tcp_client" where
  "TCPClient_set_write_complete_cb s = s\<lparr>cl_callbacks := (cl_callbacks s)\<lparr>cb_write_complete := True\<rparr>\<rparr>"

definition TCPClient_set_high_water_mark_cb :: "nat \<Rightarrow> tcp_client \<Rightarrow> tcp_client" where
  "TCPClient_set_high_water_mark_cb mark s = s\<lparr>cl_callbacks := (cl_callbacks s)\<lparr>cb_high_water_mark := True, cb_mark := mark\<rparr>\<rparr>"

definition EnableRetry :: "tcp_client \<Rightarrow> tcp_client" where
  "EnableRetry s = s\<lparr>cl_retry := True\<rparr>"

text \<open>\<^verbatim>\<open>connection()\<close>: the user gets a reference.\<close>

definition connection :: "tcp_client \<Rightarrow> addr option \<times> tcp_client" where
  "connection s = (cl_conn s, s\<lparr>cl_refs := cl_refs s @ (case cl_conn s of None \<Rightarrow> [] | Some p \<Rightarrow> [p])\<rparr>)"

section \<open>Connections\<close>

definition cl_conn_at :: "addr \<Rightarrow> tcp_client \<Rightarrow> sconn outcome" where
  "cl_conn_at p s = (case cl_conns s p of None \<Rightarrow> Inl UseAfterFree | Some c \<Rightarrow> Inr c)"

definition cl_set_state :: "addr \<Rightarrow> conn_state \<Rightarrow> tcp_client \<Rightarrow> tcp_client outcome" where
  "cl_set_state p st s = rbind (cl_conn_at p s) (\<lambda>c. Inr (s\<lparr>cl_conns := (cl_conns s)(p \<mapsto> c\<lparr>sc_state := st\<rparr>)\<rparr>))"

text \<open>The end of a reference; the destructor of a connection asserts \<^verbatim>\<open>DISCONNECTED\<close>.\<close>

definition cl_release :: "poller_env \<Rightarrow> addr \<Rightarrow> tcp_client \<Rightarrow> tcp_client outcome" where
  "cl_release E p s =
     (if cl_conn s = Some p \<or> p \<in> set (cl_refs s) \<or> p \<in> client_task_conn ` set (cl_tasks s) then Inr s
      else rbind (cl_conn_at p s) (\<lambda>c.
           rbind (dassert E (sc_state c = DISCONNECTED)) (\<lambda>_. Inr (s\<lparr>cl_conns := (cl_conns s)(p := None)\<rparr>))))"

definition cl_post :: "client_task \<Rightarrow> tcp_client \<Rightarrow> tcp_client" where
  "cl_post k s = QueueInLoop_wake (s\<lparr>cl_tasks := cl_tasks s @ [k]\<rparr>)"

definition NewConnection :: "ctr_env \<Rightarrow> inet_env \<Rightarrow> addr \<Rightarrow> int \<Rightarrow> tcp_client \<Rightarrow> tcp_client outcome" where
  "NewConnection K I p fd s =
     rbind (AssertInLoopThread (cpenv_of K) s) (\<lambda>_.
     rbind (GetPeerAddress (ksock K) fd) (\<lambda>peer.
     rbind (GetLocalAddress (ksock K) fd) (\<lambda>local.
     let name = cl_name s @ '':'' @ IpPort I peer @ ''#'' @ print_u (nat (cl_next_conn_id s)) in
     rbind (Socket_ctor (ksock K) fd) (\<lambda>fd.
     let c = \<lparr>sc_fd = fd, sc_loop = loop_self s, sc_name = name, sc_state = CONNECTING, sc_peer = peer,
           sc_callbacks = (cl_callbacks s)\<lparr>cb_disconnection := False\<rparr>\<rparr>;
         s = s\<lparr>cl_next_conn_id := cl_next_conn_id s + 1, cl_conns := (cl_conns s)(p \<mapsto> c), cl_conn := Some p\<rparr>
     in cl_set_state p CONNECTED s))))"

definition RemoveConnection :: "ctr_env \<Rightarrow> addr \<Rightarrow> tcp_client \<Rightarrow> tcp_client outcome" where
  "RemoveConnection K p s =
     rbind (AssertInLoopThread (cpenv_of K) s) (\<lambda>_.
     rbind (cl_conn_at p s) (\<lambda>c.
     rbind (dassert (cpenv_of K) (loop_self s = sc_loop c)) (\<lambda>_.
     rbind (dassert (cpenv_of K) (cl_conn s = Some p)) (\<lambda>_.
     let s = cl_post (DestroyTask p) (s\<lparr>cl_conn := None\<rparr>) in
       if cl_retry s \<and> cl_connect s then Restart K s else Inr s))))"

text \<open>\<^verbatim>\<open>TCPConnection\<close>: \<^verbatim>\<open>HandleClose\<close> with \<^verbatim>\<open>remove_cb_\<close>, \<^verbatim>\<open>ForceClose\<close>, and the calls in the task queue.\<close>

definition client_close :: "ctr_env \<Rightarrow> addr \<Rightarrow> tcp_client \<Rightarrow> tcp_client outcome" where
  "client_close K p s =
     rbind (cl_set_state p DISCONNECTING s) (\<lambda>s.
     rbind (RemoveConnection K p s) (cl_release (cpenv_of K) p))"

definition client_force_close :: "addr \<Rightarrow> tcp_client \<Rightarrow> tcp_client outcome" where
  "client_force_close p s =
     rbind (cl_conn_at p s) (\<lambda>c. Inr (if CONNECTED = sc_state c then cl_post (ForceTask p) s else s))"

definition run_client_task :: "ctr_env \<Rightarrow> client_task \<Rightarrow> tcp_client \<Rightarrow> tcp_client outcome" where
  "run_client_task K k s =
     (case k of
        ForceTask p \<Rightarrow>
          rbind (cl_conn_at p s) (\<lambda>c.
            if sc_state c = DISCONNECTING \<or> sc_state c = DISCONNECTED then cl_release (cpenv_of K) p s else client_close K p s)
      | DestroyTask p \<Rightarrow> rbind (cl_set_state p DISCONNECTED s) (cl_release (cpenv_of K) p))"

section \<open>The client's calls\<close>

definition TCPClient_Connect :: "ctr_env \<Rightarrow> tcp_client \<Rightarrow> tcp_client outcome" where
  "TCPClient_Connect K s = TCPConnector_Start K (s\<lparr>cl_connect := True\<rparr>)"

definition TCPClient_Disconnect :: "ctr_env \<Rightarrow> tcp_client \<Rightarrow> tcp_client outcome" where
  "TCPClient_Disconnect K s =
     (let s = s\<lparr>cl_connect := False\<rparr> in
      rbind (case cl_conn s of None \<Rightarrow> Inr s | Some p \<Rightarrow> client_force_close p s) (TCPConnector_Stop K))"

definition TCPClient_dtor :: "ctr_env \<Rightarrow> tcp_client \<Rightarrow> tcp_client outcome" where
  "TCPClient_dtor K s =
     rbind (case cl_conn s of
              None \<Rightarrow> Inr ()
            | Some p \<Rightarrow> dassert (cpenv_of K) (p \<notin> set (cl_refs s) \<and> p \<notin> client_task_conn ` set (cl_tasks s))) (\<lambda>_.
       if cl_connect s then TCPClient_Disconnect K s else Inr s)"

section \<open>Properties\<close>

lemma cl_post_eq: "cl_post k s = s\<lparr>cl_tasks := cl_tasks s @ [k], wakeup_count := wakeup_count (cl_post k s)\<rparr>"
  by (simp add: cl_post_def QueueInLoop_wake_def Wakeup_def)

text \<open>The connector's invariant is not affected by the client's own members.\<close>

lemma ctr_core_own:
  assumes "tcp_connector.truncate t = (tcp_connector.truncate s)\<lparr>wakeup_count := n\<rparr>"
  shows "ctr_core h t \<longleftrightarrow> ctr_core h s"
proof -
  have f: "heap t = heap s" "channels t = channels s" "active_channels t = active_channels s" "channel_nums t = channel_nums s"
    "cur_max_fd t = cur_max_fd s" "event_list t = event_list s" "interest t = interest s" "loop_self t = loop_self s"
    "loop_tid t = loop_tid s" "current_tid t = current_tid s" "ct_running t = ct_running s" "ct_state t = ct_state s"
    "ct_channel t = ct_channel s" "retry_delay t = retry_delay s" "ct_timer_id t = ct_timer_id s" "ct_timers t = ct_timers s"
    "ct_tasks t = ct_tasks s" "ct_open t = ct_open s" "ct_handed t = ct_handed s" "ct_leaked t = ct_leaked s"
    using assms by (simp_all add: tcp_connector.defs)
  have "ep_inv t = ep_inv s" by (rule iffI) (erule ep_inv_ext, simp_all add: f)+
  then show ?thesis by (simp add: ctr_core_def ctr_inv_defs f)
qed

lemma cl_post_fields [simp]:
  "cl_tasks (cl_post k s) = cl_tasks s @ [k]" "cl_conn (cl_post k s) = cl_conn s" "cl_conns (cl_post k s) = cl_conns s"
  "cl_retry (cl_post k s) = cl_retry s" "cl_connect (cl_post k s) = cl_connect s" "cl_refs (cl_post k s) = cl_refs s"
  "ct_state (cl_post k s) = ct_state s" "ct_channel (cl_post k s) = ct_channel s" "ct_timers (cl_post k s) = ct_timers s"
  "ct_tasks (cl_post k s) = ct_tasks s" "IsInLoopThread (cl_post k s) = IsInLoopThread s" "ct_running (cl_post k s) = ct_running s"
  "ct_attempts (cl_post k s) = ct_attempts s" "loop_tid (cl_post k s) = loop_tid s" "current_tid (cl_post k s) = current_tid s"
  by (simp_all add: cl_post_def QueueInLoop_wake_def Wakeup_def IsInLoopThread_def)

lemma client_fields:
  fixes s t :: tcp_client
  assumes "tcp_connector.more t = tcp_connector.more s"
  shows "cl_conn t = cl_conn s" "cl_tasks t = cl_tasks s" "cl_conns t = cl_conns s" "cl_refs t = cl_refs s"
  using assms by (cases s; cases t; simp)+

definition client_cb :: "ctr_env \<Rightarrow> inet_env \<Rightarrow> addr \<Rightarrow> int \<Rightarrow> tcp_client \<Rightarrow> tcp_client outcome" where
  "client_cb K I p fd s = rbind (ct_hand_over fd s) (NewConnection K I p fd)"

text \<open>
  When the connector of a client that was told to connect finds the socket connected, the client
  has an established connection on the descriptor of the attempt, which is open, and the connector's
  channel is out of the poller.
\<close>

theorem client_connects:
  assumes "env_ok (cpenv_of K)" and "ctr_inv s" and "ct_state s = CtConnecting" and "ct_running s"
    and "ct_channel s = Some q" and "heap s q = Some ch" and "GetSocketError (ksock K) (ch_fd ch) \<le> 0"
    and "sockname (ksock K) (ch_fd ch) = Some l" and "peername (ksock K) (ch_fd ch) = Some r" and "\<not> operator_eq l r"
  shows "succeeds (ct_HandleWrite K (client_cb K I p) s) (\<lambda>t. ctr_inv t \<and> ct_state t = CtConnected \<and> cl_conn t = Some p \<and>
    (\<exists>c. cl_conns t p = Some c \<and> sc_state c = CONNECTED \<and> sc_fd c = ch_fd ch \<and> sc_peer c = r) \<and>
    ch_fd ch \<in> set (ct_open t) \<and> heap t q = Some (ch\<lparr>ch_events := kNoneEvent, ch_status := kNew\<rparr>))"
proof -
  have core: "ctr_core False s" using assms(2) by (simp add: ctr_inv_def)
  have f: "ch_status ch = kAdded" "ep_inv s" "\<forall>fd \<in> set (ct_open s). 0 < fd"
      "mset (ct_open s) = mset (ct_handed s) + mset (ct_leaked s) + {#ch_fd ch#}"
    by (rule connecting_facts [OF core assms(3)]; use assms(5,6) in simp)+
  have mem: "ch_fd ch \<in> set (ct_open s)" using f(4) by (metis set_mset_mset union_iff union_single_eq_member)
  let ?u = "ct_post ResetTask (dropped q ch s)"
  let ?v = "?u\<lparr>ct_state := CtConnected, ct_handed := ct_handed s @ [ch_fd ch]\<rparr>"
  have done1: "ctr_core False ?v" using attempt_done(1) [OF assms(1) core assms(3,5,6)] by simp
  have th: "AssertInLoopThread (cpenv_of K) ?v = Inr ()" using ctr_core_thread [OF done1] by (simp add: AssertInLoopThread_def)
  have eq: "ct_HandleWrite K (client_cb K I p) s = NewConnection K I p (ch_fd ch) ?v"
    using RemoveAndResetChannel_eq(1) [OF assms(1) f(2) assms(5,6) f(1)] assms(3-10)
    by (simp add: ct_HandleWrite_def ct_chan_def GetLocalAddress_def GetPeerAddress_def client_cb_def ct_hand_over_def Let_def)
  obtain t c where t: "NewConnection K I p (ch_fd ch) ?v = Inr t" "cl_conn t = Some p" "cl_conns t p = Some c" "sc_state c = CONNECTED"
      "sc_fd c = ch_fd ch" "sc_peer c = r" "tcp_connector.truncate t = (tcp_connector.truncate ?v)\<lparr>wakeup_count := wakeup_count ?v\<rparr>"
    using th f(3) mem assms(8,9)
    by (simp add: NewConnection_def GetLocalAddress_def GetPeerAddress_def Socket_ctor_def cl_set_state_def cl_conn_at_def Let_def
        tcp_connector.defs)
  have g: "ct_state t = CtConnected" "ct_open t = ct_open s" "heap t = heap ?v" using t(7) by (simp_all add: tcp_connector.defs)
  have "ctr_core False t" using ctr_core_own [OF t(7)] done1 by simp
  then have "ctr_inv t" using g(1) by (simp add: ctr_inv_def ct_live_def)
  then show ?thesis using eq t g mem by simp
qed

text \<open>
  C34: When the connection of a client with retry is closed, the client forgets it, queues its
  destruction and restarts the connector, which is then connecting or waiting for its retry timer.
\<close>

theorem client_reconnects:
  assumes "env_ok (cpenv_of K)" and "ctr_inv s" and "ct_idle s" and "attempt_ok K s" and "cl_conn s = Some p"
    and "cl_conns s p = Some c" and "sc_loop c = loop_self s" and "cl_retry s" and "cl_connect s"
  shows "succeeds (client_close K p s) (\<lambda>t. ctr_inv t \<and> ct_running t \<and> cl_conn t = None \<and> DestroyTask p \<in> set (cl_tasks t) \<and>
    (ct_state t = CtConnecting \<or> ct_timers t \<noteq> []))"
proof -
  let ?s1 = "s\<lparr>cl_conns := (cl_conns s)(p \<mapsto> c\<lparr>sc_state := DISCONNECTING\<rparr>)\<rparr>"
  let ?s2 = "cl_post (DestroyTask p) (?s1\<lparr>cl_conn := None\<rparr>)"
  let ?s3 = "?s2\<lparr>ct_running := True, ct_state := CtDisconnected, retry_delay := kInitRetryDelay\<rparr>"
  note i = ct_idle_facts [OF assms(3)]
  have core: "ctr_core False s" using assms(2) by (simp add: ctr_inv_def)
  have tr: "tcp_connector.truncate ?s2 = (tcp_connector.truncate s)\<lparr>wakeup_count := wakeup_count ?s2\<rparr>"
    by (simp add: tcp_connector.defs cl_post_def QueueInLoop_wake_def Wakeup_def)
  have core2: "ctr_core False ?s2" using ctr_core_own [OF tr] core by simp
  have core3: "ctr_core False ?s3" using core2 i
    by (auto simp: ctr_core_def ctr_inv_defs kInitRetryDelay_def kMaxRetryDelay_def)
  have at3: "attempt_ok K ?s3" using assms(4)
    by (simp add: attempt_ok_def used_def cl_post_def QueueInLoop_wake_def Wakeup_def)
  have th: "IsInLoopThread s" by (rule ctr_core_thread [OF core])
  have r3: "succeeds (StartInLoop K ?s3) (\<lambda>t. ctr_inv t \<and> ct_running t = ct_running ?s3 \<and> tcp_connector.more t = tcp_connector.more ?s3 \<and>
      (ct_running ?s3 \<longrightarrow> ct_state t = CtConnecting \<or> ct_timers t \<noteq> []))"
    by (rule StartInLoop_result [OF assms(1) core3]) (use i at3 in simp_all)
  have rem: "RemoveConnection K p ?s1 = StartInLoop K ?s3"
    using th assms(5-9) by (simp add: RemoveConnection_def cl_conn_at_def AssertInLoopThread_def Restart_def Let_def IsInLoopThread_def)
  have "succeeds (rbind (StartInLoop K ?s3) (cl_release (cpenv_of K) p)) (\<lambda>t. ctr_inv t \<and> ct_running t \<and> cl_conn t = None \<and>
      DestroyTask p \<in> set (cl_tasks t) \<and> (ct_state t = CtConnecting \<or> ct_timers t \<noteq> []))"
    unfolding succeeds_rbind
  proof (rule succeeds_mono [OF r3], elim conjE)
    fix t assume t: "ctr_inv t" "ct_running t = ct_running ?s3" "tcp_connector.more t = tcp_connector.more ?s3"
      "ct_running ?s3 \<longrightarrow> ct_state t = CtConnecting \<or> ct_timers t \<noteq> []"
    have "cl_conn t = None" "cl_tasks t = cl_tasks s @ [DestroyTask p]" using client_fields [OF t(3)] by simp_all
    then show "succeeds (cl_release (cpenv_of K) p t) (\<lambda>t. ctr_inv t \<and> ct_running t \<and> cl_conn t = None \<and>
        DestroyTask p \<in> set (cl_tasks t) \<and> (ct_state t = CtConnecting \<or> ct_timers t \<noteq> []))"
      using t(1,2,4) by (simp add: cl_release_def)
  qed
  then show ?thesis using assms(6) rem by (simp add: client_close_def cl_set_state_def cl_conn_at_def)
qed

text \<open>
  A client that was connected and disconnected cannot be connected again: \<^verbatim>\<open>Disconnect\<close> leaves the connector
  in state \<^verbatim>\<open>CONNECTED\<close>, and the next \<^verbatim>\<open>Connect\<close> fails the assertion of \<^verbatim>\<open>StartInLoop\<close>, also after the connection is gone.
\<close>

theorem client_connect_again_fails:
  assumes "ctr_inv s" and "ct_state s = CtConnected" and "\<not> ndebug (cpenv_of K)"
    and "\<forall>p. cl_conn s = Some p \<longrightarrow> cl_conns s p \<noteq> None"
  shows "succeeds (TCPClient_Disconnect K s) (\<lambda>t. ct_state t = CtConnected \<and> \<not> ct_running t) \<and>
    rbind (TCPClient_Disconnect K s) (TCPClient_Connect K) = Inl AssertionFailed"
proof -
  have core: "ctr_core False s" using assms(1) by (simp add: ctr_inv_def)
  have th: "IsInLoopThread s" by (rule ctr_core_thread [OF core])
  obtain u where u: "(case cl_conn s of None \<Rightarrow> Inr (s\<lparr>cl_connect := False\<rparr>) | Some p \<Rightarrow> client_force_close p (s\<lparr>cl_connect := False\<rparr>)) = Inr u"
      "IsInLoopThread u" "ct_state u = CtConnected"
    using assms(2,4) th by (cases "cl_conn s") (auto simp: client_force_close_def cl_conn_at_def IsInLoopThread_def cl_post_def
        QueueInLoop_wake_def Wakeup_def)
  let ?v = "ct_timer_cancel (ct_timer_id u) (u\<lparr>ct_running := False\<rparr>)"
  have dis: "TCPClient_Disconnect K s = Inr ?v"
    using u by (simp add: TCPClient_Disconnect_def TCPConnector_Stop_def ct_run_in_loop_def StopInLoop_def AssertInLoopThread_def IsInLoopThread_def
        ct_timer_cancel_def Let_def)
  have v: "IsInLoopThread ?v" "ct_state ?v = CtConnected" "\<not> ct_running ?v" using u(2,3) by (simp_all add: IsInLoopThread_def ct_timer_cancel_def)
  have "TCPClient_Connect K ?v = Inl AssertionFailed" unfolding TCPClient_Connect_def
    by (rule Start_when_connected_fails) (use v assms(3) in \<open>simp_all add: IsInLoopThread_def\<close>)
  then show ?thesis using dis v by simp
qed

section \<open>Witnesses\<close>

definition as_client :: "tcp_connector \<Rightarrow> addr option \<Rightarrow> tcp_client" where
  "as_client s q = tcp_connector.extend s
     (tcp_client.fields True True 0 ''client'' (conn_callbacks.make False False False False False 0) q
       [30 \<mapsto> \<lparr>sc_fd = 8, sc_loop = loop_self s, sc_name = ''c'', sc_state = CONNECTED, sc_peer = INVALID_ADDR,
          sc_callbacks = conn_callbacks.make False False False False False 0\<rparr>] [] [])"

lemma as_client_inv: "ctr_inv s \<Longrightarrow> ctr_inv (as_client s q)"
proof -
  assume s: "ctr_inv s"
  have "tcp_connector.truncate (as_client s q) = (tcp_connector.truncate s)\<lparr>wakeup_count := wakeup_count s\<rparr>"
    by (simp add: as_client_def tcp_connector.defs)
  from ctr_core_own [OF this] s show ?thesis
    by (simp add: ctr_inv_def ct_live_def as_client_def tcp_connector.defs)
qed

lemma as_client_fields [simp]:
  "ct_state (as_client s q) = ct_state s" "ct_running (as_client s q) = ct_running s" "ct_channel (as_client s q) = ct_channel s"
  "heap (as_client s q) = heap s" "cl_conn (as_client s q) = q" "cl_retry (as_client s q)" "cl_connect (as_client s q)"
  "ct_idle (as_client s q) = ct_idle s" "attempt_ok K (as_client s q) = attempt_ok K s" "loop_self (as_client s q) = loop_self s"
  "cl_conns (as_client s q) 30 = Some \<lparr>sc_fd = 8, sc_loop = loop_self s, sc_name = ''c'', sc_state = CONNECTED, sc_peer = INVALID_ADDR,
          sc_callbacks = conn_callbacks.make False False False False False 0\<rparr>"
  by (simp_all add: as_client_def tcp_connector.defs tcp_client.defs ct_idle_def attempt_ok_def used_def)

theorem client_connects_witness:
  "\<exists>s. ct_state s = CtConnecting \<and> succeeds (ct_HandleWrite sample_ctr_env (client_cb sample_ctr_env sample_inet_env 30) s) (\<lambda>t. cl_conn t = Some 30)"
proof -
  obtain s :: tcp_connector where s: "ctr_reach sample_ctr_env s" "ct_state s = CtConnecting" "ct_channel s = Some 20" "ct_running s" "ct_open s = [8]"
    by (rule sample_connector)
  have inv: "ctr_inv s" by (rule ctr_reach_inv [OF sample_ctr_env_ok(1,2) s(1)])
  then obtain c where c: "heap s 20 = Some c" using s(3) by (auto simp: ctr_inv_def ctr_core_def ct_chan_ok_def)
  have m: "mset (ct_open s) = mset (ct_handed s) + mset (ct_leaked s) + {#ch_fd c#}"
    using inv s(2,3) c by (simp add: ctr_inv_def ctr_core_def ct_fds_ok_def ct_pending_def)
  then have "ch_fd c \<in> set (ct_open s)" by (metis set_mset_mset union_iff union_single_eq_member)
  then have fd: "ch_fd c = 8" using s(5) by simp
  have k: "GetSocketError (ksock sample_ctr_env) (ch_fd c) \<le> 0"
      "sockname (ksock sample_ctr_env) (ch_fd c) = Some (InetAddress_raw4 [127, 0, 0, 1] 8)"
      "peername (ksock sample_ctr_env) (ch_fd c) = Some (InetAddress_raw4 [127, 0, 0, 1] 80)"
    using fd by (simp_all add: sample_ctr_env_def linux_sock_env_def GetSocketError_def)
  have ne: "\<not> operator_eq (InetAddress_raw4 [127, 0, 0, 1] 8) (InetAddress_raw4 [127, 0, 0, 1] 80)" by code_simp
  have "succeeds (ct_HandleWrite sample_ctr_env (client_cb sample_ctr_env sample_inet_env 30) (as_client s None)) (\<lambda>t. cl_conn t = Some 30)"
    by (rule succeeds_mono [OF client_connects [OF sample_ctr_env_ok(1) as_client_inv [OF inv] _ _ _ _ k ne, where q = 20]]) (use s c in simp_all)
  then show ?thesis using s(2) by (intro exI [of _ "as_client s None"]) simp
qed

theorem client_reconnects_witness:
  "\<exists>s. cl_conn s = Some 30 \<and> succeeds (client_close sample_ctr_env 30 s) (\<lambda>t. cl_conn t = None \<and> ct_running t)"
proof -
  obtain l :: event_loop where l: "ep_inv l" "dom (heap l) = {10, 11}" "used l = {5, 6}" "length (channels l) = kInitTotalChannelSize"
    using EventLoop_ctor_ok [OF linux_env_ok, of 10 11 5 6 1 7 3 False] by (auto simp: el_inv_def elim!: succeedsE)
  let ?s = "as_client (TCPConnector_ctor l) (Some 30)"
  have "20 \<notin> dom (heap l)" using l(2) by simp
  then have h: "heap l 20 = None" by (simp only: domIff not_not)
  have f: "heap (TCPConnector_ctor l) = heap l" "used (TCPConnector_ctor l) = used l" "channels (TCPConnector_ctor l) = channels l"
      "ct_state (TCPConnector_ctor l) = CtDisconnected" "ct_channel (TCPConnector_ctor l) = None" "ct_timers (TCPConnector_ctor l) = []"
      "ct_tasks (TCPConnector_ctor l) = []" "ct_open (TCPConnector_ctor l) = []" "ct_attempts (TCPConnector_ctor l) = 0"
    by (simp_all add: TCPConnector_ctor_def event_loop.defs tcp_connector.defs used_def)
  have "ct_idle (TCPConnector_ctor l)" using f by (simp add: ct_idle_def)
  moreover have "attempt_ok sample_ctr_env (TCPConnector_ctor l)"
    using l(3,4) h f by (simp add: attempt_ok_def sample_ctr_env_def kInitTotalChannelSize_def)
  ultimately have i: "ct_idle ?s" "attempt_ok sample_ctr_env ?s" by (simp_all only: as_client_fields)
  have "succeeds (client_close sample_ctr_env 30 ?s) (\<lambda>t. cl_conn t = None \<and> ct_running t)"
    by (rule succeeds_mono [OF client_reconnects [OF sample_ctr_env_ok(1) as_client_inv [OF TCPConnector_ctor_ok [OF l(1)]] i]]) simp+
  then show ?thesis by (intro exI [of _ ?s]) simp
qed

theorem client_connect_again_fails_witness:
  "\<exists>s. rbind (TCPClient_Disconnect sample_ctr_env s) (TCPClient_Connect sample_ctr_env) = Inl AssertionFailed"
proof -
  obtain l :: event_loop where l: "ep_inv l"
    using EventLoop_ctor_ok [OF linux_env_ok, of 10 11 5 6 1 7 3 False] by (auto simp: el_inv_def elim!: succeedsE)
  let ?s = "(TCPConnector_ctor l)\<lparr>ct_state := CtConnected\<rparr>"
  have f: "ct_state (TCPConnector_ctor l) = CtDisconnected" "ct_channel (TCPConnector_ctor l) = None" "ct_timers (TCPConnector_ctor l) = []"
      "ct_tasks (TCPConnector_ctor l) = []"
    by (simp_all add: TCPConnector_ctor_def event_loop.defs tcp_connector.defs)
  have "ctr_inv ?s" using TCPConnector_ctor_ok [OF l] f by (auto simp: ctr_inv_def ctr_core_def ctr_inv_defs)
  then have "ctr_inv (as_client ?s (Some 30))" by (rule as_client_inv)
  from client_connect_again_fails [OF this _ sample_ctr_env_ok(3)] show ?thesis by auto
qed

end
