(* ===== verification/Datagram.thy ===== *)
theory Datagram
  imports Socket
begin

text \<open>
  Datagrams (\<^verbatim>\<open>src/datagram_packet.h\<close>) and the socket that sends and receives them
  (\<^verbatim>\<open>src/datagram_socket.h\<close>, \<^verbatim>\<open>src/datagram_socket.cc\<close>). \<^verbatim>\<open>base::MemoryBlock\<close> is \<^verbatim>\<open>std::vector<char>\<close>: a list of
  bytes. The kernel's side extends that of theory \<open>Socket\<close>: the datagrams it took, with their
  destination. Its answers to \<^verbatim>\<open>socket\<close>, \<^verbatim>\<open>connect\<close>, \<^verbatim>\<open>sendto\<close> and \<^verbatim>\<open>recvfrom\<close> are parameters.
\<close>

section \<open>Packets\<close>

record datagram_packet =
  pkt_dat :: "byte list"
  effective :: nat
  pkt_address :: inet_address

definition DatagramPacket_ctor :: "nat \<Rightarrow> datagram_packet" where
  "DatagramPacket_ctor len = \<lparr>pkt_dat = replicate len 0, effective = 0, pkt_address = InetAddress_default\<rparr>"

definition DatagramPacket_data_ctor :: "byte list \<Rightarrow> datagram_packet" where
  "DatagramPacket_data_ctor data = \<lparr>pkt_dat = data, effective = 0, pkt_address = InetAddress_default\<rparr>"

definition DatagramPacket_addr_ctor :: "nat \<Rightarrow> inet_address \<Rightarrow> datagram_packet" where
  "DatagramPacket_addr_ctor len a = \<lparr>pkt_dat = replicate len 0, effective = 0, pkt_address = a\<rparr>"

text \<open>The copy constructor and both assignments; the moves take a \<^verbatim>\<open>const\<close> reference and copy too.\<close>

definition DatagramPacket_copy :: "datagram_packet \<Rightarrow> datagram_packet" where
  "DatagramPacket_copy other = \<lparr>pkt_dat = pkt_dat other, effective = effective other, pkt_address = pkt_address other\<rparr>"

definition set_address :: "inet_address \<Rightarrow> datagram_packet \<Rightarrow> datagram_packet" where
  "set_address a p = p\<lparr>pkt_address := a\<rparr>"

definition set_effective :: "poller_env \<Rightarrow> nat \<Rightarrow> datagram_packet \<Rightarrow> datagram_packet outcome" where
  "set_effective E len p = rbind (dassert E (len \<le> length (pkt_dat p))) (\<lambda>_. Inr (p\<lparr>effective := len\<rparr>))"

text \<open>The bytes of a packet that count.\<close>

definition payload :: "datagram_packet \<Rightarrow> byte list" where
  "payload p = take (effective p) (pkt_dat p)"

definition packet_ok :: "datagram_packet \<Rightarrow> bool" where
  "packet_ok p \<longleftrightarrow> effective p \<le> length (pkt_dat p)"

section \<open>The socket\<close>

record dgram_env = sock_env +
  k_dgram :: int
  k_connect :: "inet_address \<Rightarrow> bool"
  k_sendto :: "nat \<Rightarrow> nat \<Rightarrow> int"

record dgram_socket = sock_state +
  dg_local :: inet_address
  dg_server :: inet_address
  dg_connected :: bool
  dg_is_bind :: bool
  dg_fd :: int
  dg_sends :: nat
  dg_sent :: "(inet_address \<times> byte list) list"
  dg_shut_rd :: bool
  dg_shut_wr :: bool

abbreviation dsock :: "dgram_env \<Rightarrow> sock_env" where
  "dsock K \<equiv> sock_env.truncate K"

definition SocketCeate :: "dgram_env \<Rightarrow> int outcome" where
  "SocketCeate K = (if 0 > k_dgram K then rbind (dassert (senv K) False) (\<lambda>_. Inr (k_dgram K)) else Inr (k_dgram K))"

text \<open>The members before the body of a constructor; \<^verbatim>\<open>sockfd_.reset(new Socket(SocketCeate()))\<close>.\<close>

definition dgram_fresh :: "dgram_env \<Rightarrow> inet_address \<Rightarrow> dgram_socket outcome" where
  "dgram_fresh K local =
     rbind (SocketCeate K) (\<lambda>fd.
     rbind (Socket_ctor (dsock K) fd) (\<lambda>fd.
       Inr \<lparr>open_fds = [fd], options = [], bound = [], shut = [], dg_local = local, dg_server = InetAddress_default,
            dg_connected = False, dg_is_bind = False, dg_fd = fd, dg_sends = 0, dg_sent = [], dg_shut_rd = False, dg_shut_wr = False\<rparr>))"

definition DatagramSocket_Bind :: "dgram_env \<Rightarrow> inet_address \<Rightarrow> dgram_socket \<Rightarrow> dgram_socket outcome" where
  "DatagramSocket_Bind K a s =
     rbind (Socket_Bind (dsock K) (dg_fd s) a s) (\<lambda>s. Inr (s\<lparr>dg_local := a, dg_is_bind := True\<rparr>))"

definition DatagramSocket_ctor :: "dgram_env \<Rightarrow> dgram_socket outcome" where
  "DatagramSocket_ctor K =
     rbind (dgram_fresh K InetAddress_default) (\<lambda>s. rbind (dassert (senv K) (\<not> 0 > dg_fd s)) (\<lambda>_. Inr s))"

definition DatagramSocket_port_ctor :: "dgram_env \<Rightarrow> 16 word \<Rightarrow> dgram_socket outcome" where
  "DatagramSocket_port_ctor K prt =
     rbind (dgram_fresh K (InetAddress_port prt True False)) (\<lambda>s.
     rbind (DatagramSocket_Bind K (dg_local s) s) (\<lambda>s. Inr (s\<lparr>dg_is_bind := True\<rparr>)))"

definition DatagramSocket_addr_ctor :: "dgram_env \<Rightarrow> inet_address \<Rightarrow> dgram_socket outcome" where
  "DatagramSocket_addr_ctor K a = rbind (dgram_fresh K InetAddress_default) (DatagramSocket_Bind K a)"

definition DatagramSocket_Connect :: "dgram_env \<Rightarrow> inet_address \<Rightarrow> dgram_socket \<Rightarrow> (bool \<times> dgram_socket) outcome" where
  "DatagramSocket_Connect K a s =
     (if \<not> k_connect K a then rbind (dassert (senv K) False) (\<lambda>_. Inr (False, s))
      else Inr (True, s\<lparr>dg_server := a, dg_connected := True\<rparr>))"

definition DatagramSocket_Disconnect :: "dgram_env \<Rightarrow> dgram_socket \<Rightarrow> (bool \<times> dgram_socket) outcome" where
  "DatagramSocket_Disconnect K s =
     rbind (DatagramSocket_Connect K INVALID_ADDR s) (\<lambda>(ok, s).
       Inr (ok, if ok then s\<lparr>dg_connected := False\<rparr> else s))"

definition SetRcvBufferSize :: "dgram_env \<Rightarrow> int \<Rightarrow> dgram_socket \<Rightarrow> dgram_socket outcome" where
  "SetRcvBufferSize K n s = SetRecvBufferSize (dsock K) n (dg_fd s) s"

definition SetSndBufferSize :: "dgram_env \<Rightarrow> int \<Rightarrow> dgram_socket \<Rightarrow> dgram_socket outcome" where
  "SetSndBufferSize K n s = SetSendBufferSize (dsock K) n (dg_fd s) s"

definition GetRcvBufferSize :: "dgram_env \<Rightarrow> dgram_socket \<Rightarrow> int outcome" where
  "GetRcvBufferSize K s = GetRecvBufferSize (dsock K) (dg_fd s)"

definition GetSndBufferSize :: "dgram_env \<Rightarrow> dgram_socket \<Rightarrow> int outcome" where
  "GetSndBufferSize K s = GetSendBufferSize (dsock K) (dg_fd s)"

definition SetBroadcast :: "dgram_env \<Rightarrow> bool \<Rightarrow> dgram_socket \<Rightarrow> dgram_socket outcome" where
  "SetBroadcast K enable s = set_option (dsock K) SO_BROADCAST (if enable then 1 else 0) (dg_fd s) s"

definition IsBroadcast :: "dgram_env \<Rightarrow> dgram_socket \<Rightarrow> bool outcome" where
  "IsBroadcast K s =
     (case get_opt K (dg_fd s) SO_BROADCAST of
        Some v \<Rightarrow> Inr (v \<noteq> 0)
      | None \<Rightarrow> rbind (dassert (senv K) False) (\<lambda>_. Inr False))"

definition DatagramSocket_SetReuseAddress :: "dgram_env \<Rightarrow> dgram_socket \<Rightarrow> dgram_socket outcome" where
  "DatagramSocket_SetReuseAddress K s = SetReuseAddress (dsock K) (dg_fd s) s"

text \<open>
  \<^verbatim>\<open>recvfrom\<close> into a buffer: an error, or a datagram, of which the kernel delivers what fits, with its
  sender.
\<close>

definition sys_recvfrom :: "(int, byte list \<times> inet_address) sum \<Rightarrow> byte list \<Rightarrow> int \<times> byte list \<times> inet_address" where
  "sys_recvfrom answer buf =
     (case answer of
        Inl err \<Rightarrow> (- 1, buf, zero_address)
      | Inr (dat, from) \<Rightarrow> (int (min (length dat) (length buf)), overwrite 0 (take (length buf) dat) buf, from))"

definition Receive_into :: "poller_env \<Rightarrow> (int, byte list \<times> inet_address) sum \<Rightarrow> datagram_packet \<Rightarrow> datagram_packet outcome" where
  "Receive_into E answer pkt =
     (let (rlen, buf, from) = sys_recvfrom answer (pkt_dat pkt);
          pkt = pkt\<lparr>pkt_dat := buf\<rparr>
      in if 0 < rlen then rbind (set_effective E (nat rlen) pkt) (\<lambda>pkt. Inr (set_address from pkt)) else Inr pkt)"

definition Receive :: "poller_env \<Rightarrow> (int, byte list \<times> inet_address) sum \<Rightarrow> nat \<Rightarrow> datagram_packet outcome" where
  "Receive E answer len = Receive_into E answer (DatagramPacket_ctor len)"

text \<open>\<^verbatim>\<open>send\<close> and \<^verbatim>\<open>sendto\<close>: the whole datagram, or an error.\<close>

definition sys_sendto :: "dgram_env \<Rightarrow> inet_address \<Rightarrow> byte list \<Rightarrow> dgram_socket \<Rightarrow> int \<times> dgram_socket" where
  "sys_sendto K dest dat s =
     (let r = k_sendto K (dg_sends s) (length dat);
          s = s\<lparr>dg_sends := dg_sends s + 1\<rparr>
      in (r, if 0 \<le> r then s\<lparr>dg_sent := dg_sent s @ [(dest, dat)]\<rparr> else s))"

definition DatagramSocket_Send :: "dgram_env \<Rightarrow> byte list \<Rightarrow> nat \<Rightarrow> inet_address \<Rightarrow> dgram_socket \<Rightarrow> int \<times> dgram_socket" where
  "DatagramSocket_Send K dat len dest s =
     (if dg_connected s then sys_sendto K (dg_server s) (take len dat) s
      else sys_sendto K dest (take len dat) s)"

definition DatagramSocket_Send_packet :: "dgram_env \<Rightarrow> datagram_packet \<Rightarrow> dgram_socket \<Rightarrow> int \<times> dgram_socket" where
  "DatagramSocket_Send_packet K pkt s =
     (if dg_connected s then sys_sendto K (dg_server s) (take (effective pkt) (pkt_dat pkt)) s
      else sys_sendto K (pkt_address pkt) (take (effective pkt) (pkt_dat pkt)) s)"

definition DatagramSocket_Shutdown :: "bool \<Rightarrow> bool \<Rightarrow> dgram_socket \<Rightarrow> dgram_socket" where
  "DatagramSocket_Shutdown read write s =
     (let s = (if read then s\<lparr>dg_shut_rd := True\<rparr> else s) in if write then s\<lparr>dg_shut_wr := True\<rparr> else s)"

section \<open>Properties\<close>

text \<open>What \<^verbatim>\<open>Receive\<close> returns: the datagram cut to the buffer with its sender, or an empty packet.\<close>

lemma Receive_into_eq:
  "Receive_into E (Inl err) pkt = Inr pkt"
  "dat \<noteq> [] \<Longrightarrow> pkt_dat pkt \<noteq> [] \<Longrightarrow> Receive_into E (Inr (dat, from)) pkt =
     Inr (pkt\<lparr>pkt_dat := overwrite 0 (take (length (pkt_dat pkt)) dat) (pkt_dat pkt),
       effective := min (length dat) (length (pkt_dat pkt)), pkt_address := from\<rparr>)"
  by (auto simp: Receive_into_def sys_recvfrom_def set_effective_def set_address_def)

lemma payload_overwrite:
  "payload (pkt\<lparr>pkt_dat := overwrite 0 (take (length buf) dat) buf, effective := min (length dat) (length buf), pkt_address := from\<rparr>) =
     take (length buf) dat"
  by (cases "length dat \<le> length buf") (simp_all add: payload_def overwrite_def)

lemma Receive_packet:
  "succeeds (Receive E (Inr (dat, from)) len) (\<lambda>p. packet_ok p \<and> payload p = take len dat \<and> effective p = min (length dat) len \<and>
     (0 < effective p \<longrightarrow> pkt_address p = from))"
proof (cases "dat = [] \<or> len = 0")
  case True
  then show ?thesis by (auto simp: Receive_def Receive_into_def sys_recvfrom_def DatagramPacket_ctor_def packet_ok_def payload_def overwrite_def)
next
  case False
  then have "pkt_dat (DatagramPacket_ctor len) \<noteq> []" "length (pkt_dat (DatagramPacket_ctor len)) = len"
    by (simp_all add: DatagramPacket_ctor_def)
  then show ?thesis using False payload_overwrite [where buf = "pkt_dat (DatagramPacket_ctor len)"] unfolding Receive_def
    by (simp add: Receive_into_eq packet_ok_def)
qed

text \<open>
  Echo: on a socket that is not connected, sending a received packet back transmits the bytes
  of the datagram, cut to the receiver's buffer, to the sender of the datagram; \<^verbatim>\<open>Send\<close> reports their number.
\<close>

theorem udp_echo:
  assumes "dat \<noteq> []" and "0 < len" and "\<not> dg_connected s" and "\<forall>i n. k_sendto K i n = int n"
  shows "succeeds (Receive E (Inr (dat, from)) len) (\<lambda>p.
    (let (r, t) = DatagramSocket_Send_packet K p s
     in r = int (min (length dat) len) \<and> dg_sent t = dg_sent s @ [(from, take len dat)]))"
proof (rule succeeds_mono [OF Receive_packet [of E dat "from" len]], elim conjE)
  fix p assume p: "packet_ok p" "payload p = take len dat" "effective p = min (length dat) len"
    "0 < effective p \<longrightarrow> pkt_address p = from"
  have "length (take (effective p) (pkt_dat p)) = min (length dat) len" using p(1,3) by (simp add: packet_ok_def)
  moreover have "pkt_address p = from" using p(3,4) assms(1,2) by simp
  ultimately show "let (r, t) = DatagramSocket_Send_packet K p s
     in r = int (min (length dat) len) \<and> dg_sent t = dg_sent s @ [(from, take len dat)]"
    using assms(3,4) p(2) by (simp add: DatagramSocket_Send_packet_def sys_sendto_def payload_def Let_def)
qed

text \<open>
  Connecting and disconnecting a datagram socket decide where packets go: to the server while
  it is connected, to the packet's own address after a successful \<^verbatim>\<open>Disconnect\<close>, in both cases exactly the
  effective bytes.
\<close>

theorem udp_destination:
  assumes "k_connect K a" and "k_connect K INVALID_ADDR" and "\<forall>i n. k_sendto K i n = int n"
  shows "succeeds (DatagramSocket_Connect K a s) (\<lambda>(ok, t). ok \<and>
      dg_sent (snd (DatagramSocket_Send_packet K p t)) = dg_sent s @ [(a, payload p)] \<and>
      succeeds (DatagramSocket_Disconnect K t) (\<lambda>(ok, u). ok \<and> \<not> dg_connected u \<and>
        dg_sent (snd (DatagramSocket_Send_packet K p u)) = dg_sent s @ [(pkt_address p, payload p)]))"
  using assms by (simp add: DatagramSocket_Connect_def DatagramSocket_Disconnect_def DatagramSocket_Send_packet_def sys_sendto_def payload_def Let_def)

definition sample_dgram_env :: dgram_env where
  "sample_dgram_env = sock_env.extend linux_sock_env (dgram_env.fields 7 (\<lambda>a. True) (\<lambda>i n. int n))"

definition sample_dgram :: dgram_socket where
  "sample_dgram = projr (DatagramSocket_port_ctor sample_dgram_env 9950)"

lemma sample_dgram_facts:
  "\<not> dg_connected sample_dgram" "dg_sent sample_dgram = []" "dg_fd sample_dgram = 7" "dg_is_bind sample_dgram"
  by (simp_all add: sample_dgram_def DatagramSocket_port_ctor_def dgram_fresh_def SocketCeate_def Socket_ctor_def DatagramSocket_Bind_def
      Socket_Bind_def sample_dgram_env_def sock_env.defs dgram_env.defs linux_sock_env_def)

theorem udp_echo_witness:
  "succeeds (Receive linux_env (Inr ([1, 2, 3], InetAddress_raw4 [10, 0, 0, 1] 53)) 2) (\<lambda>p.
     dg_sent (snd (DatagramSocket_Send_packet sample_dgram_env p sample_dgram)) = [(InetAddress_raw4 [10, 0, 0, 1] 53, [1, 2])])"
proof -
  have k: "\<forall>i n. k_sendto sample_dgram_env i n = int n" by (simp add: sample_dgram_env_def sock_env.defs dgram_env.defs)
  have "succeeds (Receive linux_env (Inr ([1, 2, 3], InetAddress_raw4 [10, 0, 0, 1] 53)) 2) (\<lambda>p.
    (let (r, t) = DatagramSocket_Send_packet sample_dgram_env p sample_dgram
     in r = int (min (length [1, 2, 3 :: byte]) 2) \<and> dg_sent t = dg_sent sample_dgram @ [(InetAddress_raw4 [10, 0, 0, 1] 53, take 2 [1, 2, 3])]))"
    by (rule udp_echo) (use k sample_dgram_facts in simp_all)
  then show ?thesis by (rule succeeds_mono) (simp add: case_prod_beta sample_dgram_facts)
qed

theorem udp_destination_witness:
  "succeeds (DatagramSocket_Connect sample_dgram_env (InetAddress_raw4 [10, 0, 0, 1] 53) sample_dgram) (\<lambda>(ok, t). ok)"
proof -
  have k: "k_connect sample_dgram_env a" "\<forall>i n. k_sendto sample_dgram_env i n = int n" for a
    by (simp_all add: sample_dgram_env_def sock_env.defs dgram_env.defs)
  show ?thesis
    by (rule succeeds_mono [OF udp_destination [OF k(1) k(1) k(2), of "InetAddress_raw4 [10, 0, 0, 1] 53" sample_dgram "DatagramPacket_ctor 0"]]) auto
qed

end
