(* ===== verification/UDPWorker.thy ===== *)
theory UDPWorker
  imports Datagram "HOL-Library.Multiset"
begin

text \<open>
  The queue between the receiver and the workers of the UDP server (\<^verbatim>\<open>src/packet_queue.h\<close>,
  \<^verbatim>\<open>src/packet_queue.cc\<close>) and the worker threads (\<^verbatim>\<open>src/udp_worker.h\<close>, \<^verbatim>\<open>src/udp_worker.cc\<close>), interleaved. A step is
  what a thread does under the mutex or between two accesses to shared data. A thread in
  \<^verbatim>\<open>cond_.wait\<close> is in \<open>AtWait\<close> until it is notified, and in \<open>AtWoken\<close> until it has the mutex again;
  \<open>sp\<close> tells whether it may also wake spuriously. \<^verbatim>\<open>Push\<close> notifies after it has released the mutex: \<open>wk_notify\<close> counts
  the pushes that are between the two.
\<close>

section \<open>The queue\<close>

definition Push :: "datagram_packet \<Rightarrow> datagram_packet list \<Rightarrow> datagram_packet list" where
  "Push pkt q = q @ [DatagramPacket_copy pkt]"

text \<open>The first part of \<^verbatim>\<open>Pop\<close>: \<open>None\<close> when it waits.\<close>

definition Pop_enter :: "datagram_packet list \<Rightarrow> (datagram_packet \<times> datagram_packet list) option" where
  "Pop_enter q = (case q of [] \<Rightarrow> None | pkt # rest \<Rightarrow> Some (pkt, rest))"

text \<open>The rest of \<^verbatim>\<open>Pop\<close>, after the wait: an empty packet when the queue is empty.\<close>

definition Pop_woken :: "datagram_packet list \<Rightarrow> datagram_packet \<times> datagram_packet list" where
  "Pop_woken q = (case q of [] \<Rightarrow> (DatagramPacket_ctor 0, []) | pkt # rest \<Rightarrow> (pkt, rest))"

section \<open>Workers\<close>

datatype worker_at = NotStarted | AtCheck | AtPop | AtWait | AtWoken | Holds datagram_packet | Exited

text \<open>\<^verbatim>\<open>Stop\<close>: not called, \<^verbatim>\<open>running_\<close> cleared, and joining the threads from the given one on.\<close>

datatype stop_at = NotStopping | Flagged | JoiningFrom nat

record udp_workers =
  wk_queue :: "datagram_packet list"
  wk_running :: bool
  wk_pc :: "nat \<Rightarrow> worker_at"
  wk_count :: nat
  wk_notify :: nat
  wk_stop :: stop_at
  wk_handled :: "datagram_packet list"
  wk_pushed :: "datagram_packet list"
  wk_popped :: "datagram_packet list"
  wk_dropped :: "datagram_packet list"

text \<open>
  \<open>wk_handled\<close> are the packets given to \<^verbatim>\<open>callback_rcv_pkt_\<close>. The last three are history variables: the
  packets pushed, popped, and popped by a thread that then ended. \<^verbatim>\<open>running_\<close> is not initialised by the
  constructor; \<open>r\<close> is the value found in memory.
\<close>

definition UDPWorkder_ctor :: "bool \<Rightarrow> udp_workers" where
  "UDPWorkder_ctor r = \<lparr>wk_queue = [], wk_running = r, wk_pc = (\<lambda>t. NotStarted), wk_count = 0, wk_notify = 0, wk_stop = NotStopping,
     wk_handled = [], wk_pushed = [], wk_popped = [], wk_dropped = []\<rparr>"

text \<open>\<^verbatim>\<open>Start\<close>; \<open>ok\<close> tells whether the system can create the threads.\<close>

definition UDPWorkder_Start :: "poller_env \<Rightarrow> bool \<Rightarrow> nat \<Rightarrow> udp_workers \<Rightarrow> (bool \<times> udp_workers) outcome" where
  "UDPWorkder_Start E ok thread_nums s =
     rbind (dassert E (0 < thread_nums)) (\<lambda>_.
     let s = s\<lparr>wk_count := wk_count s + thread_nums, wk_running := True\<rparr> in
     if \<not> ok then rbind (dassert E False) (\<lambda>_. Inr (False, s))
     else Inr (True, s\<lparr>wk_pc := (\<lambda>t. if t < thread_nums then AtCheck else wk_pc s t)\<rparr>))"

definition at :: "nat \<Rightarrow> worker_at \<Rightarrow> udp_workers \<Rightarrow> udp_workers" where
  "at t pc s = s\<lparr>wk_pc := (wk_pc s)(t := pc)\<rparr>"

text \<open>\<^verbatim>\<open>OnThreadProcessPacket\<close>: the condition of the loop, \<^verbatim>\<open>Pop\<close> in its two parts, and the body.\<close>

definition Worker_check :: "nat \<Rightarrow> udp_workers \<Rightarrow> udp_workers" where
  "Worker_check t s = (if wk_running s then at t AtPop s else at t Exited s)"

definition Worker_pop :: "nat \<Rightarrow> udp_workers \<Rightarrow> udp_workers" where
  "Worker_pop t s =
     (case Pop_enter (wk_queue s) of
        None \<Rightarrow> at t AtWait s
      | Some (pkt, rest) \<Rightarrow> at t (Holds pkt) (s\<lparr>wk_queue := rest, wk_popped := wk_popped s @ [pkt]\<rparr>))"

definition Worker_woken :: "nat \<Rightarrow> udp_workers \<Rightarrow> udp_workers" where
  "Worker_woken t s =
     (let (pkt, rest) = Pop_woken (wk_queue s)
      in at t (Holds pkt) (s\<lparr>wk_queue := rest, wk_popped := wk_popped s @ (if wk_queue s = [] then [] else [pkt])\<rparr>))"

definition Worker_process :: "nat \<Rightarrow> datagram_packet \<Rightarrow> udp_workers \<Rightarrow> udp_workers" where
  "Worker_process t pkt s =
     (if \<not> wk_running s then at t Exited (s\<lparr>wk_dropped := wk_dropped s @ (if effective pkt = 0 then [] else [pkt])\<rparr>)
      else if 0 = effective pkt then at t Exited s
      else at t AtCheck (s\<lparr>wk_handled := wk_handled s @ [pkt]\<rparr>))"

text \<open>The receiver's side, and \<^verbatim>\<open>Stop\<close>.\<close>

definition Push_store :: "datagram_packet \<Rightarrow> udp_workers \<Rightarrow> udp_workers" where
  "Push_store pkt s =
     s\<lparr>wk_queue := Push pkt (wk_queue s), wk_pushed := wk_pushed s @ [pkt], wk_notify := wk_notify s + 1\<rparr>"

definition Stop_flag :: "udp_workers \<Rightarrow> udp_workers" where
  "Stop_flag s = (if \<not> wk_running s then s else s\<lparr>wk_running := False, wk_stop := Flagged\<rparr>)"

inductive worker_step :: "bool \<Rightarrow> udp_workers \<Rightarrow> udp_workers \<Rightarrow> bool" for sp where
  check: "t < wk_count s \<Longrightarrow> wk_pc s t = AtCheck \<Longrightarrow> worker_step sp s (Worker_check t s)"
| pop: "t < wk_count s \<Longrightarrow> wk_pc s t = AtPop \<Longrightarrow> worker_step sp s (Worker_pop t s)"
| woken: "t < wk_count s \<Longrightarrow> wk_pc s t = AtWoken \<Longrightarrow> worker_step sp s (Worker_woken t s)"
| process: "t < wk_count s \<Longrightarrow> wk_pc s t = Holds pkt \<Longrightarrow> worker_step sp s (Worker_process t pkt s)"
| spurious: "sp \<Longrightarrow> t < wk_count s \<Longrightarrow> wk_pc s t = AtWait \<Longrightarrow> worker_step sp s (at t AtWoken s)"
| store: "0 < effective pkt \<Longrightarrow> worker_step sp s (Push_store pkt s)"
| notify: "0 < wk_notify s \<Longrightarrow> t < wk_count s \<Longrightarrow> wk_pc s t = AtWait \<Longrightarrow>
    worker_step sp s (at t AtWoken (s\<lparr>wk_notify := wk_notify s - 1\<rparr>))"
| notify_none: "0 < wk_notify s \<Longrightarrow> (\<forall>t < wk_count s. wk_pc s t \<noteq> AtWait) \<Longrightarrow>
    worker_step sp s (s\<lparr>wk_notify := wk_notify s - 1\<rparr>)"
| stop: "wk_stop s = NotStopping \<Longrightarrow> worker_step sp s (Stop_flag s)"
| wakeup: "wk_stop s = Flagged \<Longrightarrow> t < wk_count s \<Longrightarrow> wk_pc s t = AtWait \<Longrightarrow>
    worker_step sp s (at t AtWoken (s\<lparr>wk_stop := JoiningFrom 0\<rparr>))"
| wakeup_none: "wk_stop s = Flagged \<Longrightarrow> (\<forall>t < wk_count s. wk_pc s t \<noteq> AtWait) \<Longrightarrow>
    worker_step sp s (s\<lparr>wk_stop := JoiningFrom 0\<rparr>)"
| join: "wk_stop s = JoiningFrom t \<Longrightarrow> t < wk_count s \<Longrightarrow> wk_pc s t = Exited \<Longrightarrow>
    worker_step sp s (s\<lparr>wk_stop := JoiningFrom (t + 1)\<rparr>)"

inductive worker_steps :: "bool \<Rightarrow> udp_workers \<Rightarrow> udp_workers \<Rightarrow> bool" for sp where
  none: "worker_steps sp s s"
| more: "worker_steps sp s t \<Longrightarrow> worker_step sp t u \<Longrightarrow> worker_steps sp s u"

definition started_workers :: "nat \<Rightarrow> udp_workers" where
  "started_workers n = (UDPWorkder_ctor False)\<lparr>wk_count := n, wk_running := True, wk_pc := (\<lambda>t. if t < n then AtCheck else NotStarted)\<rparr>"

lemma UDPWorkder_Start_ok: "0 < n \<Longrightarrow> UDPWorkder_Start E True n (UDPWorkder_ctor r) = Inr (True, started_workers n)"
  by (simp add: UDPWorkder_Start_def UDPWorkder_ctor_def started_workers_def cong: if_cong)

section \<open>Conservation of packets\<close>

text \<open>The packets in the hands of the threads.\<close>

definition hand :: "worker_at \<Rightarrow> datagram_packet multiset" where
  "hand pc = (case pc of Holds p \<Rightarrow> if effective p = 0 then {#} else {#p#} | _ \<Rightarrow> {#})"

definition in_hands :: "udp_workers \<Rightarrow> datagram_packet multiset" where
  "in_hands s = (\<Sum>t < wk_count s. hand (wk_pc s t))"

lemma hand_simps [simp]:
  "hand NotStarted = {#}" "hand AtCheck = {#}" "hand AtPop = {#}" "hand AtWait = {#}" "hand AtWoken = {#}" "hand Exited = {#}"
  "hand (Holds p) = (if effective p = 0 then {#} else {#p#})"
  by (simp_all add: hand_def)

lemma at_fields [simp]:
  "wk_queue (at t pc s) = wk_queue s" "wk_running (at t pc s) = wk_running s" "wk_pc (at t pc s) = (wk_pc s)(t := pc)"
  "wk_count (at t pc s) = wk_count s" "wk_notify (at t pc s) = wk_notify s" "wk_stop (at t pc s) = wk_stop s"
  "wk_handled (at t pc s) = wk_handled s" "wk_pushed (at t pc s) = wk_pushed s" "wk_popped (at t pc s) = wk_popped s"
  "wk_dropped (at t pc s) = wk_dropped s"
  by (simp_all add: at_def)

lemma sum_hand_upd:
  fixes f :: "nat \<Rightarrow> worker_at"
  assumes "t < n"
  shows "(\<Sum>i < n. hand ((f(t := pc)) i)) + hand (f t) = (\<Sum>i < n. hand (f i)) + hand pc"
proof -
  have "(\<Sum>i < n. hand (g i)) = hand (g t) + (\<Sum>i \<in> {..<n} - {t}. hand (g i))" for g :: "nat \<Rightarrow> worker_at"
    using assms by (intro sum.remove) simp_all
  from this [of f] this [of "f(t := pc)"] show ?thesis by (simp add: ac_simps)
qed

lemma in_hands_at:
  assumes "t < wk_count s" and "hand (wk_pc s t) = {#}"
  shows "in_hands (at t pc s) = in_hands s + hand pc"
  using sum_hand_upd [OF assms(1), of "wk_pc s" pc] assms(2) by (simp add: in_hands_def)

lemma in_hands_release:
  assumes "t < wk_count s" and "hand pc = {#}"
  shows "in_hands s = in_hands (at t pc s) + hand (wk_pc s t)"
  using sum_hand_upd [OF assms(1), of "wk_pc s" pc] assms(2) by (simp add: in_hands_def)

lemma in_hands_cong [simp]:
  "in_hands (s\<lparr>wk_queue := q\<rparr>) = in_hands s" "in_hands (s\<lparr>wk_queue := q, wk_popped := ps\<rparr>) = in_hands s"
  "in_hands (s\<lparr>wk_handled := hs\<rparr>) = in_hands s" "in_hands (s\<lparr>wk_dropped := ds\<rparr>) = in_hands s"
  "in_hands (s\<lparr>wk_notify := n\<rparr>) = in_hands s" "in_hands (s\<lparr>wk_stop := st\<rparr>) = in_hands s"
  "in_hands (s\<lparr>wk_running := b, wk_stop := st\<rparr>) = in_hands s"
  "in_hands (s\<lparr>wk_queue := q, wk_pushed := ps, wk_notify := n\<rparr>) = in_hands s"
  "in_hands (s\<lparr>wk_queue := q, wk_pushed := ps\<rparr>) = in_hands s"
  "in_hands (s\<lparr>wk_running := b\<rparr>) = in_hands s"
  by (simp_all add: in_hands_def)

definition wk_inv :: "udp_workers \<Rightarrow> bool" where
  "wk_inv s \<longleftrightarrow> wk_pushed s = wk_popped s @ wk_queue s \<and>
     mset (wk_popped s) = mset (wk_handled s) + mset (wk_dropped s) + in_hands s \<and>
     (\<forall>p \<in> set (wk_pushed s). 0 < effective p) \<and> (wk_running s \<longrightarrow> wk_dropped s = [])"

lemma DatagramPacket_copy_id [simp]: "DatagramPacket_copy p = p"
  by (simp add: DatagramPacket_copy_def)

lemma started_workers_inv: "wk_inv (started_workers n)"
proof -
  have "in_hands (started_workers n) = {#}" by (simp add: in_hands_def started_workers_def)
  then show ?thesis by (simp add: wk_inv_def started_workers_def UDPWorkder_ctor_def)
qed

lemma wk_inv_take:
  assumes "wk_inv s" and "t < wk_count s" and "hand (wk_pc s t) = {#}" and "wk_queue s = pkt # rest"
  shows "wk_inv (at t (Holds pkt) (s\<lparr>wk_queue := rest, wk_popped := wk_popped s @ [pkt]\<rparr>))"
proof -
  have "0 < effective pkt" using assms(1,4) by (simp add: wk_inv_def)
  then show ?thesis using assms in_hands_at [of t "s\<lparr>wk_queue := rest, wk_popped := wk_popped s @ [pkt]\<rparr>" "Holds pkt"]
    by (simp add: wk_inv_def)
qed

lemma wk_inv_move: "wk_inv s \<Longrightarrow> t < wk_count s \<Longrightarrow> hand (wk_pc s t) = {#} \<Longrightarrow> hand pc = {#} \<Longrightarrow> wk_inv (at t pc s)"
  using in_hands_at [of t s pc] by (simp add: wk_inv_def)

lemma worker_step_inv:
  assumes "worker_step sp s s'" and "wk_inv s"
  shows "wk_inv s'"
  using assms
proof cases
  case (check t)
  then show ?thesis using assms(2) wk_inv_move by (simp add: Worker_check_def)
next
  case (pop t)
  then show ?thesis using assms(2) wk_inv_move [of s t AtWait] wk_inv_take [OF assms(2), of t]
    by (auto simp: Worker_pop_def Pop_enter_def split: list.splits)
next
  case (woken t)
  have "wk_inv (at t (Holds (DatagramPacket_ctor 0)) s)"
    by (rule wk_inv_move [OF assms(2)]) (use woken in \<open>simp_all add: DatagramPacket_ctor_def\<close>)
  moreover have idem: "s\<lparr>wk_queue := wk_queue s\<rparr> = s" by simp
  ultimately show ?thesis
  proof (cases "wk_queue s")
    case Nil
    then have "Worker_woken t s = at t (Holds (DatagramPacket_ctor 0)) s"
      using idem by (simp add: Worker_woken_def Pop_woken_def)
    then show ?thesis using woken(1) \<open>wk_inv (at t (Holds (DatagramPacket_ctor 0)) s)\<close> by simp
  next
    case (Cons pkt rest)
    then show ?thesis using wk_inv_take [OF assms(2) woken(2) _ Cons] woken by (simp add: Worker_woken_def Pop_woken_def)
  qed
next
  case (process t pkt)
  have "in_hands s = in_hands (at t pc s) + (if effective pkt = 0 then {#} else {#pkt#})" if "hand pc = {#}" for pc
    using in_hands_release [OF process(2) that] process(3) by simp
  moreover have "in_hands (at t pc (s\<lparr>wk_dropped := ds\<rparr>)) = in_hands (at t pc s)" "in_hands (at t pc (s\<lparr>wk_handled := hs\<rparr>)) = in_hands (at t pc s)"
    for pc ds hs by (simp_all add: in_hands_def)
  ultimately show ?thesis using assms(2) process(1) by (auto simp: wk_inv_def Worker_process_def)
next
  case (spurious t)
  then show ?thesis using assms(2) wk_inv_move by simp
next
  case (store pkt)
  then show ?thesis using assms(2) by (simp add: wk_inv_def Push_store_def Push_def)
next
  case (notify t)
  have "wk_inv (s\<lparr>wk_notify := wk_notify s - 1\<rparr>)" using assms(2) by (simp add: wk_inv_def)
  then show ?thesis using notify wk_inv_move [of "s\<lparr>wk_notify := wk_notify s - 1\<rparr>" t AtWoken] by simp
next
  case notify_none
  then show ?thesis using assms(2) by (simp add: wk_inv_def)
next
  case stop
  then show ?thesis using assms(2) by (simp add: wk_inv_def Stop_flag_def)
next
  case (wakeup t)
  have "wk_inv (s\<lparr>wk_stop := JoiningFrom 0\<rparr>)" using assms(2) by (simp add: wk_inv_def)
  then show ?thesis using wakeup wk_inv_move [of "s\<lparr>wk_stop := JoiningFrom 0\<rparr>" t AtWoken] by simp
next
  case wakeup_none
  then show ?thesis using assms(2) by (simp add: wk_inv_def)
next
  case (join t)
  then show ?thesis using assms(2) by (simp add: wk_inv_def)
qed

lemma worker_steps_inv: "worker_steps sp s t \<Longrightarrow> wk_inv s \<Longrightarrow> wk_inv t"
  by (induction rule: worker_steps.induct) (auto dest: worker_step_inv)

section \<open>Properties\<close>

text \<open>
  C20: In every interleaving of the receiver and any number of workers, spurious wakeups included, packets
  are taken in the order in which they were pushed, each once, and none is lost: a packet taken was
  given to the callback, or is in the hands of a thread, or was given up by a thread that found the
  server stopped; while the server runs none is given up.
\<close>

theorem udp_packets_conserved:
  assumes "worker_steps sp (started_workers n) s"
  shows "wk_pushed s = wk_popped s @ wk_queue s \<and>
    mset (wk_popped s) = mset (wk_handled s) + mset (wk_dropped s) + (\<Sum>t < wk_count s. hand (wk_pc s t)) \<and>
    (wk_running s \<longrightarrow> wk_dropped s = [])"
  using worker_steps_inv [OF assms started_workers_inv] by (simp add: wk_inv_def in_hands_def)

text \<open>Chains of steps, from the end.\<close>

lemma worker_steps_trans: "worker_steps sp s t \<Longrightarrow> worker_steps sp t u \<Longrightarrow> worker_steps sp s u"
  by (rotate_tac, induction rule: worker_steps.induct) (auto intro: worker_steps.more)

lemma worker_step_steps: "worker_step sp s t \<Longrightarrow> worker_steps sp t u \<Longrightarrow> worker_steps sp s u"
  using worker_steps_trans [OF worker_steps.more [OF worker_steps.none]] .

text \<open>A single worker that is waiting handles the next packet.\<close>

lemma worker_handles:
  assumes "wk_count s = 1" and "wk_pc s 0 = AtWait" and "wk_running s" and "wk_queue s = []" and "0 < effective p"
  shows "\<exists>t. worker_steps False s t \<and> wk_handled t = wk_handled s @ [p] \<and> wk_pc t 0 = AtCheck \<and> wk_running t \<and> wk_queue t = []"
proof -
  let ?s1 = "Push_store p s"
  let ?s2 = "at 0 AtWoken (?s1\<lparr>wk_notify := wk_notify ?s1 - 1\<rparr>)"
  let ?s3 = "Worker_woken 0 ?s2"
  let ?s4 = "Worker_process 0 p ?s3"
  have f1: "wk_count ?s1 = 1" "wk_pc ?s1 0 = AtWait" "0 < wk_notify ?s1" "wk_queue ?s1 = [p]" "wk_running ?s1" "wk_handled ?s1 = wk_handled s"
    using assms by (simp_all add: Push_store_def Push_def)
  have f3: "wk_count ?s3 = 1" "wk_pc ?s3 0 = Holds p" "wk_queue ?s3 = []" "wk_running ?s3" "wk_handled ?s3 = wk_handled s"
    using f1 by (simp_all add: Worker_woken_def Pop_woken_def)
  have "worker_step False s ?s1" by (rule worker_step.store [OF assms(5)])
  moreover have "worker_step False ?s1 ?s2" by (rule worker_step.notify) (simp_all add: f1)
  moreover have "worker_step False ?s2 ?s3" by (rule worker_step.woken) (simp_all add: f1)
  moreover have "worker_step False ?s3 ?s4" by (rule worker_step.process) (use f3 in simp_all)
  ultimately have "worker_steps False s ?s4" by (blast intro: worker_step_steps worker_steps.none)
  moreover have "wk_handled ?s4 = wk_handled s @ [p]" "wk_pc ?s4 0 = AtCheck" "wk_running ?s4" "wk_queue ?s4 = []"
    using f3 assms(5) by (simp_all add: Worker_process_def)
  ultimately show ?thesis by blast
qed

text \<open>A thread that has ended stays so; when all have, no packet is handled any more.\<close>

definition all_exited :: "udp_workers \<Rightarrow> bool" where
  "all_exited s \<longleftrightarrow> (\<forall>t < wk_count s. wk_pc s t = Exited)"

lemma all_exited_step: "worker_step sp s t \<Longrightarrow> all_exited s \<Longrightarrow> all_exited t \<and> wk_handled t = wk_handled s"
  by (induction rule: worker_step.induct) (auto simp: all_exited_def Push_store_def Stop_flag_def)

lemma all_exited_steps:
  assumes "worker_steps sp s t" and "all_exited s"
  shows "all_exited t \<and> wk_handled t = wk_handled s"
  using assms by (induction rule: worker_steps.induct) (auto dest: all_exited_step)


text \<open>A stopped server without pushes in flight: a thread that waits is not woken any more.\<close>

definition stranded :: "udp_workers \<Rightarrow> bool" where
  "stranded s \<longleftrightarrow> wk_pc s 0 = AtWait \<and> \<not> wk_running s \<and> wk_stop s = JoiningFrom 0"

inductive stopped_steps :: "udp_workers \<Rightarrow> udp_workers \<Rightarrow> bool" where
  stopped_none: "stopped_steps s s"
| stopped_more: "stopped_steps s t \<Longrightarrow> worker_step False t u \<Longrightarrow> wk_pushed u = wk_pushed t \<Longrightarrow> stopped_steps s u"

lemma stranded_step:
  assumes "worker_step False s t" and "stranded s" and "wk_notify s = 0" and "wk_pushed t = wk_pushed s"
  shows "stranded t \<and> wk_notify t = 0"
  using assms by cases (auto simp: stranded_def Worker_check_def Worker_pop_def Worker_woken_def Worker_process_def Push_store_def
      Stop_flag_def intro!: gr0I split: option.splits prod.splits)

lemma stranded_steps: "stopped_steps s t \<Longrightarrow> stranded s \<Longrightarrow> wk_notify s = 0 \<Longrightarrow> stranded t \<and> wk_notify t = 0"
  by (induction rule: stopped_steps.induct) (auto dest: stranded_step)

text \<open>
  \<^verbatim>\<open>Stop\<close> can hang. It clears \<^verbatim>\<open>running_\<close> and notifies without the mutex; when a worker has read
  \<^verbatim>\<open>running_\<close> and not yet begun to wait, the notification is lost: the worker waits for ever (unless it
  wakes spuriously), and \<^verbatim>\<open>Stop\<close> waits for the worker.
\<close>

theorem udp_Stop_can_hang:
  "\<exists>s. worker_steps False (started_workers 1) s \<and> \<not> wk_running s \<and> wk_stop s = JoiningFrom 0 \<and>
    (\<forall>t. stopped_steps s t \<longrightarrow> wk_pc t 0 = AtWait \<and> wk_stop t = JoiningFrom 0)"
proof -
  let ?s0 = "started_workers 1"
  let ?s1 = "Worker_check 0 ?s0"
  let ?s2 = "Stop_flag ?s1"
  let ?s3 = "?s2\<lparr>wk_stop := JoiningFrom 0\<rparr>"
  let ?s4 = "Worker_pop 0 ?s3"
  note defs = started_workers_def UDPWorkder_ctor_def Worker_check_def Worker_pop_def Pop_enter_def Stop_flag_def at_def
  have "worker_step False ?s0 ?s1" by (rule worker_step.check) (simp_all add: defs)
  moreover have "worker_step False ?s1 ?s2" by (rule worker_step.stop) (simp_all add: defs)
  moreover have "worker_step False ?s2 ?s3" by (rule worker_step.wakeup_none) (simp_all add: defs)
  moreover have "worker_step False ?s3 ?s4" by (rule worker_step.pop) (simp_all add: defs)
  ultimately have "worker_steps False ?s0 ?s4" by (blast intro: worker_step_steps worker_steps.none)
  moreover have "stranded ?s4" "wk_notify ?s4 = 0" by (simp_all add: defs stranded_def)
  ultimately show ?thesis using stranded_steps by (metis stranded_def)
qed

section \<open>Witnesses\<close>

lemma sample_worker_run: "worker_steps True (started_workers 2) (Push_store (DatagramPacket_ctor 4\<lparr>effective := 3\<rparr>) (started_workers 2))"
  by (rule worker_step_steps [OF worker_step.store worker_steps.none]) simp

theorem udp_packets_conserved_witness:
  "wk_pushed (Push_store (DatagramPacket_ctor 4\<lparr>effective := 3\<rparr>) (started_workers 2)) =
    wk_queue (Push_store (DatagramPacket_ctor 4\<lparr>effective := 3\<rparr>) (started_workers 2))"
proof -
  have "wk_popped (Push_store (DatagramPacket_ctor 4\<lparr>effective := 3\<rparr>) (started_workers 2)) = []"
    by (simp add: Push_store_def started_workers_def UDPWorkder_ctor_def)
  then show ?thesis using udp_packets_conserved [OF sample_worker_run] by simp
qed


end
