(* ===== verification/UDPServer.thy ===== *)
theory UDPServer
  imports EventLoop UDPWorker
begin

unbundle bit_operations_syntax

text \<open>
  The receiver (\<^verbatim>\<open>src/udp_receiver.h\<close>, \<^verbatim>\<open>src/udp_receiver.cc\<close>) and the UDP server
  (\<^verbatim>\<open>src/udp_server.h\<close>, \<^verbatim>\<open>src/udp_server.cc\<close>). The server's state extends its loop's: its socket, its receiver with
  the receiver's channel in the loop, and the queue with the workers (theory \<open>UDPWorker\<close>). \<open>answer\<close> is
  the kernel's to \<^verbatim>\<open>recvfrom\<close>, and \<open>p\<close> the address of a channel that is allocated.
\<close>

section \<open>State\<close>

record udp_receiver =
  rx_channel :: addr
  rx_pkt_size :: nat
  rx_has_error_cb :: bool

record udp_server = event_loop +
  us_socket :: dgram_socket
  us_receiver :: udp_receiver
  us_workers :: udp_workers

definition on_socket :: "(dgram_socket \<Rightarrow> dgram_socket outcome) \<Rightarrow> udp_server \<Rightarrow> udp_server outcome" where
  "on_socket f s = rbind (f (us_socket s)) (\<lambda>d. Inr (s\<lparr>us_socket := d\<rparr>))"

section \<open>The receiver\<close>

definition UDPReceiver_ctor :: "dgram_env \<Rightarrow> addr \<Rightarrow> udp_server \<Rightarrow> (udp_receiver \<times> udp_server) outcome" where
  "UDPReceiver_ctor K p s =
     rbind (new_Channel (senv K) p (dg_fd (us_socket s)) '''' s) (\<lambda>s.
     let rx = \<lparr>rx_channel = p, rx_pkt_size = 1024, rx_has_error_cb = False\<rparr> in
     if 0 > dg_fd (us_socket s) then rbind (dassert (senv K) False) (\<lambda>_. Inr (rx, s))
     else
     rbind (GetRcvBufferSize K (us_socket s)) (\<lambda>_.
     rbind (GetSndBufferSize K (us_socket s)) (\<lambda>_.
     rbind (on_socket (DatagramSocket_SetReuseAddress K) s) (\<lambda>s.
     rbind (on_socket (SetSndBufferSize K (1024 * 256)) s) (\<lambda>s.
     rbind (on_socket (SetRcvBufferSize K (1024 * 256)) s) (\<lambda>s.
     rbind (modify p (\<lambda>c. c\<lparr>ch_has_read := True, ch_has_error := True\<rparr>) s) (\<lambda>s. Inr (rx, s))))))))"

text \<open>The destructor; the channel, of which the receiver has the only reference, goes with it.\<close>

definition UDPReceiver_dtor :: "dgram_env \<Rightarrow> udp_receiver \<Rightarrow> udp_server \<Rightarrow> udp_server outcome" where
  "UDPReceiver_dtor K rx s =
     rbind (DisableAll (senv K) (rx_channel rx) s) (\<lambda>s.
     rbind (Channel_Remove (senv K) (rx_channel rx) s) (\<lambda>s.
       delete_Channel (senv K) (rx_channel rx) s))"

definition UDPReceiver_Start :: "dgram_env \<Rightarrow> udp_receiver \<Rightarrow> udp_server \<Rightarrow> udp_server outcome" where
  "UDPReceiver_Start K rx s = EnableReading (senv K) (rx_channel rx) s"

definition UDPReceiver_Stop :: "dgram_env \<Rightarrow> udp_receiver \<Rightarrow> udp_server \<Rightarrow> udp_server outcome" where
  "UDPReceiver_Stop K rx s =
     rbind (DisableAll (senv K) (rx_channel rx) s) (\<lambda>s.
       Inr (s\<lparr>us_socket := DatagramSocket_Shutdown True False (us_socket s)\<rparr>))"

definition UDPReceiver_HandleRead :: "dgram_env \<Rightarrow> (int, byte list \<times> inet_address) sum \<Rightarrow> udp_server \<Rightarrow> udp_server outcome" where
  "UDPReceiver_HandleRead K answer s =
     rbind (Receive (senv K) answer (rx_pkt_size (us_receiver s))) (\<lambda>pkt.
       if 0 = effective pkt then Inr s else Inr (s\<lparr>us_workers := Push_store pkt (us_workers s)\<rparr>))"

section \<open>The server\<close>

text \<open>\<^verbatim>\<open>OnReceiverError\<close>: the new receiver is constructed, then \<^verbatim>\<open>reset\<close> destroys the old one.\<close>

definition OnReceiverError :: "dgram_env \<Rightarrow> addr \<Rightarrow> udp_server \<Rightarrow> udp_server outcome" where
  "OnReceiverError K p s =
     rbind (UDPReceiver_Stop K (us_receiver s) s) (\<lambda>s.
     rbind (UDPReceiver_ctor K p s) (\<lambda>(rx, s).
     rbind (UDPReceiver_dtor K (us_receiver s) (s\<lparr>us_receiver := rx\<rparr>)) (\<lambda>s.
     let s = s\<lparr>us_receiver := (us_receiver s)\<lparr>rx_pkt_size := 1500\<rparr>\<rparr> in
       UDPReceiver_Start K (us_receiver s) s)))"

definition UDPReceiver_HandleError :: "dgram_env \<Rightarrow> addr \<Rightarrow> udp_server \<Rightarrow> udp_server outcome" where
  "UDPReceiver_HandleError K p s =
     (let ch = rx_channel (us_receiver s) in
      rbind (DisableAll (senv K) ch s) (\<lambda>s.
      rbind (Channel_Remove (senv K) ch s) (\<lambda>s.
        if rx_has_error_cb (us_receiver s) then OnReceiverError K p s else Inr s)))"

definition UDPServer_ctor :: "dgram_env \<Rightarrow> inet_address \<Rightarrow> addr \<Rightarrow> bool \<Rightarrow> event_loop \<Rightarrow> udp_server outcome" where
  "UDPServer_ctor K rcv_addr p r loop =
     rbind (DatagramSocket_addr_ctor K rcv_addr) (\<lambda>d.
     rbind (UDPReceiver_ctor K p (event_loop.extend loop
         (udp_server.fields d \<lparr>rx_channel = p, rx_pkt_size = 0, rx_has_error_cb = False\<rparr> (UDPWorkder_ctor r)))) (\<lambda>(rx, s).
       Inr (s\<lparr>us_receiver := rx\<rparr>)))"

text \<open>\<^verbatim>\<open>Start\<close> up to the call of \<^verbatim>\<open>Loop\<close>, which then handles the events below.\<close>

definition UDPServer_Start :: "dgram_env \<Rightarrow> bool \<Rightarrow> nat \<Rightarrow> udp_server \<Rightarrow> udp_server outcome" where
  "UDPServer_Start K ok thread_nums s =
     (let s = s\<lparr>us_receiver := (us_receiver s)\<lparr>rx_pkt_size := 1500, rx_has_error_cb := True\<rparr>\<rparr> in
      rbind (UDPWorkder_Start (senv K) ok thread_nums (us_workers s)) (\<lambda>(started, w).
        UDPReceiver_Start K (us_receiver s) (s\<lparr>us_workers := w\<rparr>)))"

text \<open>\<^verbatim>\<open>Stop\<close>; \<open>joined\<close> is what the workers' steps lead to until \<^verbatim>\<open>Stop\<close> has joined them.\<close>

definition UDPServer_Stop :: "dgram_env \<Rightarrow> (udp_workers \<Rightarrow> udp_workers) \<Rightarrow> udp_server \<Rightarrow> udp_server outcome" where
  "UDPServer_Stop K joined s =
     rbind (UDPReceiver_Stop K (us_receiver s) s) (\<lambda>s.
       Inr (Quit (s\<lparr>us_workers := joined (Stop_flag (us_workers s))\<rparr>)))"

definition UDPServer_Send_packet :: "dgram_env \<Rightarrow> datagram_packet \<Rightarrow> udp_server \<Rightarrow> udp_server" where
  "UDPServer_Send_packet K pkt s = s\<lparr>us_socket := snd (DatagramSocket_Send_packet K pkt (us_socket s))\<rparr>"

definition UDPServer_Send :: "dgram_env \<Rightarrow> byte list \<Rightarrow> nat \<Rightarrow> inet_address \<Rightarrow> udp_server \<Rightarrow> udp_server" where
  "UDPServer_Send K dat len dest s = s\<lparr>us_socket := snd (DatagramSocket_Send K dat len dest (us_socket s))\<rparr>"

text \<open>An event of the receiver's channel, through \<^verbatim>\<open>Channel::HandleEvent\<close>.\<close>

definition us_call :: "dgram_env \<Rightarrow> (int, byte list \<times> inet_address) sum \<Rightarrow> addr \<Rightarrow> callback \<Rightarrow> udp_server \<Rightarrow> udp_server outcome" where
  "us_call K answer p k s =
     (case k of
        ReadCb \<Rightarrow> UDPReceiver_HandleRead K answer s
      | ErrorCb \<Rightarrow> UDPReceiver_HandleError K p s
      | _ \<Rightarrow> Inr s)"

definition us_event :: "dgram_env \<Rightarrow> (int, byte list \<times> inet_address) sum \<Rightarrow> addr \<Rightarrow> events \<Rightarrow> udp_server \<Rightarrow> udp_server outcome" where
  "us_event K answer p re s =
     rbind (modify (rx_channel (us_receiver s)) (\<lambda>c. c\<lparr>ch_revents := re\<rparr>) s)
       (HandleEvent (\<lambda>_ _. True) (us_call K answer p) (rx_channel (us_receiver s)))"

section \<open>Invariant of a started server\<close>

definition us_inv :: "udp_server \<Rightarrow> bool" where
  "us_inv s \<longleftrightarrow> ep_inv s \<and> rx_pkt_size (us_receiver s) = 1500 \<and> rx_has_error_cb (us_receiver s) \<and> 0 < dg_fd (us_socket s) \<and>
     (\<exists>c. heap s (rx_channel (us_receiver s)) = Some c \<and> ch_status c = kAdded \<and> ch_events c = kReadEvent \<and> \<not> ch_tied c \<and>
        ch_has_read c \<and> ch_has_error c \<and> \<not> ch_has_write c \<and> \<not> ch_has_close c \<and> ch_fd c = dg_fd (us_socket s))"

definition sockopts_ok :: "dgram_env \<Rightarrow> bool" where
  "sockopts_ok K \<longleftrightarrow> (\<forall>fd opt v. set_ok K fd opt v) \<and> (\<forall>fd opt. get_opt K fd opt \<noteq> None)"

lemma SetOption_ok:
  assumes "sockopts_ok K"
  shows "\<exists>os. DatagramSocket_SetReuseAddress K d = Inr (d\<lparr>options := os\<rparr>)" "\<exists>os. SetSndBufferSize K n d = Inr (d\<lparr>options := os\<rparr>)"
    "\<exists>os. SetRcvBufferSize K n d = Inr (d\<lparr>options := os\<rparr>)" "\<exists>v. GetRcvBufferSize K d = Inr v" "\<exists>v. GetSndBufferSize K d = Inr v"
proof -
  obtain v w where "get_opt K (dg_fd d) SO_RCVBUF = Some v" "get_opt K (dg_fd d) SO_SNDBUF = Some w"
    using assms unfolding sockopts_ok_def by blast
  then show "\<exists>v. GetRcvBufferSize K d = Inr v" "\<exists>v. GetSndBufferSize K d = Inr v"
    by (simp_all add: GetRcvBufferSize_def GetRecvBufferSize_def GetSndBufferSize_def GetSendBufferSize_def sock_env.defs)
qed (use assms in \<open>auto simp: sockopts_ok_def DatagramSocket_SetReuseAddress_def SetReuseAddress_def SetSndBufferSize_def SetSendBufferSize_def
      SetRcvBufferSize_def SetRecvBufferSize_def set_option_def sys_setsockopt_def sock_env.defs\<close>)

lemma UDPReceiver_ctor_eq:
  assumes "sockopts_ok K" and "0 < dg_fd (us_socket s)"
  shows "\<exists>os. UDPReceiver_ctor K p s = Inr (\<lparr>rx_channel = p, rx_pkt_size = 1024, rx_has_error_cb = False\<rparr>,
    s\<lparr>us_socket := (us_socket s)\<lparr>options := os\<rparr>, heap := (heap s)(p \<mapsto>
      (Channel_ctor (Some (loop_self s)) (dg_fd (us_socket s)) '''')\<lparr>ch_has_read := True, ch_has_error := True\<rparr>)\<rparr>)"
proof -
  let ?d = "us_socket s"
  obtain o1 where o1: "DatagramSocket_SetReuseAddress K ?d = Inr (?d\<lparr>options := o1\<rparr>)" using SetOption_ok(1) [OF assms(1)] by blast
  obtain o2 where o2: "SetSndBufferSize K 262144 (?d\<lparr>options := o1\<rparr>) = Inr (?d\<lparr>options := o2\<rparr>)"
    using SetOption_ok(2) [OF assms(1), of 262144 "?d\<lparr>options := o1\<rparr>"] by auto
  obtain o3 where o3: "SetRcvBufferSize K 262144 (?d\<lparr>options := o2\<rparr>) = Inr (?d\<lparr>options := o3\<rparr>)"
    using SetOption_ok(3) [OF assms(1), of 262144 "?d\<lparr>options := o2\<rparr>"] by auto
  obtain v w where "GetRcvBufferSize K ?d = Inr v" "GetSndBufferSize K ?d = Inr w"
    using SetOption_ok(4,5) [OF assms(1), of ?d] by blast
  then have "UDPReceiver_ctor K p s = Inr (\<lparr>rx_channel = p, rx_pkt_size = 1024, rx_has_error_cb = False\<rparr>,
    s\<lparr>us_socket := ?d\<lparr>options := o3\<rparr>, heap := (heap s)(p \<mapsto>
      (Channel_ctor (Some (loop_self s)) (dg_fd ?d) '''')\<lparr>ch_has_read := True, ch_has_error := True\<rparr>)\<rparr>)"
    using assms(2) o1 o2 o3 by (simp add: UDPReceiver_ctor_def new_Channel_def on_socket_def)
  then show ?thesis by blast
qed

section \<open>Properties\<close>

lemma us_inv_chan:
  assumes "us_inv s"
  obtains c where "heap s (rx_channel (us_receiver s)) = Some c" "ch_status c = kAdded" "\<not> ch_tied c" "ch_has_read c" "ch_has_error c"
    "\<not> ch_has_write c" "\<not> ch_has_close c" "ep_inv s"
  using assms by (auto simp: us_inv_def)

text \<open>
  A constructed and started server has its socket bound to the address and registered with the
  kernel for reading, receives packets of up to 1500 bytes, and its workers are at the head of their loop.
\<close>

theorem UDPServer_starts:
  assumes "env_ok (senv K)" and "sockopts_ok K" and "0 < k_dgram K" and "bind_ok K (k_dgram K) a" and "0 < n"
    and "ep_inv loop" and "heap loop p = None" and "nat (k_dgram K) \<notin> used loop" and "nat (k_dgram K) < length (channels loop)"
  shows "succeeds (rbind (UDPServer_ctor K a p r loop) (UDPServer_Start K True n)) (\<lambda>s. us_inv s \<and>
    interest s = (interest loop)(k_dgram K \<mapsto> (kReadEvent, p)) \<and> bound (us_socket s) = [(k_dgram K, a)] \<and>
    us_workers s = started_workers n \<and> dg_sent (us_socket s) = [] \<and> \<not> dg_connected (us_socket s) \<and>
    (\<forall>q. q \<noteq> p \<longrightarrow> heap s q = heap loop q))"
proof -
  let ?fd = "k_dgram K"
  define d where "d = \<lparr>open_fds = [?fd], options = [], bound = [(?fd, a)], shut = [], dg_local = a, dg_server = InetAddress_default,
      dg_connected = False, dg_is_bind = True, dg_fd = ?fd, dg_sends = 0, dg_sent = [], dg_shut_rd = False, dg_shut_wr = False\<rparr>"
  have d: "DatagramSocket_addr_ctor K a = Inr d"
    using assms(3,4) by (simp add: DatagramSocket_addr_ctor_def dgram_fresh_def SocketCeate_def Socket_ctor_def DatagramSocket_Bind_def
        Socket_Bind_def sock_env.defs d_def)
  define s0 where "s0 = event_loop.extend loop (udp_server.fields d \<lparr>rx_channel = p, rx_pkt_size = 0, rx_has_error_cb = False\<rparr> (UDPWorkder_ctor r))"
  have s: "us_socket s0 = d" "heap s0 = heap loop" "channels s0 = channels loop" "used s0 = used loop" "interest s0 = interest loop"
      "loop_self s0 = loop_self loop" "us_workers s0 = UDPWorkder_ctor r"
    by (simp_all add: s0_def event_loop.defs udp_server.defs used_def)
  have ep: "ep_inv s0" by (rule ep_inv_ext [OF assms(6)]) (simp_all add: s0_def event_loop.defs)
  have fd: "dg_fd (us_socket s0) = ?fd" "0 < dg_fd (us_socket s0)" using assms(3) s(1) by (simp_all add: d_def)
  let ?c = "(Channel_ctor (Some (loop_self s0)) ?fd '''')\<lparr>ch_has_read := True, ch_has_error := True\<rparr>"
  obtain os where os: "UDPReceiver_ctor K p s0 = Inr (\<lparr>rx_channel = p, rx_pkt_size = 1024, rx_has_error_cb = False\<rparr>,
      s0\<lparr>us_socket := d\<lparr>options := os\<rparr>, heap := (heap s0)(p \<mapsto> ?c)\<rparr>)"
    using UDPReceiver_ctor_eq [OF assms(2) fd(2), of p] fd(1) s(1) by auto
  let ?rx = "\<lparr>rx_channel = p, rx_pkt_size = 1500, rx_has_error_cb = True\<rparr>"
  let ?t = "s0\<lparr>us_socket := d\<lparr>options := os\<rparr>, heap := (heap s0)(p \<mapsto> ?c), us_receiver := ?rx, us_workers := started_workers n\<rparr>"
  have "ep_inv (s0\<lparr>heap := (heap s0)(p \<mapsto> Channel_ctor (Some (loop_self s0)) ?fd '''')\<rparr>)"
    by (rule ep_inv_heap_new [OF ep]) (use assms(3,7,9) s in simp_all)
  from ep_inv_core_upd [OF this, of p _ ?c] have "ep_inv (s0\<lparr>heap := (heap s0)(p \<mapsto> ?c)\<rparr>)" by (simp add: core_def)
  then have inv: "ep_inv ?t" by (rule ep_inv_ext) simp_all
  have free: "channels ?t ! nat ?fd = None" using assms(8,9) s by (simp add: used_def)
  have up: "updatable p ?c ?t" using free by (simp add: updatable_def Channel_ctor_def)
  have "ch_events ?c OR kReadEvent = kReadEvent" by (simp add: Channel_ctor_def kNoneEvent_def)
  then have en: "EnableReading (senv K) p ?t = Inr (registered p ?c kReadEvent ?t)"
    using set_events_eq [OF assms(1) inv up, of "\<lambda>ev. ev OR kReadEvent"] by (simp add: EnableReading_def)
  have eq: "rbind (UDPServer_ctor K a p r loop) (UDPServer_Start K True n) = Inr (registered p ?c kReadEvent ?t)"
    using d os en s(7) by (simp add: UDPServer_ctor_def s0_def [symmetric] UDPServer_Start_def UDPWorkder_Start_ok [OF assms(5)] UDPReceiver_Start_def)
  have rep: "ep_inv (registered p ?c kReadEvent ?t)" by (rule ep_inv_registered [OF inv up])
  have "us_inv (registered p ?c kReadEvent ?t)" unfolding us_inv_def
    using rep fd s(1) by (simp add: registered_def Channel_ctor_def read_event_status d_def)
  moreover have "interest (registered p ?c kReadEvent ?t) = (interest loop)(?fd \<mapsto> (kReadEvent, p))"
    using s(5) by (simp add: registered_def Channel_ctor_def expected_interest_def read_event_status)
  ultimately show ?thesis using eq s(2) by (simp add: registered_def d_def)
qed

text \<open>What a read event does to the workers' side: one packet for a datagram that is not empty, cut to 1500 bytes.\<close>

definition received_packet :: "nat \<Rightarrow> byte list \<Rightarrow> inet_address \<Rightarrow> datagram_packet" where
  "received_packet len dat from =
     \<lparr>pkt_dat = overwrite 0 (take len dat) (replicate len 0), effective = min (length dat) len, pkt_address = from\<rparr>"

definition delivered :: "(int, byte list \<times> inet_address) sum \<Rightarrow> udp_workers \<Rightarrow> udp_workers" where
  "delivered answer w =
     (case answer of
        Inl err \<Rightarrow> w
      | Inr (dat, from) \<Rightarrow> if dat = [] then w else Push_store (received_packet 1500 dat from) w)"

lemma delivered_simps [simp]:
  "delivered (Inl err) w = w" "delivered (Inr ([], from)) w = w"
  "dat \<noteq> [] \<Longrightarrow> delivered (Inr (dat, from)) w = Push_store (received_packet 1500 dat from) w"
  by (simp_all add: delivered_def)

lemma received_packet_payload:
  "payload (received_packet len dat from) = take len dat" "pkt_address (received_packet len dat from) = from"
  "dat \<noteq> [] \<Longrightarrow> 0 < len \<Longrightarrow> 0 < effective (received_packet len dat from)"
  by (cases "length dat \<le> len"; simp add: received_packet_def payload_def overwrite_def)+

lemma HandleRead_delivers:
  assumes "rx_pkt_size (us_receiver s) = 1500"
  shows "UDPReceiver_HandleRead K answer s = Inr (s\<lparr>us_workers := delivered answer (us_workers s)\<rparr>)"
proof (cases answer)
  case (Inl err)
  then show ?thesis using assms
    by (simp add: UDPReceiver_HandleRead_def Receive_def Receive_into_eq DatagramPacket_ctor_def)
next
  case (Inr x)
  obtain dat "from" where x: "x = (dat, from)" by fastforce
  show ?thesis
  proof (cases "dat = []")
    case True
    then show ?thesis using assms Inr x
      by (simp add: UDPReceiver_HandleRead_def Receive_def Receive_into_def sys_recvfrom_def DatagramPacket_ctor_def overwrite_def)
  next
    case False
    then have "Receive (senv K) (Inr (dat, from)) 1500 = Inr (received_packet 1500 dat from)"
      by (simp add: Receive_def Receive_into_eq DatagramPacket_ctor_def received_packet_def)
    moreover have "0 < effective (received_packet 1500 dat from)" using False by (simp add: received_packet_payload)
    ultimately show ?thesis using assms Inr x False by (simp add: UDPReceiver_HandleRead_def)
  qed
qed

lemma us_inv_upd:
  assumes "us_inv s" and "heap s (rx_channel (us_receiver s)) = Some c"
  shows "us_inv (s\<lparr>us_workers := w, heap := (heap s)(rx_channel (us_receiver s) \<mapsto> c\<lparr>ch_revents := re, ch_handling := h\<rparr>)\<rparr>)"
proof -
  let ?p = "rx_channel (us_receiver s)"
  have ep: "ep_inv s" using assms(1) by (simp add: us_inv_def)
  have "ep_inv (s\<lparr>heap := (heap s)(?p \<mapsto> c\<lparr>ch_revents := re, ch_handling := h\<rparr>)\<rparr>)"
    by (rule ep_inv_core_upd [OF ep assms(2)]) (simp add: core_def)
  then have "ep_inv (s\<lparr>us_workers := w, heap := (heap s)(?p \<mapsto> c\<lparr>ch_revents := re, ch_handling := h\<rparr>)\<rparr>)"
    by (rule ep_inv_ext) simp_all
  then show ?thesis using assms by (simp add: us_inv_def)
qed

text \<open>A read event of a started server delivers the datagram and nothing else; the server stays started.\<close>

lemma us_read_event:
  assumes "us_inv s"
  obtains t where "us_event K answer p EPOLLIN s = Inr t" "us_inv t" "us_workers t = delivered answer (us_workers s)"
    "us_socket t = us_socket s" "us_receiver t = us_receiver s"
proof -
  let ?p = "rx_channel (us_receiver s)"
  obtain c where c: "heap s ?p = Some c" "\<not> ch_tied c" "ch_has_read c" "\<not> ch_has_write c" "\<not> ch_has_close c"
    by (rule us_inv_chan [OF assms])
  let ?s = "s\<lparr>heap := (heap s)(?p \<mapsto> c\<lparr>ch_revents := EPOLLIN, ch_handling := True\<rparr>)\<rparr>"
  let ?t = "s\<lparr>us_workers := delivered answer (us_workers s), heap := (heap s)(?p \<mapsto> c\<lparr>ch_revents := EPOLLIN, ch_handling := False\<rparr>)\<rparr>"
  have ev: "\<not> has_event EPOLLIN (EPOLLHUP OR EPOLLRDHUP)" "\<not> has_event EPOLLIN EPOLLERR" "has_event EPOLLIN (EPOLLIN OR EPOLLPRI)"
    "\<not> has_event EPOLLIN EPOLLOUT"
    by (simp_all add: has_event_def event_masks)
  have hr: "UDPReceiver_HandleRead K answer ?s = Inr (?s\<lparr>us_workers := delivered answer (us_workers ?s)\<rparr>)"
    by (rule HandleRead_delivers) (use assms in \<open>simp add: us_inv_def\<close>)
  have "us_event K answer p EPOLLIN s = rbind (UDPReceiver_HandleRead K answer ?s) (\<lambda>t.
      rbind (fire (us_call K answer p) WriteCb EPOLLOUT ?p t) (modify ?p (\<lambda>c. c\<lparr>ch_handling := False\<rparr>)))"
    using c ev by (simp add: us_event_def HandleEvent_def HandleEvent_impl_def fire_def has_cb_def us_call_def rbind_assoc)
  then have "us_event K answer p EPOLLIN s = Inr ?t" unfolding hr using ev(4) by (simp add: fire_def)
  then show ?thesis by (rule that) (simp_all add: us_inv_upd [OF assms c(1)])
qed

text \<open>Channels after \<^verbatim>\<open>DisableAll\<close> and \<^verbatim>\<open>Remove\<close>, and registering them again.\<close>

lemma drop_added:
  fixes s :: udp_server
  assumes "env_ok (senv K)" and "ep_inv s" and "heap s p = Some c" and "ch_status c \<noteq> kNew"
  obtains t where "rbind (DisableAll (senv K) p s) (Channel_Remove (senv K) p) = Inr t" "ep_inv t"
    "heap t = (heap s)(p \<mapsto> c\<lparr>ch_events := kNoneEvent, ch_status := kNew\<rparr>)"
    "channels t = (channels s)[nat (ch_fd c) := None]" "us_socket t = us_socket s" "us_receiver t = us_receiver s" "loop_self t = loop_self s"
    "us_workers t = us_workers s"
proof -
  let ?t = "unregistered p (c\<lparr>ch_events := kNoneEvent, ch_status := kDel\<rparr>) (registered p c kNoneEvent s)"
  have "rbind (DisableAll (senv K) p s) (Channel_Remove (senv K) p) = Inr ?t" "ep_inv ?t"
    using drop_channel_eq [OF assms] by (simp_all add: drop_channel_def)
  then show ?thesis by (rule that) (simp_all add: unregistered_def registered_def)
qed

lemma disable_new:
  fixes s :: udp_server
  assumes "env_ok (senv K)" and "ep_inv s" and "heap s p = Some c" and "ch_status c = kNew" and "channels s ! nat (ch_fd c) = None"
  obtains t where "DisableAll (senv K) p s = Inr t" "ep_inv t" "heap t = (heap s)(p \<mapsto> c\<lparr>ch_events := kNoneEvent, ch_status := kDel\<rparr>)"
    "us_socket t = us_socket s" "us_receiver t = us_receiver s" "loop_self t = loop_self s"
    "length (channels t) = length (channels s)"
proof -
  have up: "updatable p c s" using assms(3,5) by (simp add: updatable_def)
  let ?t = "registered p c kNoneEvent s"
  have "DisableAll (senv K) p s = Inr ?t" using set_events_eq [OF assms(1,2) up, of "\<lambda>_. kNoneEvent"] by (simp add: DisableAll_def)
  moreover have "ep_inv ?t" by (rule ep_inv_registered [OF assms(2) up])
  ultimately show ?thesis by (rule that) (simp_all add: registered_def expected_status_def)
qed

text \<open>\<^verbatim>\<open>OnReceiverError\<close> up to the destruction of the old channel: the new one is set up and not yet registered.\<close>

lemma OnReceiverError_deletes:
  fixes s :: udp_server
  defines "old \<equiv> rx_channel (us_receiver s)"
  assumes "env_ok (senv K)" and "sockopts_ok K" and "ep_inv s" and c: "heap s old = Some c" "ch_status c = kNew" "channels s ! nat (ch_fd c) = None"
      "nat (ch_fd c) < length (channels s)" "ch_fd c = dg_fd (us_socket s)" "0 < ch_fd c" and "heap s p = None"
  obtains t cn where "OnReceiverError K p s = rbind (delete_Channel (senv K) old t) (\<lambda>s.
      let s = s\<lparr>us_receiver := (us_receiver s)\<lparr>rx_pkt_size := 1500\<rparr>\<rparr> in UDPReceiver_Start K (us_receiver s) s)"
    "ep_inv t" "heap t = (heap s)(p \<mapsto> cn, old \<mapsto> c\<lparr>ch_events := kNoneEvent, ch_status := kNew\<rparr>)"
    "rx_channel (us_receiver t) = p" "ch_status cn = kNew" "channels t ! nat (ch_fd cn) = None"
proof -
  obtain s3 where s3: "DisableAll (senv K) old s = Inr s3" "ep_inv s3" "heap s3 = (heap s)(old \<mapsto> c\<lparr>ch_events := kNoneEvent, ch_status := kDel\<rparr>)"
      "us_socket s3 = us_socket s" "us_receiver s3 = us_receiver s" "loop_self s3 = loop_self s" "length (channels s3) = length (channels s)"
    by (rule disable_new [OF assms(2,4) c(1-3)])
  let ?d = "DatagramSocket_Shutdown True False (us_socket s3)"
  let ?s4 = "s3\<lparr>us_socket := ?d\<rparr>"
  let ?c3 = "c\<lparr>ch_events := kNoneEvent, ch_status := kDel\<rparr>"
  let ?cn = "(Channel_ctor (Some (loop_self ?s4)) (dg_fd ?d) '''')\<lparr>ch_has_read := True, ch_has_error := True\<rparr>"
  let ?rx = "\<lparr>rx_channel = p, rx_pkt_size = 1024, rx_has_error_cb = False\<rparr>"
  have d: "dg_fd ?d = ch_fd c" using s3(4) c(5) by (simp add: DatagramSocket_Shutdown_def)
  obtain os where os: "UDPReceiver_ctor K p ?s4 = Inr (?rx, ?s4\<lparr>us_socket := ?d\<lparr>options := os\<rparr>, heap := (heap ?s4)(p \<mapsto> ?cn)\<rparr>)"
    using UDPReceiver_ctor_eq [OF assms(3), of ?s4 p] d c(6) by auto
  let ?s5 = "?s4\<lparr>us_socket := ?d\<lparr>options := os\<rparr>, heap := (heap ?s4)(p \<mapsto> ?cn), us_receiver := ?rx\<rparr>"
  have ne: "p \<noteq> old" using c(1) assms(11) by auto
  have "ep_inv (?s4\<lparr>heap := (heap ?s4)(p \<mapsto> Channel_ctor (Some (loop_self ?s4)) (dg_fd ?d) '''')\<rparr>)"
    by (rule ep_inv_heap_new) (use s3 d c(4,6) assms(11) ne in \<open>simp_all add: ep_inv_ext [OF s3(2)]\<close>)
  from ep_inv_core_upd [OF this, of p _ ?cn] have "ep_inv (?s4\<lparr>heap := (heap ?s4)(p \<mapsto> ?cn)\<rparr>)" by (simp add: core_def)
  then have ep5: "ep_inv ?s5" by (rule ep_inv_ext) simp_all
  have h5: "heap ?s5 old = Some ?c3" "ch_status ?c3 \<noteq> kNew" using s3(3) ne by (simp_all add: status_defs)
  obtain s6 where s6: "rbind (DisableAll (senv K) old ?s5) (Channel_Remove (senv K) old) = Inr s6" "ep_inv s6"
      "heap s6 = (heap ?s5)(old \<mapsto> ?c3\<lparr>ch_events := kNoneEvent, ch_status := kNew\<rparr>)"
      "channels s6 = (channels ?s5)[nat (ch_fd ?c3) := None]" "us_receiver s6 = us_receiver ?s5"
    by (rule drop_added [OF assms(2) ep5 h5])
  have "UDPReceiver_dtor K (us_receiver s) ?s5 = rbind (rbind (DisableAll (senv K) old ?s5) (Channel_Remove (senv K) old)) (delete_Channel (senv K) old)"
    by (simp add: UDPReceiver_dtor_def rbind_assoc old_def)
  then have "UDPReceiver_dtor K (us_receiver s) ?s5 = delete_Channel (senv K) old s6" using s6(1) by simp
  then have "OnReceiverError K p s = rbind (delete_Channel (senv K) old s6) (\<lambda>s.
      let s = s\<lparr>us_receiver := (us_receiver s)\<lparr>rx_pkt_size := 1500\<rparr>\<rparr> in UDPReceiver_Start K (us_receiver s) s)"
    using s3(1,5) os by (simp add: OnReceiverError_def UDPReceiver_Stop_def old_def)
  then show ?thesis
    by (rule that [OF _ s6(2), of ?cn]) (use s6(3-5) s3(3,7) d c(4) ne in \<open>simp_all add: Channel_ctor_def status_defs fun_upd_twist\<close>)
qed

lemma HandleError_split:
  "UDPReceiver_HandleError K p s =
     rbind (rbind (DisableAll (senv K) (rx_channel (us_receiver s)) s) (Channel_Remove (senv K) (rx_channel (us_receiver s)))) (\<lambda>t.
       if rx_has_error_cb (us_receiver t) then OnReceiverError K p t else Inr t)"
  by (simp add: UDPReceiver_HandleError_def rbind_assoc Let_def)

text \<open>Without assertions the old channel is freed and the new receiver registered.\<close>

lemma restart_frees:
  fixes t :: udp_server
  assumes "env_ok (senv K)" and "ndebug (senv K)" and "ep_inv t" and "heap t = h(p \<mapsto> cn, old \<mapsto> c)" and "rx_channel (us_receiver t) = p"
    and "ch_status cn = kNew" and "channels t ! nat (ch_fd cn) = None" and "p \<noteq> old" and "ch_status c = kNew"
  obtains u where "rbind (delete_Channel (senv K) old t) (\<lambda>s.
      let s = s\<lparr>us_receiver := (us_receiver s)\<lparr>rx_pkt_size := 1500\<rparr>\<rparr> in UDPReceiver_Start K (us_receiver s) s) = Inr u" "heap u old = None"
proof -
  let ?t = "t\<lparr>heap := (heap t)(old := None)\<rparr>"
  let ?u = "?t\<lparr>us_receiver := (us_receiver t)\<lparr>rx_pkt_size := 1500\<rparr>\<rparr>"
  have del: "delete_Channel (senv K) old t = Inr ?t" using assms(2,4) by (simp add: delete_Channel_def dassert_def)
  have "ep_inv ?t" by (rule ep_inv_heap_None [OF assms(3), of _ c]) (simp_all add: assms(4,9))
  then have ep: "ep_inv ?u" by (rule ep_inv_ext) simp_all
  have up: "updatable p cn ?u" using assms(4,6-8) by (simp add: updatable_def)
  have "UDPReceiver_Start K (us_receiver ?u) ?u = Inr (registered p cn (ch_events cn OR kReadEvent) ?u)"
    using set_events_eq [OF assms(1) ep up, of "\<lambda>ev. ev OR kReadEvent"] assms(5) by (simp add: UDPReceiver_Start_def EnableReading_def)
  moreover have "heap (registered p cn (ch_events cn OR kReadEvent) ?u) old = None" using assms(8) by (simp add: registered_def)
  ultimately show ?thesis using that del by simp
qed

text \<open>
  An error event of the receiver is fatal to a started server. \<^verbatim>\<open>OnReceiverError\<close> replaces the receiver
  inside the event of the receiver's own channel: the channel is destroyed while it handles the event, against
  the assertion of its destructor; without assertions the event goes on with the freed channel.
\<close>

theorem receiver_error_fatal:
  assumes "env_ok (senv K)" and "sockopts_ok K" and "us_inv s" and "heap s p = None"
  shows "us_event K answer p EPOLLERR s = (if ndebug (senv K) then Inl UseAfterFree else Inl AssertionFailed)"
proof -
  let ?p = "rx_channel (us_receiver s)"
  obtain c where c: "heap s ?p = Some c" "ch_status c = kAdded" "\<not> ch_tied c" "ch_has_error c" "ep_inv s" "ch_fd c = dg_fd (us_socket s)"
      "0 < dg_fd (us_socket s)" "rx_has_error_cb (us_receiver s)"
    using assms(3) by (auto simp: us_inv_def)
  let ?c1 = "c\<lparr>ch_revents := EPOLLERR, ch_handling := True\<rparr>"
  let ?s1 = "s\<lparr>heap := (heap s)(?p \<mapsto> ?c1)\<rparr>"
  let ?restart = "\<lambda>s. let s = s\<lparr>us_receiver := (us_receiver s)\<lparr>rx_pkt_size := 1500\<rparr>\<rparr> in UDPReceiver_Start K (us_receiver s) s"
  have ev: "\<not> has_event EPOLLERR (EPOLLHUP OR EPOLLRDHUP)" "has_event EPOLLERR EPOLLERR" by (simp_all add: has_event_def event_masks)
  have eq: "us_event K answer p EPOLLERR s = rbind (UDPReceiver_HandleError K p ?s1) (modify ?p (\<lambda>c. c\<lparr>ch_handling := False\<rparr>))"
    using c ev by (simp add: us_event_def HandleEvent_def HandleEvent_impl_def fire_def has_cb_def us_call_def)
  have ep1: "ep_inv ?s1" by (rule ep_inv_core_upd [OF c(5,1)]) (simp add: core_def)
  have h1: "heap ?s1 ?p = Some ?c1" "ch_status ?c1 \<noteq> kNew" using c(2) by (simp_all add: status_defs)
  obtain s2 where s2: "rbind (DisableAll (senv K) ?p ?s1) (Channel_Remove (senv K) ?p) = Inr s2" "ep_inv s2"
      "heap s2 = (heap ?s1)(?p \<mapsto> ?c1\<lparr>ch_events := kNoneEvent, ch_status := kNew\<rparr>)"
      "channels s2 = (channels ?s1)[nat (ch_fd ?c1) := None]" "us_socket s2 = us_socket ?s1" "us_receiver s2 = us_receiver ?s1"
    by (rule drop_added [OF assms(1) ep1 h1])
  have len: "nat (ch_fd c) < length (channels s)" using ep_inv_channel [OF c(5,1)] by (simp add: channel_ok_def)
  have ne: "p \<noteq> ?p" using c(1) assms(4) by auto
  let ?c2 = "?c1\<lparr>ch_events := kNoneEvent, ch_status := kNew\<rparr>"
  have h2: "heap s2 (rx_channel (us_receiver s2)) = Some ?c2" "ch_status ?c2 = kNew" "channels s2 ! nat (ch_fd ?c2) = None"
      "nat (ch_fd ?c2) < length (channels s2)" "ch_fd ?c2 = dg_fd (us_socket s2)" "0 < ch_fd ?c2" "heap s2 p = None"
    using s2(3-6) len c(6,7) assms(4) ne by simp_all
  obtain s6 cn where "OnReceiverError K p s2 = rbind (delete_Channel (senv K) (rx_channel (us_receiver s2)) s6) ?restart" "ep_inv s6"
      "heap s6 = (heap s2)(p \<mapsto> cn, rx_channel (us_receiver s2) \<mapsto> ?c2\<lparr>ch_events := kNoneEvent, ch_status := kNew\<rparr>)"
      "rx_channel (us_receiver s6) = p" "ch_status cn = kNew" "channels s6 ! nat (ch_fd cn) = None"
    by (rule OnReceiverError_deletes [OF assms(1,2) s2(2) h2])
  moreover have "rx_channel (us_receiver s2) = ?p" using s2(6) by simp
  ultimately have s6: "OnReceiverError K p s2 = rbind (delete_Channel (senv K) ?p s6) ?restart" "ep_inv s6"
      "heap s6 = (heap s2)(p \<mapsto> cn, ?p \<mapsto> ?c2\<lparr>ch_events := kNoneEvent, ch_status := kNew\<rparr>)"
      "rx_channel (us_receiver s6) = p" "ch_status cn = kNew" "channels s6 ! nat (ch_fd cn) = None"
    by (simp_all only:)
  have he: "UDPReceiver_HandleError K p ?s1 = rbind (delete_Channel (senv K) ?p s6) ?restart"
    using s2(1,6) c(8) s6(1) by (simp add: HandleError_split)
  show ?thesis
  proof (cases "ndebug (senv K)")
    case False
    then have "delete_Channel (senv K) ?p s6 = Inl AssertionFailed" using s6(3) by (simp add: delete_Channel_def dassert_def)
    then show ?thesis unfolding eq he using False by simp
  next
    case True
    obtain t where "rbind (delete_Channel (senv K) ?p s6) ?restart = Inr t" "heap t ?p = None"
      using restart_frees [OF assms(1) True s6(2-6) ne] by auto
    then show ?thesis unfolding eq he using True by (simp add: modify_def deref_def)
  qed
qed

text \<open>
  \<^verbatim>\<open>Stop\<close> works on the loop's thread only: there it takes the receiver out of the poller, stops the
  workers and ends the loop; on any other thread, where it is usually called because \<^verbatim>\<open>Start\<close> does not return,
  the assertion of the loop on its thread fails.
\<close>

theorem UDPServer_Stop_thread:
  assumes "env_ok (senv K)" and "us_inv s"
  shows "succeeds (UDPServer_Stop K joined s) (\<lambda>t. quit t \<and> ep_inv t \<and> dg_shut_rd (us_socket t) \<and>
      us_workers t = joined (Stop_flag (us_workers s)) \<and>
      (\<exists>c. heap t (rx_channel (us_receiver t)) = Some c \<and> ch_events c = kNoneEvent)) \<and>
    (tid \<noteq> loop_tid s \<longrightarrow> \<not> ndebug (senv K) \<longrightarrow> UDPServer_Stop K joined (s\<lparr>current_tid := tid\<rparr>) = Inl AssertionFailed)"
proof -
  let ?p = "rx_channel (us_receiver s)"
  obtain c where c: "heap s ?p = Some c" "ch_status c = kAdded" "ep_inv s" by (rule us_inv_chan [OF assms(2)])
  have up: "updatable ?p c s" using c(1,2) by (simp add: updatable_def status_defs)
  let ?t = "registered ?p c kNoneEvent s"
  have dis: "DisableAll (senv K) ?p s = Inr ?t" using set_events_eq [OF assms(1) c(3) up, of "\<lambda>_. kNoneEvent"] by (simp add: DisableAll_def)
  have ep: "ep_inv ?t" by (rule ep_inv_registered [OF c(3) up])
  let ?u = "?t\<lparr>us_socket := DatagramSocket_Shutdown True False (us_socket s), us_workers := joined (Stop_flag (us_workers s))\<rparr>"
  have th: "IsInLoopThread ?u" using ep by (simp add: ep_inv_def IsInLoopThread_def)
  have stop: "UDPServer_Stop K joined s = Inr (?u\<lparr>quit := True\<rparr>)"
    using dis th by (simp add: UDPServer_Stop_def UDPReceiver_Stop_def Quit_def registered_def Let_def IsInLoopThread_def)
  have "ep_inv (?u\<lparr>quit := True\<rparr>)" by (rule ep_inv_ext [OF ep]) simp_all
  moreover have "UDPServer_Stop K joined (s\<lparr>current_tid := tid\<rparr>) = Inl AssertionFailed" if "tid \<noteq> loop_tid s" "\<not> ndebug (senv K)"
  proof -
    have "ch_loop c = Some (loop_self s)" using ep_inv_channel [OF c(3,1)] by (simp add: channel_ok_def)
    then show ?thesis using that c(1)
      by (simp add: UDPServer_Stop_def UDPReceiver_Stop_def DisableAll_def set_events_def EventLoop_UpdateChannel_def
          AssertInLoopThread_def IsInLoopThread_def dassert_def)
  qed
  moreover have "\<exists>c. heap ?t ?p = Some c \<and> ch_events c = kNoneEvent" by (simp add: registered_def)
  ultimately show ?thesis using stop by (auto simp: registered_def DatagramSocket_Shutdown_def)
qed

section \<open>Witnesses\<close>

definition udp_env :: dgram_env where
  "udp_env = sock_env.extend (linux_sock_env\<lparr>set_ok := \<lambda>_ _ _. True\<rparr>) (dgram_env.fields 7 (\<lambda>a. True) (\<lambda>i n. int n))"

lemma udp_env_ok: "env_ok (senv udp_env)" "sockopts_ok udp_env" "0 < k_dgram udp_env" "bind_ok udp_env (k_dgram udp_env) a" "k_dgram udp_env = 7"
    "senv udp_env = linux_env"
  using linux_env_ok by (simp_all add: udp_env_def sock_env.defs dgram_env.defs linux_sock_env_def sockopts_ok_def)

lemma sample_udp_loop:
  obtains l :: event_loop where "ep_inv l" "heap l 12 = None" "heap l 13 = None" "nat 7 \<notin> used l" "nat 7 < length (channels l)"
    "dom (heap l) = {10, 11}"
proof -
  obtain l :: event_loop where l: "ep_inv l" "dom (heap l) = {10, 11}" "used l = {5, 6}" "length (channels l) = kInitTotalChannelSize"
    using EventLoop_ctor_ok [OF linux_env_ok, of 10 11 5 6 1 7 3 False] by (auto simp: el_inv_def elim!: succeedsE)
  have "12 \<notin> dom (heap l)" "13 \<notin> dom (heap l)" using l(2) by simp_all
  then have "heap l 12 = None" "heap l 13 = None" by (simp_all only: domIff not_not)
  then show ?thesis using that [OF l(1)] l by (simp add: kInitTotalChannelSize_def)
qed

theorem UDPServer_starts_witness:
  "\<exists>l. succeeds (rbind (UDPServer_ctor udp_env (InetAddress_port 9950 True False) 12 False l) (UDPServer_Start udp_env True 2)) us_inv"
proof -
  obtain l :: event_loop where l: "ep_inv l" "heap l 12 = None" "nat 7 \<notin> used l" "nat 7 < length (channels l)"
    by (rule sample_udp_loop)
  have "succeeds (rbind (UDPServer_ctor udp_env (InetAddress_port 9950 True False) 12 False l) (UDPServer_Start udp_env True 2)) us_inv"
    by (rule succeeds_mono [OF UDPServer_starts [OF udp_env_ok(1-4) _ l(1,2)]]) (use l(3,4) udp_env_ok(5) in simp_all)
  then show ?thesis by blast
qed

text \<open>A started server, and an address that is free in its heap.\<close>

lemma sample_udp_server: obtains s where "us_inv s" "heap s 13 = None"
proof -
  obtain l :: event_loop where l: "ep_inv l" "heap l 12 = None" "heap l 13 = None" "nat 7 \<notin> used l" "nat 7 < length (channels l)"
    by (rule sample_udp_loop)
  have "succeeds (rbind (UDPServer_ctor udp_env (InetAddress_port 9950 True False) 12 False l) (UDPServer_Start udp_env True 2))
      (\<lambda>s. us_inv s \<and> heap s 13 = None)"
    by (rule succeeds_mono [OF UDPServer_starts [OF udp_env_ok(1-4) _ l(1,2)]]) (use l(3-5) udp_env_ok(5) in simp_all)
  then show ?thesis using that by (auto elim!: succeedsE)
qed

theorem receiver_error_fatal_witness: "\<exists>s. us_inv s \<and> us_event udp_env (Inl 5) 13 EPOLLERR s = Inl AssertionFailed"
proof -
  obtain s where s: "us_inv s" "heap s 13 = None" by (rule sample_udp_server)
  have "\<not> ndebug (senv udp_env)" by (simp add: udp_env_ok linux_env_def)
  then have "us_event udp_env (Inl 5) 13 EPOLLERR s = Inl AssertionFailed"
    using receiver_error_fatal [OF udp_env_ok(1,2) s] by simp
  then show ?thesis using s(1) by blast
qed

theorem UDPServer_Stop_thread_witness: "\<exists>s. us_inv s \<and> succeeds (UDPServer_Stop udp_env (\<lambda>w. w) s) quit"
proof -
  obtain s where s: "us_inv s" by (rule sample_udp_server)
  have "succeeds (UDPServer_Stop udp_env (\<lambda>w. w) s) quit"
    by (rule succeeds_mono [OF conjunct1 [OF UDPServer_Stop_thread [OF udp_env_ok(1) s]]]) simp
  then show ?thesis using s by blast
qed

end
