(* ===== verification/UDPFlow.thy ===== *)
theory UDPFlow
  imports UDPServer "HOL-Library.Sublist"
begin

text \<open>
  The UDP server as a whole: the receiver, the queue, the workers and the socket together, with the
  callback of the repository's own UDP server program (\<^verbatim>\<open>test/test_udp_server.cc\<close>), which sends every packet back.
\<close>

section \<open>Runs of an echo server\<close>

text \<open>
  A run of a started server whose \<^verbatim>\<open>callback_rcv_pkt_\<close> sends each packet back. The loop's thread handles
  read events of the receiver's channel; a worker makes a step, and calls the callback when the step is the body of its loop;
  \<^verbatim>\<open>Stop\<close>, on the loop's thread, stops the receiver and flags the workers, after which the loop's thread
  only waits for them. The first argument of a run lists the datagrams that the kernel delivered.
\<close>

definition OnRcvPacket :: "dgram_env \<Rightarrow> datagram_packet \<Rightarrow> udp_server \<Rightarrow> udp_server" where
  "OnRcvPacket K pkt s = UDPServer_Send_packet K pkt s"

definition after_worker :: "dgram_env \<Rightarrow> udp_server \<Rightarrow> udp_workers \<Rightarrow> udp_server" where
  "after_worker K s w =
     fold (OnRcvPacket K) (drop (length (wk_handled (us_workers s))) (wk_handled w)) (s\<lparr>us_workers := w\<rparr>)"

inductive echo_run :: "bool \<Rightarrow> dgram_env \<Rightarrow> udp_server \<Rightarrow> (byte list \<times> inet_address) list \<Rightarrow> udp_server \<Rightarrow> bool" for sp K s0 where
  started: "echo_run sp K s0 [] s0"
| datagram: "echo_run sp K s0 ds s \<Longrightarrow> wk_stop (us_workers s) = NotStopping \<Longrightarrow> us_event K (Inr d) p EPOLLIN s = Inr t \<Longrightarrow>
    echo_run sp K s0 (ds @ [d]) t"
| no_datagram: "echo_run sp K s0 ds s \<Longrightarrow> wk_stop (us_workers s) = NotStopping \<Longrightarrow> us_event K (Inl err) p EPOLLIN s = Inr t \<Longrightarrow>
    echo_run sp K s0 ds t"
| worker: "echo_run sp K s0 ds s \<Longrightarrow> worker_step sp (us_workers s) w \<Longrightarrow> wk_pushed w = wk_pushed (us_workers s) \<Longrightarrow>
    (wk_stop w = NotStopping \<longleftrightarrow> wk_stop (us_workers s) = NotStopping) \<Longrightarrow> echo_run sp K s0 ds (after_worker K s w)"
| stop: "echo_run sp K s0 ds s \<Longrightarrow> wk_stop (us_workers s) = NotStopping \<Longrightarrow> UDPReceiver_Stop K (us_receiver s) s = Inr t \<Longrightarrow>
    echo_run sp K s0 ds (t\<lparr>us_workers := Stop_flag (us_workers t)\<rparr>)"

text \<open>What is sent back for a packet, and what should be sent back for the datagrams.\<close>

definition echo_of :: "datagram_packet \<Rightarrow> inet_address \<times> byte list" where
  "echo_of pkt = (pkt_address pkt, payload pkt)"

definition echoes :: "(byte list \<times> inet_address) list \<Rightarrow> (inet_address \<times> byte list) list" where
  "echoes ds = map (\<lambda>(dat, from). (from, take 1500 dat)) (filter (\<lambda>(dat, from). dat \<noteq> []) ds)"

section \<open>Invariant\<close>

text \<open>One worker takes and handles the packets in the order in which they came.\<close>

definition held :: "worker_at \<Rightarrow> datagram_packet list" where
  "held at_pc = (case at_pc of Holds p \<Rightarrow> if effective p = 0 then [] else [p] | _ \<Rightarrow> [])"

lemma held_simps [simp]:
  "held NotStarted = []" "held AtCheck = []" "held AtPop = []" "held AtWait = []" "held AtWoken = []" "held Exited = []"
  "held (Holds p) = (if effective p = 0 then [] else [p])"
  by (simp_all add: held_def)

definition in_order :: "udp_workers \<Rightarrow> bool" where
  "in_order w \<longleftrightarrow> (wk_count w = 1 \<longrightarrow> wk_popped w = wk_handled w @ wk_dropped w @ held (wk_pc w 0) \<and>
     (wk_dropped w \<noteq> [] \<longrightarrow> wk_pc w 0 = Exited))"

lemma in_order_step:
  assumes "worker_step sp w w'" and "wk_inv w" and "in_order w"
  shows "in_order w'"
proof -
  have q: "0 < effective pkt" if "wk_queue w = pkt # rest" for pkt rest using assms(2) that by (auto simp: wk_inv_def)
  show ?thesis using assms(1,3)
    by cases (auto simp: in_order_def Worker_check_def Worker_pop_def Worker_woken_def Worker_process_def Pop_enter_def Pop_woken_def
        Push_store_def Stop_flag_def DatagramPacket_ctor_def dest: q split: list.splits)
qed

definition flow_inv :: "(byte list \<times> inet_address) list \<Rightarrow> udp_server \<Rightarrow> bool" where
  "flow_inv ds s \<longleftrightarrow> wk_inv (us_workers s) \<and> in_order (us_workers s) \<and> map echo_of (wk_pushed (us_workers s)) = echoes ds \<and>
     dg_sent (us_socket s) = map echo_of (wk_handled (us_workers s)) \<and> \<not> dg_connected (us_socket s) \<and>
     (wk_stop (us_workers s) = NotStopping \<longrightarrow> us_inv s \<and> wk_running (us_workers s))"

lemma echoes_snoc: "echoes (ds @ [(dat, from)]) = echoes ds @ (if dat = [] then [] else [(from, take 1500 dat)])"
  by (simp add: echoes_def)

lemma us_inv_cong:
  assumes "us_inv s" and "dg_fd d = dg_fd (us_socket s)"
  shows "us_inv (s\<lparr>us_workers := w, us_socket := d\<rparr>)"
proof -
  have "ep_inv (s\<lparr>us_workers := w, us_socket := d\<rparr>)" by (rule ep_inv_ext [of s]) (use assms(1) in \<open>simp_all add: us_inv_def\<close>)
  then show ?thesis using assms by (simp add: us_inv_def)
qed

lemma Push_store_fields [simp]:
  "wk_pushed (Push_store pkt w) = wk_pushed w @ [pkt]" "wk_handled (Push_store pkt w) = wk_handled w" "wk_stop (Push_store pkt w) = wk_stop w"
  "wk_running (Push_store pkt w) = wk_running w"
  by (simp_all add: Push_store_def)

lemma delivered_inv:
  assumes "wk_inv w" and "in_order w"
  shows "wk_inv (delivered answer w) \<and> in_order (delivered answer w)"
proof -
  have "wk_inv (Push_store pkt w) \<and> in_order (Push_store pkt w)" if "0 < effective pkt" for pkt
    using worker_step.store [OF that, where sp = True] worker_step_inv in_order_step assms by blast
  then show ?thesis using assms by (auto simp: delivered_def received_packet_payload split: sum.splits)
qed

lemma delivered_fields [simp]:
  "wk_handled (delivered answer w) = wk_handled w" "wk_stop (delivered answer w) = wk_stop w" "wk_running (delivered answer w) = wk_running w"
  by (auto simp: delivered_def split: sum.splits)

lemma delivered_pushed:
  "map echo_of (wk_pushed (delivered (Inr (dat, from)) w)) =
     map echo_of (wk_pushed w) @ (if dat = [] then [] else [(from, take 1500 dat)])"
  by (simp add: delivered_def echo_of_def received_packet_payload)

lemma flow_inv_event:
  assumes "flow_inv ds s" and "wk_stop (us_workers s) = NotStopping" and "us_event K answer p EPOLLIN s = Inr t"
  shows "flow_inv (case answer of Inl err \<Rightarrow> ds | Inr d \<Rightarrow> ds @ [d]) t"
proof -
  have "us_inv s" using assms(1,2) by (simp add: flow_inv_def)
  then obtain t' where "us_event K answer p EPOLLIN s = Inr t'" "us_inv t'" "us_workers t' = delivered answer (us_workers s)"
      "us_socket t' = us_socket s"
    by (rule us_read_event)
  then have t: "us_inv t" "us_workers t = delivered answer (us_workers s)" "us_socket t = us_socket s" using assms(3) by simp_all
  then show ?thesis using assms(1,2) delivered_inv [of "us_workers s" answer]
    by (cases answer) (auto simp: flow_inv_def echoes_snoc delivered_pushed)
qed

text \<open>A worker step handles at most one packet; its echo goes out through the socket.\<close>

lemma worker_step_handled: "worker_step sp w w' \<Longrightarrow> wk_handled w' = wk_handled w \<or> (\<exists>pkt. wk_handled w' = wk_handled w @ [pkt])"
  by (induction rule: worker_step.induct) (simp_all add: Worker_check_def Worker_pop_def Worker_woken_def Worker_process_def Stop_flag_def
      case_prod_beta split: option.split)

lemma worker_step_running: "worker_step sp w w' \<Longrightarrow> wk_stop w' = NotStopping \<Longrightarrow> wk_running w \<Longrightarrow> wk_running w'"
  by (induction rule: worker_step.induct) (simp_all add: Worker_check_def Worker_pop_def Worker_woken_def Worker_process_def Stop_flag_def
      case_prod_beta split: option.split)

lemma OnRcvPacket_echoes:
  assumes "\<forall>i n. 0 \<le> k_sendto K i n" and "\<not> dg_connected (us_socket s)"
  obtains d where "OnRcvPacket K pkt s = s\<lparr>us_socket := d\<rparr>" "dg_sent d = dg_sent (us_socket s) @ [echo_of pkt]"
    "\<not> dg_connected d" "dg_fd d = dg_fd (us_socket s)"
proof (rule that)
  let ?d = "snd (DatagramSocket_Send_packet K pkt (us_socket s))"
  show "OnRcvPacket K pkt s = s\<lparr>us_socket := ?d\<rparr>" by (simp add: OnRcvPacket_def UDPServer_Send_packet_def)
  show "dg_sent ?d = dg_sent (us_socket s) @ [echo_of pkt]" "\<not> dg_connected ?d" "dg_fd ?d = dg_fd (us_socket s)"
    using assms by (simp_all add: DatagramSocket_Send_packet_def sys_sendto_def echo_of_def payload_def Let_def)
qed

lemma after_worker_eq:
  assumes "worker_step sp (us_workers s) w" and "\<forall>i n. 0 \<le> k_sendto K i n" and "\<not> dg_connected (us_socket s)"
  obtains d hs where "after_worker K s w = s\<lparr>us_workers := w, us_socket := d\<rparr>" "wk_handled w = wk_handled (us_workers s) @ hs"
    "dg_sent d = dg_sent (us_socket s) @ map echo_of hs" "\<not> dg_connected d" "dg_fd d = dg_fd (us_socket s)"
proof (cases "wk_handled w = wk_handled (us_workers s)")
  case True
  then show ?thesis using that [of "us_socket s" "[]"] assms(3) by (simp add: after_worker_def)
next
  case False
  then obtain pkt where 2: "wk_handled w = wk_handled (us_workers s) @ [pkt]" using worker_step_handled [OF assms(1)] by blast
  obtain d where d: "OnRcvPacket K pkt (s\<lparr>us_workers := w\<rparr>) = s\<lparr>us_workers := w, us_socket := d\<rparr>"
      "dg_sent d = dg_sent (us_socket s) @ [echo_of pkt]" "\<not> dg_connected d" "dg_fd d = dg_fd (us_socket s)"
    by (rule OnRcvPacket_echoes [OF assms(2), of "s\<lparr>us_workers := w\<rparr>" pkt]) (use assms(3) in simp_all)
  then show ?thesis using that [of d "[pkt]"] 2 by (simp add: after_worker_def)
qed

lemma flow_inv_worker:
  assumes "flow_inv ds s" and "worker_step sp (us_workers s) w" and "wk_pushed w = wk_pushed (us_workers s)"
    and "wk_stop w = NotStopping \<longleftrightarrow> wk_stop (us_workers s) = NotStopping" and "\<forall>i n. 0 \<le> k_sendto K i n"
  shows "flow_inv ds (after_worker K s w)"
proof -
  have "\<not> dg_connected (us_socket s)" using assms(1) by (simp add: flow_inv_def)
  then obtain d hs where d: "after_worker K s w = s\<lparr>us_workers := w, us_socket := d\<rparr>" "wk_handled w = wk_handled (us_workers s) @ hs"
      "dg_sent d = dg_sent (us_socket s) @ map echo_of hs" "\<not> dg_connected d" "dg_fd d = dg_fd (us_socket s)"
    by (rule after_worker_eq [OF assms(2,5)])
  have "wk_inv w \<and> in_order w" using worker_step_inv [OF assms(2)] in_order_step [OF assms(2)] assms(1) by (simp add: flow_inv_def)
  moreover have "us_inv (s\<lparr>us_workers := w, us_socket := d\<rparr>) \<and> wk_running w" if "wk_stop w = NotStopping"
    using that assms(1,4) us_inv_cong [OF _ d(5)] worker_step_running [OF assms(2)] by (simp add: flow_inv_def)
  ultimately show ?thesis using assms(1,3) d by (simp add: flow_inv_def)
qed

lemma flow_inv_stop:
  assumes "env_ok (senv K)" and "flow_inv ds s" and "wk_stop (us_workers s) = NotStopping" and "UDPReceiver_Stop K (us_receiver s) s = Inr t"
  shows "flow_inv ds (t\<lparr>us_workers := Stop_flag (us_workers t)\<rparr>)"
proof -
  let ?p = "rx_channel (us_receiver s)"
  have inv: "us_inv s" "wk_running (us_workers s)" using assms(2,3) by (simp_all add: flow_inv_def)
  obtain c where c: "heap s ?p = Some c" "ch_status c = kAdded" "ep_inv s" by (rule us_inv_chan [OF inv(1)])
  have up: "updatable ?p c s" using c(1,2) by (simp add: updatable_def status_defs)
  have "DisableAll (senv K) ?p s = Inr (registered ?p c kNoneEvent s)"
    using set_events_eq [OF assms(1) c(3) up, of "\<lambda>_. kNoneEvent"] by (simp add: DisableAll_def)
  then have t: "us_workers t = us_workers s" "us_socket t = DatagramSocket_Shutdown True False (us_socket s)"
    using assms(4) by (auto simp: UDPReceiver_Stop_def registered_def)
  have "wk_inv (Stop_flag (us_workers s)) \<and> in_order (Stop_flag (us_workers s))"
    using worker_step.stop [OF assms(3), where sp = True] worker_step_inv in_order_step assms(2) unfolding flow_inv_def by blast
  moreover have "wk_handled (Stop_flag w) = wk_handled w" "wk_pushed (Stop_flag w) = wk_pushed w" for w by (simp_all add: Stop_flag_def)
  moreover have "wk_stop (Stop_flag (us_workers s)) \<noteq> NotStopping" using inv(2) by (simp add: Stop_flag_def)
  ultimately show ?thesis using t assms(2) by (simp add: flow_inv_def DatagramSocket_Shutdown_def)
qed

lemma echo_run_inv:
  assumes "echo_run sp K s0 ds s" and "env_ok (senv K)" and "\<forall>i n. 0 \<le> k_sendto K i n" and "flow_inv [] s0"
  shows "flow_inv ds s"
  using assms(1)
proof induction
  case started
  then show ?case by (rule assms(4))
next
  case (datagram ds s d p t)
  then show ?case using flow_inv_event [of ds s K "Inr d" p t] by simp
next
  case (no_datagram ds s err p t)
  then show ?case using flow_inv_event [of ds s K "Inl err" p t] by simp
next
  case (worker ds s w)
  then show ?case using flow_inv_worker assms(3) by blast
next
  case (stop ds s t)
  then show ?case using flow_inv_stop assms(2) by blast
qed

section \<open>Properties\<close>

lemma flow_inv_started:
  assumes "us_inv s" and "us_workers s = started_workers n" and "dg_sent (us_socket s) = []" and "\<not> dg_connected (us_socket s)"
  shows "flow_inv [] s"
  using assms started_workers_inv [of n] by (simp add: flow_inv_def in_order_def echoes_def started_workers_def UDPWorkder_ctor_def)

lemma flow_inv_conserved:
  assumes "flow_inv ds s"
  defines "w \<equiv> us_workers s"
  shows "mset (echoes ds) = mset (dg_sent (us_socket s)) + image_mset echo_of (mset (wk_queue w) + in_hands w + mset (wk_dropped w))"
    and "wk_count w = 1 \<Longrightarrow> prefix (dg_sent (us_socket s)) (echoes ds)"
proof -
  have ps: "wk_pushed w = wk_popped w @ wk_queue w" "mset (wk_popped w) = mset (wk_handled w) + mset (wk_dropped w) + in_hands w"
    using assms(1) by (simp_all add: flow_inv_def wk_inv_def w_def)
  have es: "echoes ds = map echo_of (wk_pushed w)" "dg_sent (us_socket s) = map echo_of (wk_handled w)" and io: "in_order w"
    using assms(1) by (simp_all add: flow_inv_def w_def)
  have "mset (echoes ds) = image_mset echo_of (mset (wk_popped w) + mset (wk_queue w))" using ps(1) es(1) by simp
  then show "mset (echoes ds) = mset (dg_sent (us_socket s)) + image_mset echo_of (mset (wk_queue w) + in_hands w + mset (wk_dropped w))"
    unfolding ps(2) es(2) by (simp add: ac_simps)
  show "prefix (dg_sent (us_socket s)) (echoes ds)" if "wk_count w = 1"
    using that io ps(1) es by (simp add: in_order_def)
qed


section \<open>Witness\<close>

text \<open>One worker: a datagram arrives, the worker takes it and calls the callback, which sends it back.\<close>

lemma echo_run_silent:
  assumes "echo_run sp K s0 ds s" and "worker_step sp (us_workers s) w" and "wk_pushed w = wk_pushed (us_workers s)"
    and "wk_stop w = NotStopping \<longleftrightarrow> wk_stop (us_workers s) = NotStopping" and "wk_handled w = wk_handled (us_workers s)"
  shows "echo_run sp K s0 ds (s\<lparr>us_workers := w\<rparr>)"
  using echo_run.worker [OF assms(1-4)] assms(5) by (simp add: after_worker_def)

lemma one_worker_echoes:
  assumes "us_inv s0" and "us_workers s0 = started_workers 1" and "dat \<noteq> []"
  obtains s where "echo_run sp K s0 [(dat, from)] s" "wk_queue (us_workers s) = []" "in_hands (us_workers s) = {#}"
    "wk_dropped (us_workers s) = []"
proof -
  obtain s1 where s1: "us_event K (Inr (dat, from)) 13 EPOLLIN s0 = Inr s1" "us_workers s1 = delivered (Inr (dat, from)) (us_workers s0)"
    by (rule us_read_event [OF assms(1)])
  let ?pkt = "received_packet 1500 dat from"
  let ?w0 = "Push_store ?pkt (started_workers 1)"
  let ?w1 = "Worker_check 0 ?w0"
  let ?w2 = "Worker_pop 0 ?w1"
  let ?w3 = "Worker_process 0 ?pkt ?w2"
  note defs = started_workers_def UDPWorkder_ctor_def Worker_check_def Worker_pop_def Pop_enter_def Worker_process_def Push_store_def Push_def at_def
  have e: "0 < effective ?pkt" using assms(3) by (simp add: received_packet_payload)
  have w0: "us_workers s1 = ?w0" using s1(2) assms(2,3) by simp
  have st: "wk_stop (us_workers s0) = NotStopping" using assms(2) by (simp add: defs)
  have r0: "echo_run sp K s0 [(dat, from)] s1" using echo_run.datagram [OF echo_run.started st s1(1)] by simp
  have "worker_step sp ?w0 ?w1" by (rule worker_step.check) (simp_all add: defs)
  then have r1: "echo_run sp K s0 [(dat, from)] (s1\<lparr>us_workers := ?w1\<rparr>)"
    by (intro echo_run_silent [OF r0]) (use w0 in \<open>simp_all add: defs\<close>)
  have "worker_step sp ?w1 ?w2" by (rule worker_step.pop) (simp_all add: defs)
  then have "echo_run sp K s0 [(dat, from)] (s1\<lparr>us_workers := ?w1, us_workers := ?w2\<rparr>)"
    by (intro echo_run_silent [OF r1]) (simp_all add: defs)
  then have r2: "echo_run sp K s0 [(dat, from)] (s1\<lparr>us_workers := ?w2\<rparr>)" by simp
  have "worker_step sp ?w2 ?w3" by (rule worker_step.process) (simp_all add: defs)
  then have r3: "echo_run sp K s0 [(dat, from)] (after_worker K (s1\<lparr>us_workers := ?w2\<rparr>) ?w3)"
    by (intro echo_run.worker [OF r2]) (use e in \<open>simp_all add: defs\<close>)
  have "us_workers (fold (OnRcvPacket K) ps t) = us_workers t" for ps t
    by (induction ps arbitrary: t) (simp_all add: OnRcvPacket_def UDPServer_Send_packet_def)
  then have w3: "us_workers (after_worker K (s1\<lparr>us_workers := ?w2\<rparr>) ?w3) = ?w3" by (simp add: after_worker_def)
  have "wk_queue ?w3 = []" "in_hands ?w3 = {#}" "wk_dropped ?w3 = []" using e by (simp_all add: defs in_hands_def)
  then show ?thesis using that [OF r3] unfolding w3 by blast
qed


end
