(* ===== verification/Any.thy ===== *)
theory Any
  imports Prelude
begin

text \<open>
  \<^verbatim>\<open>base::any\<close> (\<^verbatim>\<open>thirdpart/base/include/any.h\<close>), the value that a connection carries for its user. An \<^verbatim>\<open>any\<close> is a pointer to
  a holder on the heap, which it owns; a holder has the dynamic type of its value and the value. \<open>p\<close> is
  the address that \<^verbatim>\<open>new\<close> returns. The reference is a plain value, or none.
\<close>

section \<open>Objects\<close>

type_synonym type_info = string

definition typeid_void :: type_info where "typeid_void = ''void''"

record 'v holder =
  holder_type :: type_info
  held :: 'v

type_synonym 'v any_heap = "addr \<Rightarrow> 'v holder option"

text \<open>\<^verbatim>\<open>content\<close>.\<close>

type_synonym any = "addr option"

definition any_ctor :: any where "any_ctor = None"

definition any_value_ctor :: "addr \<Rightarrow> type_info \<Rightarrow> 'v \<Rightarrow> 'v any_heap \<Rightarrow> any \<times> 'v any_heap" where
  "any_value_ctor p t v h = (Some p, h(p \<mapsto> \<lparr>holder_type = t, held = v\<rparr>))"

definition holder_at :: "addr \<Rightarrow> 'v any_heap \<Rightarrow> 'v holder outcome" where
  "holder_at q h = (case h q of None \<Rightarrow> Inl UseAfterFree | Some x \<Rightarrow> Inr x)"

definition clone :: "addr \<Rightarrow> addr \<Rightarrow> 'v any_heap \<Rightarrow> (addr \<times> 'v any_heap) outcome" where
  "clone p q h = rbind (holder_at q h) (\<lambda>x. Inr (p, h(p \<mapsto> \<lparr>holder_type = holder_type x, held = held x\<rparr>)))"

definition any_copy_ctor :: "addr \<Rightarrow> any \<Rightarrow> 'v any_heap \<Rightarrow> (any \<times> 'v any_heap) outcome" where
  "any_copy_ctor p other h =
     (case other of
        None \<Rightarrow> Inr (None, h)
      | Some q \<Rightarrow> rbind (clone p q h) (\<lambda>(r, h1). Inr (Some r, h1)))"

definition any_dtor :: "any \<Rightarrow> 'v any_heap \<Rightarrow> 'v any_heap outcome" where
  "any_dtor c h =
     (case c of
        None \<Rightarrow> Inr h
      | Some q \<Rightarrow> rbind (holder_at q h) (\<lambda>_. Inr (h(q := None))))"

definition any_swap :: "any \<times> any \<Rightarrow> any \<times> any" where
  "any_swap = (\<lambda>(lhs, rhs). (rhs, lhs))"

text \<open>Both assignments build a temporary, swap it with the object and destroy it.\<close>

definition any_assign_value :: "addr \<Rightarrow> type_info \<Rightarrow> 'v \<Rightarrow> any \<Rightarrow> 'v any_heap \<Rightarrow> (any \<times> 'v any_heap) outcome" where
  "any_assign_value p t v self h =
     (case any_value_ctor p t v h of (tmp, h1) \<Rightarrow>
      case any_swap (tmp, self) of (tmp1, self1) \<Rightarrow>
        rbind (any_dtor tmp1 h1) (\<lambda>h2. Inr (self1, h2)))"

definition any_assign :: "addr \<Rightarrow> any \<Rightarrow> any \<Rightarrow> 'v any_heap \<Rightarrow> (any \<times> 'v any_heap) outcome" where
  "any_assign p rhs self h =
     rbind (any_copy_ctor p rhs h) (\<lambda>(tmp, h1).
     case any_swap (tmp, self) of (tmp1, self1) \<Rightarrow>
       rbind (any_dtor tmp1 h1) (\<lambda>h2. Inr (self1, h2)))"

definition any_empty :: "any \<Rightarrow> bool" where "any_empty c \<longleftrightarrow> c = None"

definition any_type :: "any \<Rightarrow> 'v any_heap \<Rightarrow> type_info outcome" where
  "any_type c h = (case c of None \<Rightarrow> Inr typeid_void | Some q \<Rightarrow> rbind (holder_at q h) (\<lambda>x. Inr (holder_type x)))"

text \<open>\<open>t\<close> is the type argument of \<^verbatim>\<open>any_cast\<close>. The pointer to the value is the holder's address; a null operand gives null.\<close>

definition any_cast_ptr :: "type_info \<Rightarrow> any option \<Rightarrow> 'v any_heap \<Rightarrow> addr option outcome" where
  "any_cast_ptr t operand h =
     (case operand of
        None \<Rightarrow> Inr None
      | Some c \<Rightarrow> rbind (any_type c h) (\<lambda>ty. if ty = t then
          (case c of None \<Rightarrow> Inl NullDereference | Some q \<Rightarrow> Inr (Some q)) else Inr None))"

datatype 'v thrown = BadAnyCast | Returned 'v

definition any_cast :: "type_info \<Rightarrow> any \<Rightarrow> 'v any_heap \<Rightarrow> 'v thrown outcome" where
  "any_cast t operand h =
     rbind (any_cast_ptr t (Some operand) h) (\<lambda>result.
       case result of
         None \<Rightarrow> Inr BadAnyCast
       | Some q \<Rightarrow> rbind (holder_at q h) (\<lambda>x. Inr (Returned (held x))))"

section \<open>Programs with several objects\<close>

text \<open>The objects of a program, their values, and the statements on them by index.\<close>

datatype 'v any_op = SetValue nat type_info 'v | CopyFrom nat nat | Swap nat nat | Clear nat

record 'v any_state =
  anys :: "any list"
  holders :: "'v any_heap"

definition store :: "nat \<Rightarrow> any \<times> 'v any_heap \<Rightarrow> 'v any_state \<Rightarrow> 'v any_state" where
  "store i r s = s\<lparr>anys := (anys s)[i := fst r], holders := snd r\<rparr>"

fun any_exec :: "('v any_heap \<Rightarrow> addr) \<Rightarrow> 'v any_op \<Rightarrow> 'v any_state \<Rightarrow> 'v any_state outcome" where
  "any_exec alloc (SetValue i t v) s =
     rbind (any_assign_value (alloc (holders s)) t v (anys s ! i) (holders s)) (\<lambda>r. Inr (store i r s))"
| "any_exec alloc (CopyFrom i j) s =
     rbind (any_assign (alloc (holders s)) (anys s ! j) (anys s ! i) (holders s)) (\<lambda>r. Inr (store i r s))"
| "any_exec alloc (Swap i j) s =
     (case any_swap (anys s ! i, anys s ! j) of (a, b) \<Rightarrow> Inr (s\<lparr>anys := (anys s)[i := a, j := b]\<rparr>))"
| "any_exec alloc (Clear i) s =
     rbind (any_assign (alloc (holders s)) any_ctor (anys s ! i) (holders s)) (\<lambda>r. Inr (store i r s))"

fun any_run :: "('v any_heap \<Rightarrow> addr) \<Rightarrow> 'v any_op list \<Rightarrow> 'v any_state \<Rightarrow> 'v any_state outcome" where
  "any_run alloc [] s = Inr s"
| "any_run alloc (x # xs) s = rbind (any_exec alloc x s) (any_run alloc xs)"

fun value_exec :: "'v any_op \<Rightarrow> (type_info \<times> 'v) option list \<Rightarrow> (type_info \<times> 'v) option list" where
  "value_exec (SetValue i t v) vs = vs[i := Some (t, v)]"
| "value_exec (CopyFrom i j) vs = vs[i := vs ! j]"
| "value_exec (Swap i j) vs = vs[i := vs ! j, j := vs ! i]"
| "value_exec (Clear i) vs = vs[i := None]"

fun op_ok :: "nat \<Rightarrow> 'v any_op \<Rightarrow> bool" where
  "op_ok n (SetValue i t v) = (i < n)"
| "op_ok n (CopyFrom i j) = (i < n \<and> j < n)"
| "op_ok n (Swap i j) = (i < n \<and> j < n)"
| "op_ok n (Clear i) = (i < n)"

definition any_value :: "'v any_heap \<Rightarrow> any \<Rightarrow> (type_info \<times> 'v) option" where
  "any_value h c = (case c of None \<Rightarrow> None | Some q \<Rightarrow> map_option (\<lambda>x. (holder_type x, held x)) (h q))"

definition any_values :: "'v any_state \<Rightarrow> (type_info \<times> 'v) option list" where
  "any_values s = map (any_value (holders s)) (anys s)"

text \<open>Each holder has exactly one owner.\<close>

definition owned :: "any list \<Rightarrow> addr set" where
  "owned cs = {q. Some q \<in> set cs}"

definition any_inv :: "'v any_state \<Rightarrow> bool" where
  "any_inv s \<longleftrightarrow> dom (holders s) = owned (anys s) \<and>
     (\<forall>i j q. i < length (anys s) \<and> j < length (anys s) \<and> anys s ! i = Some q \<and> anys s ! j = Some q \<longrightarrow> i = j)"

definition any_init :: "nat \<Rightarrow> 'v any_state" where
  "any_init n = \<lparr>anys = replicate n any_ctor, holders = Map.empty\<rparr>"

section \<open>One owner per holder\<close>

lemma any_inv_finite: "any_inv s \<Longrightarrow> finite (dom (holders s))"
proof -
  assume "any_inv s"
  moreover have "owned (anys s) \<subseteq> the ` set (anys s)" by (force simp: owned_def)
  ultimately show ?thesis by (metis any_inv_def finite_imageI finite_set finite_subset)
qed

lemma any_inv_live:
  assumes "any_inv s" and "i < length (anys s)" and "anys s ! i = Some q"
  obtains x where "holders s q = Some x"
proof -
  have "q \<in> owned (anys s)" using assms(2,3) nth_mem [OF assms(2)] by (simp add: owned_def)
  then have "q \<in> dom (holders s)" using assms(1) by (simp add: any_inv_def)
  then show ?thesis using that by blast
qed

lemma any_inv_other:
  assumes "any_inv s" and "i < length (anys s)" and "j < length (anys s)" and "i \<noteq> j" and "anys s ! j = Some q"
  shows "anys s ! i \<noteq> Some q"
  using assms by (auto simp: any_inv_def)

lemma any_init_inv: "any_inv (any_init n)"
  by (auto simp: any_inv_def any_init_def any_ctor_def owned_def)

text \<open>
  The step that both assignments share: the object at \<open>i\<close> gets the content \<open>c\<close>, which is empty or a new holder,
  and its old content is destroyed.
\<close>

lemma replace_ok:
  assumes inv: "any_inv s" and i: "i < length (anys s)"
    and new: "c = None \<and> h1 = holders s \<or> (\<exists>p x. c = Some p \<and> holders s p = None \<and> h1 = (holders s)(p \<mapsto> x))"
  shows "succeeds (any_dtor (anys s ! i) h1) (\<lambda>h2. any_inv (store i (c, h2) s) \<and>
    any_values (store i (c, h2) s) = (any_values s)[i := any_value h1 c])"
proof -
  let ?h = "case anys s ! i of None \<Rightarrow> h1 | Some q \<Rightarrow> h1(q := None)"
  have old: "q \<noteq> p" if t: "anys s ! j = Some q" "j < length (anys s)" "c = Some p" for j p q
  proof -
    obtain x where "holders s q = Some x" by (rule any_inv_live [OF inv t(2,1)])
    then show ?thesis using new t(3) by auto
  qed
  have "any_dtor (anys s ! i) h1 = Inr ?h"
  proof (cases "anys s ! i")
    case (Some q)
    obtain x where "holders s q = Some x" by (rule any_inv_live [OF inv i Some])
    then show ?thesis using Some new by (auto simp: any_dtor_def holder_at_def)
  qed (simp add: any_dtor_def)
  moreover have "any_value ?h (anys s ! j) = any_value (holders s) (anys s ! j)" if j: "j < length (anys s)" "j \<noteq> i" for j
  proof (cases "anys s ! j")
    case (Some q)
    have "anys s ! i \<noteq> Some q" using any_inv_other [OF inv i j(1) _ Some] j(2) by simp
    moreover have "h1 q = holders s q" using new old [OF Some j(1)] by auto
    ultimately show ?thesis using Some by (simp add: any_value_def split: option.split)
  qed (simp add: any_value_def)
  moreover have "any_value ?h c = any_value h1 c"
  proof (cases c)
    case (Some p)
    then show ?thesis using old [OF _ i Some] by (auto simp: any_value_def split: option.split)
  qed (simp add: any_value_def)
  moreover have "dom ?h = owned ((anys s)[i := c])"
  proof -
    have "owned ((anys s)[i := c]) = (owned (anys s) - {q. anys s ! i = Some q}) \<union> {p. c = Some p}"
      using inv i unfolding owned_def any_inv_def set_conv_nth by (auto simp: nth_list_update split: if_splits) (metis nth_list_update_eq nth_list_update_neq length_list_update)+
    moreover have "dom ?h = (dom (holders s) - {q. anys s ! i = Some q}) \<union> {p. c = Some p}"
    proof (cases "anys s ! i")
      case None
      then show ?thesis using new by auto
    next
      case (Some q)
      then show ?thesis using new old [OF Some i] by (auto split: if_splits)
    qed
    ultimately show ?thesis using inv by (simp add: any_inv_def)
  qed
  moreover have "x = y" if "x < length (anys s)" "y < length (anys s)" "(anys s)[i := c] ! x = Some q" "(anys s)[i := c] ! y = Some q" for x y q
    using that inv old [of x q] old [of y q] i by (auto simp: nth_list_update any_inv_def split: if_splits)
  ultimately show ?thesis
    using i by (auto simp: any_inv_def store_def any_values_def nth_list_update intro!: nth_equalityI)
qed

lemmas replace_none = replace_ok [OF _ _ disjI1 [OF conjI [OF refl refl]]]

lemma replace_new:
  assumes "any_inv s" and "i < length (anys s)" and "holders s p = None"
  shows "succeeds (any_dtor (anys s ! i) ((holders s)(p \<mapsto> x))) (\<lambda>h2. any_inv (store i (Some p, h2) s) \<and>
    any_values (store i (Some p, h2) s) = (any_values s)[i := Some (holder_type x, held x)])"
  using replace_ok [OF assms(1,2), of "Some p" "(holders s)(p \<mapsto> x)"] assms(3) by (auto simp: any_value_def)

lemma store_length [simp]: "length (anys (store i r s)) = length (anys s)"
  by (simp add: store_def)

lemma any_exec_ok:
  assumes "any_inv s" and "op_ok (length (anys s)) x" and "alloc_fresh alloc"
  shows "succeeds (any_exec alloc x s) (\<lambda>t. any_inv t \<and> length (anys t) = length (anys s) \<and> any_values t = value_exec x (any_values s))"
proof -
  have p: "holders s (alloc (holders s)) = None" using assms(3) any_inv_finite [OF assms(1)] by (simp add: alloc_fresh_def)
  show ?thesis
  proof (cases x)
    case (SetValue i t v)
    then show ?thesis using assms(2) replace_new [OF assms(1) _ p, of i "\<lparr>holder_type = t, held = v\<rparr>"]
      by (simp add: any_assign_value_def any_value_ctor_def any_swap_def)
  next
    case (CopyFrom i j)
    then have ij: "i < length (anys s)" "j < length (anys s)" using assms(2) by simp_all
    show ?thesis
    proof (cases "anys s ! j")
      case None
      then show ?thesis using CopyFrom ij replace_none [OF assms(1) ij(1)]
        by (simp add: any_assign_def any_copy_ctor_def any_swap_def any_values_def any_value_def)
    next
      case (Some q)
      obtain y where y: "holders s q = Some y" by (rule any_inv_live [OF assms(1) ij(2) Some])
      have "any_values s ! j = Some (holder_type y, held y)" using ij Some y by (simp add: any_values_def any_value_def)
      then show ?thesis using CopyFrom Some y replace_new [OF assms(1) ij(1) p, of "\<lparr>holder_type = holder_type y, held = held y\<rparr>"]
        by (simp add: any_assign_def any_copy_ctor_def clone_def holder_at_def any_swap_def)
    qed
  next
    case (Swap i j)
    then have ij: "i < length (anys s)" "j < length (anys s)" using assms(2) by simp_all
    have "set ((anys s)[i := anys s ! j, j := anys s ! i]) = set (anys s)" using ij by simp
    then have "owned ((anys s)[i := anys s ! j, j := anys s ! i]) = owned (anys s)" by (simp add: owned_def)
    then show ?thesis using assms(1) ij Swap
      by (auto simp: any_inv_def any_swap_def any_values_def nth_list_update map_update split: if_splits)
  next
    case (Clear i)
    then show ?thesis using assms(2) replace_none [OF assms(1), of i]
      by (simp add: any_assign_def any_copy_ctor_def any_swap_def any_ctor_def any_value_def)
  qed
qed

section \<open>What the operations mean\<close>

lemma any_run_ok:
  assumes "any_inv s" and "\<forall>x \<in> set ops. op_ok (length (anys s)) x" and "alloc_fresh alloc"
  shows "succeeds (any_run alloc ops s) (\<lambda>t. any_inv t \<and> length (anys t) = length (anys s) \<and>
    any_values t = fold value_exec ops (any_values s))"
  using assms(1,2)
proof (induction ops arbitrary: s)
  case (Cons x xs)
  show ?case unfolding any_run.simps succeeds_rbind
  proof (rule succeeds_mono [OF any_exec_ok [OF Cons.prems(1) _ assms(3)]], use Cons.prems(2) in simp)
    fix t assume t: "any_inv t \<and> length (anys t) = length (anys s) \<and> any_values t = value_exec x (any_values s)"
    show "succeeds (any_run alloc xs t) (\<lambda>t. any_inv t \<and> length (anys t) = length (anys s) \<and>
        any_values t = fold value_exec (x # xs) (any_values s))"
      using Cons.IH [of t] Cons.prems(2) t by simp
  qed
qed simp

lemma any_inv_card:
  assumes "any_inv s"
  shows "card (dom (holders s)) = length (filter (\<lambda>v. v \<noteq> None) (any_values s))"
proof -
  let ?I = "{i. i < length (anys s) \<and> anys s ! i \<noteq> None}"
  have "inj_on (\<lambda>i. the (anys s ! i)) ?I"
  proof (rule inj_onI)
    fix i j assume ij: "i \<in> ?I" "j \<in> ?I" "the (anys s ! i) = the (anys s ! j)"
    then obtain q where "anys s ! i = Some q" "anys s ! j = Some q" by auto
    then show "i = j" using assms ij(1,2) by (auto simp: any_inv_def)
  qed
  moreover have "(\<lambda>i. the (anys s ! i)) ` ?I = owned (anys s)"
  proof (intro set_eqI iffI)
    fix q assume "q \<in> owned (anys s)"
    then obtain i where "i < length (anys s)" "anys s ! i = Some q" by (auto simp: owned_def in_set_conv_nth)
    then show "q \<in> (\<lambda>i. the (anys s ! i)) ` ?I" by (intro image_eqI [of _ _ i]) simp_all
  qed (auto simp: owned_def in_set_conv_nth)
  ultimately have "bij_betw (\<lambda>i. the (anys s ! i)) ?I (owned (anys s))" by (simp add: bij_betw_def)
  then have "card (dom (holders s)) = card ?I" using assms by (simp add: any_inv_def bij_betw_same_card)
  moreover have "any_values s ! i \<noteq> None \<longleftrightarrow> anys s ! i \<noteq> None" if i: "i < length (anys s)" for i
  proof (cases "anys s ! i")
    case (Some q)
    obtain x where "holders s q = Some x" by (rule any_inv_live [OF assms i Some])
    then show ?thesis using Some i by (simp add: any_values_def any_value_def)
  qed (use i in \<open>simp add: any_values_def any_value_def\<close>)
  ultimately show ?thesis by (simp add: length_filter_conv_card any_values_def cong: conj_cong)
qed

text \<open>
  C28: Any program of assignments, copies (an object to itself too) and swaps on objects of type \<^verbatim>\<open>any\<close> runs without touching freed
  memory and leaves the values that plain values would have: a copy is independent of its source. At every end
  there are as many holders on the heap as objects that are not empty, so nothing leaks.
\<close>

theorem any_refines_values:
  fixes alloc :: "'v any_heap \<Rightarrow> addr"
  assumes "alloc_fresh alloc" and "\<forall>x \<in> set ops. op_ok n x"
  shows "succeeds (any_run alloc ops (any_init n)) (\<lambda>s. any_values s = fold value_exec ops (replicate n None) \<and>
    card (dom (holders s)) = length (filter (\<lambda>v. v \<noteq> None) (any_values s)))"
proof -
  have "any_values (any_init n :: 'v any_state) = replicate n None" "length (anys (any_init n :: 'v any_state)) = n"
    by (simp_all add: any_values_def any_init_def any_ctor_def any_value_def)
  then have "succeeds (any_run alloc ops (any_init n)) (\<lambda>s. any_inv s \<and> length (anys s) = n \<and>
      any_values s = fold value_exec ops (replicate n None))"
    using any_run_ok [OF any_init_inv [of n], of ops alloc] assms by simp
  then show ?thesis by (rule succeeds_mono) (simp add: any_inv_card)
qed

text \<open>
  C39: Casts respect the dynamic type: on an object whose content is alive (or that is empty) \<^verbatim>\<open>any_cast\<close> to the type that is stored
  gives the stored value, a cast to any other type throws, and a cast of an empty object throws for every type but \<^verbatim>\<open>void\<close>.
\<close>

theorem any_cast_typed:
  assumes "any_inv s" and "i < length (anys s)" and "t \<noteq> typeid_void"
  shows "any_cast t (anys s ! i) (holders s) =
    Inr (case any_values s ! i of Some (ty, v) \<Rightarrow> if ty = t then Returned v else BadAnyCast | None \<Rightarrow> BadAnyCast)"
proof (cases "anys s ! i")
  case None
  then show ?thesis using assms(2,3) by (simp add: any_cast_def any_cast_ptr_def any_type_def any_values_def any_value_def)
next
  case (Some q)
  obtain x where "holders s q = Some x" by (rule any_inv_live [OF assms(1,2) Some])
  then show ?thesis using Some assms(2)
    by (simp add: any_cast_def any_cast_ptr_def any_type_def holder_at_def any_values_def any_value_def)
qed

section \<open>The data of a connection\<close>

text \<open>\<^verbatim>\<open>data_\<close> of a connection, which only its user uses: \<^verbatim>\<open>set_data\<close> assigns to it.\<close>

definition set_data :: "addr \<Rightarrow> any \<Rightarrow> any \<Rightarrow> 'v any_heap \<Rightarrow> (any \<times> 'v any_heap) outcome" where
  "set_data p data self h = any_assign p data self h"

lemma set_data_value:
  assumes "h p = None" and "h q = Some x" and "d = None \<or> (\<exists>r y. d = Some r \<and> h r = Some y \<and> r \<noteq> q)"
  shows "succeeds (set_data p (Some q) d h) (\<lambda>(e, h1). any_value h1 e = Some (holder_type x, held x) \<and> h1 q = Some x \<and>
    (\<forall>r. d = Some r \<longrightarrow> h1 r = None))"
  using assms
  by (auto simp: set_data_def any_assign_def any_copy_ctor_def clone_def holder_at_def any_swap_def any_dtor_def any_value_def)

section \<open>Witnesses\<close>

theorem any_refines_values_witness:
  "succeeds (any_run next_address [SetValue 0 ''int'' (7 :: int), CopyFrom 1 0, SetValue 0 ''long'' 8, CopyFrom 1 1, Swap 0 2, Clear 0] (any_init 3))
    (\<lambda>s. any_values s = [None, Some (''int'', 7), Some (''long'', 8)] \<and> card (dom (holders s)) = 2)"
  by (rule succeeds_mono [OF any_refines_values [OF next_address_fresh]]) (simp_all add: eval_nat_numeral)

theorem any_cast_typed_witness:
  "succeeds (any_run next_address [SetValue 0 ''int'' (7 :: int)] (any_init 1)) (\<lambda>s.
    any_cast ''int'' (anys s ! 0) (holders s) = Inr (Returned 7) \<and> any_cast ''long'' (anys s ! 0) (holders s) = Inr BadAnyCast)"
proof (rule succeeds_mono [OF any_run_ok [OF any_init_inv _ next_address_fresh]])
  fix s assume s: "any_inv s \<and> length (anys s) = length (anys (any_init 1)) \<and>
    any_values s = fold value_exec [SetValue 0 ''int'' 7] (any_values (any_init 1))"
  then have "length (anys s) = 1" "any_values s = [Some (''int'', 7)]" by (simp_all add: any_init_def any_values_def)
  then show "any_cast ''int'' (anys s ! 0) (holders s) = Inr (Returned 7) \<and> any_cast ''long'' (anys s ! 0) (holders s) = Inr BadAnyCast"
    using s any_cast_typed [of s 0 "''int''"] any_cast_typed [of s 0 "''long''"] by (simp add: typeid_void_def)
qed (simp add: any_init_def)

end
