(* ===== verification/TCPInfo.thy ===== *)
theory TCPInfo
  imports TCPConnection InetAddress
begin

text \<open>
  The text that describes a connection's state in the kernel (\<^verbatim>\<open>Socket::GetTCPInfo\<close>, \<^verbatim>\<open>Socket::GetTCPInfoString\<close> of \<^verbatim>\<open>src/socket.cc\<close>
  and \<^verbatim>\<open>TCPConnection::GetTCPInfo\<close>), formatted into a buffer of 256 bytes. The kernel's answer to \<^verbatim>\<open>getsockopt\<close>
  is a parameter; the fields are those of \<^verbatim>\<open>struct tcp_info\<close> that the code prints, at their widths.
\<close>

record tcp_info =
  tcpi_retransmits :: "8 word"
  tcpi_rto :: "32 word"
  tcpi_ato :: "32 word"
  tcpi_snd_mss :: "32 word"
  tcpi_rcv_mss :: "32 word"
  tcpi_lost :: "32 word"
  tcpi_retrans :: "32 word"
  tcpi_rtt :: "32 word"
  tcpi_rttvar :: "32 word"
  tcpi_snd_ssthresh :: "32 word"
  tcpi_snd_cwnd :: "32 word"
  tcpi_total_retrans :: "32 word"

definition zero_info :: tcp_info where
  "zero_info = tcp_info.make 0 0 0 0 0 0 0 0 0 0 0 0"

text \<open>The result of \<^verbatim>\<open>getsockopt\<close> is not checked: on a failure the zeroed structure is returned.\<close>

definition GetTCPInfo :: "(int \<Rightarrow> tcp_info option) \<Rightarrow> int \<Rightarrow> tcp_info" where
  "GetTCPInfo k_info fd = (case k_info fd of None \<Rightarrow> zero_info | Some info \<Rightarrow> info)"

text \<open>The pairs of literal text and number of the format, and the arguments in the order of the call.\<close>

definition info_args :: "tcp_info \<Rightarrow> (string \<times> nat) list" where
  "info_args info =
     [(''unrecovered='', unat (tcpi_retransmits info)),
      ('' rto='', unat (tcpi_rto info)), ('' ato='', unat (tcpi_ato info)),
      ('' snd_mss='', unat (tcpi_snd_mss info)), ('' rcv_mss='', unat (tcpi_rcv_mss info)),
      ('' lost='', unat (tcpi_lost info)), ('' retrans='', unat (tcpi_retrans info)),
      ('' rtt='', unat (tcpi_rtt info)), ('' rttvar='', unat (tcpi_rttvar info)),
      ('' sshthresh='', unat (tcpi_snd_ssthresh info)), ('' cwnd='', unat (tcpi_snd_cwnd info)),
      ('' total_retrans='', unat (tcpi_total_retrans info))]"

definition snprintf_args :: "nat \<Rightarrow> (string \<times> nat) list \<Rightarrow> string" where
  "snprintf_args n xs = take (n - 1) (concat (map (\<lambda>(t, v). t @ print_u v) xs))"

definition GetTCPInfoString :: "(int \<Rightarrow> tcp_info option) \<Rightarrow> int \<Rightarrow> string" where
  "GetTCPInfoString k_info fd = snprintf_args 256 (info_args (GetTCPInfo k_info fd))"

definition TCPConnection_GetTCPInfo :: "(int \<Rightarrow> tcp_info option) \<Rightarrow> conn \<Rightarrow> string outcome" where
  "TCPConnection_GetTCPInfo k_info s =
     (if CONNECTED \<noteq> c_state s then Inr []
      else rbind (conn_channel s) (\<lambda>c. Inr (GetTCPInfoString k_info (ch_fd c))))"

section \<open>The buffer suffices\<close>

lemma print_word32: "length (print_u (unat (w :: 32 word))) \<le> 10"
proof -
  have "unat w < 2 ^ 32" using unsigned_less [of w] by simp
  then have "unat w < 10 ^ Suc 9" by simp
  from length_print_u [OF this] show ?thesis by simp
qed

lemma print_word8: "length (print_u (unat (w :: 8 word))) \<le> 3"
proof -
  have "unat w < 2 ^ 8" using unsigned_less [of w] by simp
  then have "unat w < 10 ^ Suc 2" by simp
  from length_print_u [OF this] show ?thesis by simp
qed

lemma print_u_no_space: "CHR '' '' \<notin> set (print_u n)"
proof (induction n rule: print_u.induct)
  case (1 n)
  have d: "CHR '' '' \<noteq> char_of (48 + k)" if "k < 10" for k :: nat
  proof
    assume "CHR '' '' = char_of (48 + k)"
    then have "of_char (CHR '' '') = (of_char (char_of (48 + k)) :: nat)" by simp
    then show False using that by (simp only: of_char_of) simp
  qed
  show ?case using 1 d [of n] d [of "n mod 10"] by (simp add: print_u.simps [of n])
qed

text \<open>
  C40: The text of every connection fits into the buffer: nothing of it is cut off. So each number can be read back from
  it; here the first.
\<close>

theorem GetTCPInfoString_fits:
  "length (GetTCPInfoString k_info fd) \<le> 213 \<and>
   GetTCPInfoString k_info fd = concat (map (\<lambda>(t, v). t @ print_u v) (info_args (GetTCPInfo k_info fd))) \<and>
   read_u 0 (takeWhile (\<lambda>c. c \<noteq> CHR '' '') (drop 12 (GetTCPInfoString k_info fd))) = unat (tcpi_retransmits (GetTCPInfo k_info fd))"
proof -
  let ?i = "GetTCPInfo k_info fd" and ?t = "concat (map (\<lambda>(t, v). t @ print_u v) (info_args (GetTCPInfo k_info fd)))"
  have l: "length ?t \<le> 213"
    using print_word8 [of "tcpi_retransmits ?i"] print_word32 [of "tcpi_rto ?i"] print_word32 [of "tcpi_ato ?i"]
      print_word32 [of "tcpi_snd_mss ?i"] print_word32 [of "tcpi_rcv_mss ?i"] print_word32 [of "tcpi_lost ?i"]
      print_word32 [of "tcpi_retrans ?i"] print_word32 [of "tcpi_rtt ?i"] print_word32 [of "tcpi_rttvar ?i"]
      print_word32 [of "tcpi_snd_ssthresh ?i"] print_word32 [of "tcpi_snd_cwnd ?i"] print_word32 [of "tcpi_total_retrans ?i"]
    by (simp add: info_args_def)
  then have e: "GetTCPInfoString k_info fd = ?t" by (simp add: GetTCPInfoString_def snprintf_args_def)
  obtain r where r: "drop 12 ?t = print_u (unat (tcpi_retransmits ?i)) @ CHR '' '' # r"
    by (simp add: info_args_def)
  have "CHR '' '' \<notin> set (print_u (unat (tcpi_retransmits ?i)))" by (rule print_u_no_space)
  then have "takeWhile (\<lambda>c. c \<noteq> CHR '' '') (drop 12 ?t) = print_u (unat (tcpi_retransmits ?i))"
    unfolding r by (subst takeWhile_append2) auto
  then show ?thesis using l e by (simp add: read_print_u)
qed

end
