(* ===== verification/TCPStream.thy ===== *)
theory TCPStream
  imports TCPConnection_Runs "HOL-Library.Sublist"
begin


text \<open>
  The byte stream between two connections: \<open>a\<close> sends, \<open>b\<close> receives. Between them is the kernel's TCP, of which this
  is assumed: what \<^verbatim>\<open>readv\<close> delivers at one end is the next piece of what \<^verbatim>\<open>send\<close> took at the other. Both ends run
  in their own loops and take any steps of theory \<open>TCPConnection_Runs\<close>, interleaved.
\<close>

section \<open>Steps by name\<close>

datatype conn_action =
    Establish | OwnCall conn_op | ForeignCall int conn_op | Queued nat | Poll events | Deliver "(int, byte list) sum" | Destroy

fun enabled :: "conn_action \<Rightarrow> conn \<Rightarrow> bool" where
  "enabled Establish s = (c_state s = CONNECTING)"
| "enabled (OwnCall oper) s = True"
| "enabled (ForeignCall tid oper) s = (tid \<noteq> loop_tid s \<and> oper \<in> {OpShutdown, OpForceClose} \<union> range OpSend)"
| "enabled (Queued n) s = (due s = [] \<and> n < length (closures s))"
| "enabled (Poll reported) s =
     (due s = [] \<and> (case heap s (c_channel s) of None \<Rightarrow> False
        | Some c \<Rightarrow> map_option snd (interest s (ch_fd c)) = Some (c_channel s)))"
| "enabled (Deliver a) s = (due s \<noteq> [] \<and> read_answer_ok a)"
| "enabled Destroy s = True"

fun act :: "conn_env \<Rightarrow> conn_action \<Rightarrow> conn \<Rightarrow> conn outcome" where
  "act E Establish s = ConnectionEstablished E s"
| "act E (OwnCall oper) s = run_conn_ops E [oper] s"
| "act E (ForeignCall tid oper) s = as_thread tid (run_conn_ops E [oper]) s"
| "act E (Queued n) s = run_conn_task E (closures s ! n) s"
| "act E (Poll reported) s =
     rbind (conn_channel s) (\<lambda>c. Inr (s\<lparr>due := expected_calls (c\<lparr>ch_revents := reported\<rparr>)\<rparr>))"
| "act E (Deliver a) s = conn_call E a (hd (due s)) (s\<lparr>due := tl (due s)\<rparr>)"
| "act E Destroy s = ConnectionDestroy E s"

lemma conn_step_act: "conn_step E s r \<longleftrightarrow> (\<exists>x. enabled x s \<and> r = act E x s)"
proof
  assume "conn_step E s r"
  then show "\<exists>x. enabled x s \<and> r = act E x s"
  proof cases
    case establish then show ?thesis by (intro exI [of _ Establish]) simp
  next
    case (own_call oper) then show ?thesis by (intro exI [of _ "OwnCall oper"]) simp
  next
    case (foreign_call tid oper) then show ?thesis by (intro exI [of _ "ForeignCall tid oper"]) simp
  next
    case (queued n) then show ?thesis by (intro exI [of _ "Queued n"]) simp
  next
    case (poll c ev reported) then show ?thesis by (intro exI [of _ "Poll reported"]) (simp add: conn_channel_def)
  next
    case (deliver k ks a) then show ?thesis by (intro exI [of _ "Deliver a"]) simp
  next
    case destroy then show ?thesis by (intro exI [of _ Destroy]) simp
  qed
next
  assume "\<exists>x. enabled x s \<and> r = act E x s"
  then obtain x where x: "enabled x s" "r = act E x s" by blast
  show "conn_step E s r"
  proof (cases x)
    case (Poll reported)
    then obtain c ev where "due s = []" "heap s (c_channel s) = Some c" "interest s (ch_fd c) = Some (ev, c_channel s)"
      using x(1) by (auto split: option.splits)
    from conn_step.poll [OF this] show ?thesis using x(2) Poll \<open>heap s (c_channel s) = Some c\<close> by (simp add: conn_channel_def)
  next
    case (Deliver a)
    then have "due s = hd (due s) # tl (due s)" "read_answer_ok a" using x(1) by simp_all
    from conn_step.deliver [OF this] show ?thesis using x(2) Deliver by simp
  qed (use x in \<open>auto intro: conn_step.intros\<close>)
qed

section \<open>The pipe\<close>

text \<open>\<open>tp_read\<close>: what \<^verbatim>\<open>readv\<close> has delivered to the receiver so far.\<close>

record tcp_pipe =
  tp_a :: conn
  tp_b :: conn
  tp_read :: "byte list"

fun delivered :: "conn_action \<Rightarrow> conn \<Rightarrow> byte list" where
  "delivered (Deliver (Inr dat)) s = (if hd (due s) = ReadCb then dat else [])"
| "delivered _ s = []"

inductive pipe_step :: "conn_env \<Rightarrow> conn_env \<Rightarrow> tcp_pipe \<Rightarrow> tcp_pipe \<Rightarrow> bool" for A B where
  sender: "enabled x (tp_a p) \<Longrightarrow> act A x (tp_a p) = Inr a \<Longrightarrow> pipe_step A B p (p\<lparr>tp_a := a\<rparr>)"
| receiver: "enabled y (tp_b p) \<Longrightarrow> act B y (tp_b p) = Inr b \<Longrightarrow>
    prefix (tp_read p @ delivered y (tp_b p)) (sent (tp_a p)) \<Longrightarrow>
    pipe_step A B p (p\<lparr>tp_b := b, tp_read := tp_read p @ delivered y (tp_b p)\<rparr>)"

definition pipe_start :: "conn_env \<Rightarrow> conn_env \<Rightarrow> tcp_pipe \<Rightarrow> bool" where
  "pipe_start A B p \<longleftrightarrow> conn_start A (tp_a p) \<and> conn_start B (tp_b p) \<and> contents (c_input (tp_b p)) = [] \<and>
     consumed (tp_b p) = [] \<and> tp_read p = []"

inductive pipe_reach :: "conn_env \<Rightarrow> conn_env \<Rightarrow> tcp_pipe \<Rightarrow> bool" for A B where
  start: "pipe_start A B p \<Longrightarrow> pipe_reach A B p"
| step: "pipe_reach A B p \<Longrightarrow> pipe_step A B p q \<Longrightarrow> pipe_reach A B q"

section \<open>What the operations do to the streams\<close>

lemma modify_more: "modify p f s = Inr t \<Longrightarrow> poller.more t = poller.more s"
  by (auto simp: modify_def rbind_Inr_conv)

lemma set_status_more: "set_status p st s = Inr t \<Longrightarrow> poller.more t = poller.more s"
  unfolding set_status_def by (rule modify_more)

lemma debug_dump_more: "debug_dump E s = Inr t \<Longrightarrow> poller.more t = poller.more s"
  by (auto simp: debug_dump_def rbind_Inr_conv split: if_splits)

lemma AddChannelListItem_more: "AddChannelListItem E p s = Inr t \<Longrightarrow> poller.more t = poller.more s"
  unfolding AddChannelListItem_def rbind_Inr_conv by (auto dest!: debug_dump_more)

lemma DelChannelListItem_more: "DelChannelListItem E p s = Inr t \<Longrightarrow> poller.more t = poller.more s"
  unfolding DelChannelListItem_def rbind_Inr_conv by (auto dest!: debug_dump_more)

lemma Epoller_Update_more: "Epoller_Update E op p s = Inr (ok, t) \<Longrightarrow> poller.more t = poller.more s"
  by (auto simp: Epoller_Update_def rbind_Inr_conv split: if_splits)

lemmas table_more = set_status_more AddChannelListItem_more DelChannelListItem_more Epoller_Update_more

lemma UpdateChannel_more: "Epoller_UpdateChannel E p s = Inr t \<Longrightarrow> poller.more t = poller.more s"
  unfolding Epoller_UpdateChannel_def Let_def by (auto simp: rbind_Inr_conv split: if_splits dest!: table_more)

lemma RemoveChannel_more: "Epoller_RemoveChannel E p s = Inr t \<Longrightarrow> poller.more t = poller.more s"
  unfolding Epoller_RemoveChannel_def Let_def by (auto simp: rbind_Inr_conv split: if_splits dest!: table_more)

lemma set_events_more: "set_events E f p s = Inr t \<Longrightarrow> poller.more t = poller.more s"
  unfolding set_events_def EventLoop_UpdateChannel_def by (auto simp: rbind_Inr_conv dest!: modify_more UpdateChannel_more)

lemma Channel_Remove_more: "Channel_Remove E p s = Inr t \<Longrightarrow> poller.more t = poller.more s"
  unfolding Channel_Remove_def EventLoop_RemoveChannel_def by (auto simp: rbind_Inr_conv dest!: RemoveChannel_more)

text \<open>The two ends of a connection's streams, as far as its user and the kernel see them.\<close>

definition ends :: "conn \<Rightarrow> buffer \<times> byte list \<times> byte list" where
  "ends s = (c_input s, sent s, consumed s)"

lemma more_ends: "poller.more t = poller.more s \<Longrightarrow> ends t = ends (s :: conn)"
  by (cases s; cases t) (simp add: ends_def)

lemmas channel_ends =
  set_events_more [THEN more_ends] Channel_Remove_more [THEN more_ends] modify_more [THEN more_ends]

text \<open>\<open>flows s t\<close>: between \<open>s\<close> and \<open>t\<close> the kernel took more output, and input left the buffer only to be consumed by the user.\<close>

definition flows :: "conn \<Rightarrow> conn \<Rightarrow> bool" where
  "flows s t \<longleftrightarrow> (\<exists>d. sent t = sent s @ d) \<and> (buffer_inv (c_input s) \<longrightarrow>
     buffer_inv (c_input t) \<and> consumed t @ contents (c_input t) = consumed s @ contents (c_input s))"

lemma flows_same: "ends t = ends s \<Longrightarrow> flows s t"
  by (auto simp: flows_def ends_def)

lemma flows_sent: "c_input t = c_input s \<Longrightarrow> consumed t = consumed s \<Longrightarrow> sent t = sent s @ d \<Longrightarrow> flows s t"
  by (auto simp: flows_def)

lemma flows_trans: "flows s t \<Longrightarrow> flows t u \<Longrightarrow> flows s u"
  by (auto simp: flows_def)

lemma flows_from: "ends u = ends s \<Longrightarrow> flows u t \<Longrightarrow> flows s t"
  by (simp add: flows_def ends_def)

lemma flows_to: "ends u = ends t \<Longrightarrow> flows s u \<Longrightarrow> flows s t"
  by (simp add: flows_def ends_def)

lemma post_task_ends [simp]: "ends (post_task k s) = ends s"
  by (simp add: post_task_def QueueInLoop_def QueueInLoop_push_def QueueInLoop_wake_def Wakeup_def Let_def ends_def)

lemma sys_send_flows:
  assumes "sys_send E dat s = (r, t)"
  shows "flows s t"
  using assms by (cases "k_send E (sends s) (length dat)")
    (auto simp: sys_send_def Let_def intro: flows_sent [of _ _ "[]"] flows_sent [of _ _ "take _ dat"])

text \<open>A run that flows, if it returns.\<close>

definition flow :: "conn \<Rightarrow> conn outcome \<Rightarrow> bool" where
  "flow s r \<longleftrightarrow> (\<forall>t. r = Inr t \<longrightarrow> flows s t)"

lemma flow_simps [simp]:
  "flow s (Inl e)" "flow s (Inr t) \<longleftrightarrow> flows s t"
  "flow s (if c then r else r') \<longleftrightarrow> (c \<longrightarrow> flow s r) \<and> (\<not> c \<longrightarrow> flow s r')"
  by (simp_all add: flow_def)

lemma flow_value: "(\<And>x. m = Inr x \<Longrightarrow> flow s (g x)) \<Longrightarrow> flow s (rbind m g)"
  by (cases m) simp_all

lemma flow_start: "flows s u \<Longrightarrow> flow u r \<Longrightarrow> flow s r"
  by (auto simp: flow_def intro: flows_trans)

lemma flow_then: "flow s m \<Longrightarrow> (\<And>u. flow u (g u)) \<Longrightarrow> flow s (rbind m g)"
  by (cases m) (auto intro: flow_start)

lemma flow_then_ends: "flow s m \<Longrightarrow> (\<And>u. ends (h u) = ends u) \<Longrightarrow> flow s (rbind m (\<lambda>u. Inr (h u)))"
  by (cases m) (auto intro: flows_to [OF sym])

lemma flow_from: "ends u = ends s \<Longrightarrow> flow u r \<Longrightarrow> flow s r"
  by (rule flow_start [OF flows_same])

lemma ends_upd [simp]:
  "ends (s\<lparr>c_output := b\<rparr>) = ends s" "ends (s\<lparr>accepted := x\<rparr>) = ends s" "ends (s\<lparr>shut_wr := v\<rparr>) = ends s"
  "ends (s\<lparr>c_state := st\<rparr>) = ends s" "ends (AddRequests s) = ends s" "ends (s\<lparr>trace := tr\<rparr>) = ends s"
  "ends (s\<lparr>current_tid := tid\<rparr>) = ends s" "ends (s\<lparr>due := ks\<rparr>) = ends s"
  by (simp_all add: ends_def AddRequests_def)

lemma flow_channel:
  "flow s (set_events E f p s)" "flow s (Channel_Remove E p s)" "flow s (modify p h s)"
  by (auto simp: flow_def intro: flows_same channel_ends)

lemma SendMostPossible_flows: "SendMostPossible E dat s = Inr (n, t) \<Longrightarrow> flows s t"
  unfolding SendMostPossible_def
  by (auto simp: rbind_Inr_conv flows_same split: if_splits sum.splits prod.splits dest: sys_send_flows)

lemma SendDatQueueInBuffer_flow: "flow s (SendDatQueueInBuffer E dat s)"
  unfolding SendDatQueueInBuffer_def Let_def EnableWriting_def
proof (intro flow_value)
  fix b c
  let ?u = "if overstock_size s \<le> ReadableBytes (c_output s) + length dat \<and> has_high_water_mark_cb s
    then post_task (HighWaterTask (ReadableBytes (c_output s) + length dat)) s else s"
  have "ends (?u\<lparr>c_output := b\<rparr>) = ends s" by (cases "overstock_size s \<le> ReadableBytes (c_output s) + length dat \<and> has_high_water_mark_cb s") simp_all
  then show "flow s (if \<not> IsWriting c then set_events (cpenv E) (\<lambda>ev. ev OR kWriteEvent) (c_channel (?u\<lparr>c_output := b\<rparr>)) (?u\<lparr>c_output := b\<rparr>)
      else Inr (?u\<lparr>c_output := b\<rparr>))"
    by (rule flow_from) (simp add: flow_channel flows_same)
qed

lemma Send_impl_flow: "flow s (Send_impl E dat s)"
  unfolding Send_impl_def
proof (rule flow_value)
  have step: "flow s (rbind (SendMostPossible E dat s) (\<lambda>(remain, s1).
      if -1 = remain then Inr s1
      else let s2 = s1\<lparr>accepted := accepted s1 @ dat\<rparr> in
        if 0 \<noteq> remain then SendDatQueueInBuffer E (drop (length dat - nat remain) dat) s2
        else if has_write_complete_cb s2 then Inr (post_task WriteCompleteTask s2) else Inr s2))"
  proof (rule flow_value, clarsimp simp only: split_paired_all prod.case)
    fix n u assume "SendMostPossible E dat s = Inr (n, u)"
    then have f: "flows s u" by (rule SendMostPossible_flows)
    have "flow (u\<lparr>accepted := accepted u @ dat\<rparr>) (SendDatQueueInBuffer E (drop (length dat - nat n) dat) (u\<lparr>accepted := accepted u @ dat\<rparr>))"
      by (rule SendDatQueueInBuffer_flow)
    then have "flow u (SendDatQueueInBuffer E (drop (length dat - nat n) dat) (u\<lparr>accepted := accepted u @ dat\<rparr>))"
      by (rule flow_from [rotated]) simp
    then show "flow s (if -1 = n then Inr u
      else let s2 = u\<lparr>accepted := accepted u @ dat\<rparr> in
        if 0 \<noteq> n then SendDatQueueInBuffer E (drop (length dat - nat n) dat) s2
        else if has_write_complete_cb s2 then Inr (post_task WriteCompleteTask s2) else Inr s2)"
      by (intro flow_start [OF f]) (simp add: Let_def flows_same)
  qed
  show "flow s (if CONNECTED = c_state s then rbind (SendMostPossible E dat s) (\<lambda>(remain, s1).
      if -1 = remain then Inr s1
      else let s2 = s1\<lparr>accepted := accepted s1 @ dat\<rparr> in
        if 0 \<noteq> remain then SendDatQueueInBuffer E (drop (length dat - nat remain) dat) s2
        else if has_write_complete_cb s2 then Inr (post_task WriteCompleteTask s2) else Inr s2) else Inr s)"
    using step by (simp add: flows_same)
qed

lemma Send_flow: "flow s (Send E dat s)"
  by (simp add: Send_def Send_impl_flow flows_same)

lemma take_flow: "flow s (rbind (Retrieve (c_input s) (min n (ReadableBytes (c_input s)))) (\<lambda>b. Inr (s\<lparr>c_input := b,
    consumed := consumed s @ peek_bytes (c_input s) (min n (ReadableBytes (c_input s)))\<rparr>)))"
proof (rule flow_value)
  let ?n = "min n (ReadableBytes (c_input s))"
  fix b assume "Retrieve (c_input s) ?n = Inr b"
  then show "flow s (Inr (s\<lparr>c_input := b, consumed := consumed s @ peek_bytes (c_input s) ?n\<rparr>))"
    using Retrieve_ok [of "c_input s" ?n] by (auto simp: flows_def peek_bytes_contents)
qed

lemma run_conn_ops_flow: "flow s (run_conn_ops E ops s)"
proof (induction ops arbitrary: s)
  case (Cons oper ops)
  show ?case
  proof (cases oper)
    case (OpSend dat)
    then show ?thesis by (simp add: flow_then [OF Send_flow Cons.IH])
  next
    case (OpTake n)
    have "flow s (rbind (rbind (Retrieve (c_input s) (min n (ReadableBytes (c_input s)))) (\<lambda>b. Inr (s\<lparr>c_input := b,
        consumed := consumed s @ peek_bytes (c_input s) (min n (ReadableBytes (c_input s)))\<rparr>))) (run_conn_ops E ops))"
      by (rule flow_then [OF take_flow Cons.IH])
    then show ?thesis using OpTake by (simp add: rbind_assoc)
  qed (simp_all add: ShutdownWirte_def ForceClose_def flow_from [OF _ Cons.IH] Cons.IH)
qed (simp add: flows_same)

lemma notify_flow: "flow s (notify E ev s)"
  unfolding notify_def by (rule flow_from [OF _ run_conn_ops_flow]) simp

lemma HandleClose_flow: "flow s (TCPConnection_HandleClose E s)"
  unfolding TCPConnection_HandleClose_def DisableAll_def
proof (rule flow_value, rule flow_then)
  show "flow s (set_events (cpenv E) (\<lambda>_. kNoneEvent) (c_channel s) (s\<lparr>c_state := DISCONNECTING\<rparr>))"
    by (rule flow_from [OF _ flow_channel(1)]) simp
  show "flow u (rbind (if has_disconnection_cb u then notify E EvDisconnected u else Inr u) (notify E EvRemove))" for u
    by (rule flow_then) (simp_all add: notify_flow flows_same)
qed

lemma HandleWrite_flow: "flow s (TCPConnection_HandleWrite E s)"
proof -
  obtain r u where u: "sys_send E (peek_bytes (c_output s) (ReadableBytes (c_output s))) s = (r, u)" by fastforce
  have f: "flows s u" by (rule sys_send_flows [OF u])
  show ?thesis unfolding TCPConnection_HandleWrite_def Let_def u DisableWriting_def
    by (intro flow_value, cases r)
      (auto simp: flows_same f intro!: flow_start [OF f] flow_value dest!: channel_ends)
qed

lemma run_conn_task_flow: "flow s (run_conn_task E k s)"
  by (cases k) (auto simp: run_conn_task_def ShutdownWriteInLoop_def ForceCloseInLoop_def Send_impl_flow notify_flow HandleClose_flow
      flows_same intro!: flow_value)

lemma ConnectionEstablished_flow: "flow s (ConnectionEstablished E s)"
  unfolding ConnectionEstablished_def EnableReading_def
proof (rule flow_value, rule flow_then)
  show "flow s (modify (c_channel s) (Channel_Tie (c_self s)) (s\<lparr>c_state := CONNECTED\<rparr>))"
    by (rule flow_from [OF _ flow_channel(3)]) simp
  show "flow u (rbind (set_events (cpenv E) (\<lambda>ev. ev OR kReadEvent) (c_channel u) u) (\<lambda>v.
      if has_connection_cb v then notify E EvConnected v else Inr v))" for u
    by (rule flow_then [OF flow_channel(1)]) (simp add: notify_flow flows_same)
qed

lemma HandleRead_flow: "flow (s\<lparr>c_input := b\<rparr>) (rbind (Inr (r, e, b)) (\<lambda>(rlen, err_no, b). let s1 = s\<lparr>c_input := b\<rparr> in
      if 0 < rlen then (if has_read_cb s1 then notify E EvRead s1 else Inr s1)
      else if 0 = rlen then TCPConnection_HandleClose E s1 else Inr s1))"
  by (simp add: Let_def notify_flow HandleClose_flow flows_same)

text \<open>A call of a handler: what the read delivers is appended to the input.\<close>

lemma conn_call_streams:
  assumes "conn_call E a k s = Inr t" and "buffer_inv (c_input s)"
  shows "(\<exists>d. sent t = sent s @ d) \<and> buffer_inv (c_input t) \<and>
    consumed t @ contents (c_input t) = consumed s @ contents (c_input s) @ (case (k, a) of (ReadCb, Inr dat) \<Rightarrow> dat | _ \<Rightarrow> [])"
proof (cases "k = ReadCb \<and> (\<exists>dat. a = Inr dat)")
  case True
  then obtain dat where x: "k = ReadCb" "a = Inr dat" by blast
  obtain r e b where b: "ReadFd (c_input s) (Inr dat) = Inr (r, e, b)" "buffer_inv b" "contents b = contents (c_input s) @ dat"
    using ReadFd_data [OF assms(2), of dat] by (auto elim!: succeedsE)
  have "flows (s\<lparr>c_input := b\<rparr>) t" using assms(1) x b(1) HandleRead_flow [of b s r e E]
    by (auto simp: conn_call_def TCPConnection_HandleRead_def rbind_Inr_conv flow_def)
  then show ?thesis using b x by (simp add: flows_def)
next
  case False
  have "flow s (conn_call E a k s)"
  proof (cases k)
    case ReadCb
    then obtain err where a: "a = Inl err" using False by (cases a) auto
    show ?thesis using HandleRead_flow [of "c_input s" s "to_int32 (-1)" "Some err" E]
      by (auto simp: ReadCb a conn_call_def TCPConnection_HandleRead_def ReadFd_def intro!: flow_value)
  qed (auto simp: conn_call_def TCPConnection_HandleError_def flows_same HandleWrite_flow HandleClose_flow intro!: flow_value)
  moreover have "(case (k, a) of (ReadCb, Inr dat) \<Rightarrow> dat | _ \<Rightarrow> []) = []" using False by (cases k; cases a) auto
  ultimately show ?thesis using assms by (simp add: flow_def flows_def)
qed

text \<open>Every step adds to what was sent, and its input is the old one and what it has delivered, less what the user consumed.\<close>

lemma act_streams:
  assumes "act E x s = Inr t" and "enabled x s" and "buffer_inv (c_input s)"
  shows "(\<exists>d. sent t = sent s @ d) \<and> buffer_inv (c_input t) \<and>
    consumed t @ contents (c_input t) = consumed s @ contents (c_input s) @ delivered x s"
proof (cases "\<exists>a. x = Deliver a")
  case True
  then obtain a where a: "x = Deliver a" by blast
  have "delivered x s = (case (hd (due s), a) of (ReadCb, Inr dat) \<Rightarrow> dat | _ \<Rightarrow> [])"
    unfolding a by (cases a; cases "hd (due s)") simp_all
  then show ?thesis using conn_call_streams [of E a "hd (due s)" "s\<lparr>due := tl (due s)\<rparr>" t] assms a by simp
next
  case False
  have "flow s (act E x s)"
  proof (cases x)
    case (ForeignCall tid oper)
    have "flow s (run_conn_ops E [oper] (s\<lparr>current_tid := tid\<rparr>))" by (rule flow_from [OF _ run_conn_ops_flow]) simp
    then have "flow s (as_thread tid (run_conn_ops E [oper]) s)" unfolding as_thread_def
      by (rule flow_then_ends) simp
    then show ?thesis using ForeignCall by simp
  next
    case (Deliver a)
    then show ?thesis using False by blast
  qed (auto simp: ConnectionDestroy_def flows_same ConnectionEstablished_flow run_conn_ops_flow
      run_conn_task_flow intro!: flow_value flow_from [OF _ flow_channel(2)]
      simp del: run_conn_ops.simps)
  moreover have "delivered x s = []" using False by (cases x) auto
  ultimately show ?thesis using assms by (simp add: flow_def flows_def)
qed

section \<open>The stream from end to end\<close>

definition pipe_inv :: "conn_env \<Rightarrow> conn_env \<Rightarrow> tcp_pipe \<Rightarrow> bool" where
  "pipe_inv A B p \<longleftrightarrow> run_inv A (tp_a p) \<and> run_inv B (tp_b p) \<and> prefix (tp_read p) (sent (tp_a p)) \<and>
     tp_read p = consumed (tp_b p) @ contents (c_input (tp_b p))"

lemma act_inv: "enabled x s \<Longrightarrow> act E x s = Inr t \<Longrightarrow> run_inv E s \<Longrightarrow> send_ok E \<Longrightarrow> run_inv E t"
  using conn_step_run [of E s "act E x s"] conn_step_act [of E s "act E x s"] by auto

lemma run_inv_input: "run_inv E s \<Longrightarrow> buffer_inv (c_input s)"
  by (simp add: run_inv_def conn_inv_def)

lemma pipe_step_inv:
  assumes "pipe_step A B p q" and "pipe_inv A B p" and "send_ok A" and "send_ok B"
  shows "pipe_inv A B q"
  using assms(1)
proof cases
  case (sender x a)
  have "buffer_inv (c_input (tp_a p))" using assms(2) run_inv_input unfolding pipe_inv_def by blast
  from act_streams [OF sender(3,2) this] obtain d where "sent a = sent (tp_a p) @ d" by blast
  then show ?thesis using sender assms(2,3) act_inv [OF sender(2,3)] by (auto simp: pipe_inv_def)
next
  case (receiver y b)
  have "buffer_inv (c_input (tp_b p))" using assms(2) run_inv_input unfolding pipe_inv_def by blast
  from act_streams [OF receiver(3,2) this] show ?thesis using receiver assms(2,4) act_inv [OF receiver(2,3)] by (simp add: pipe_inv_def)
qed

lemma pipe_reach_inv:
  assumes "pipe_reach A B p" and "send_ok A" and "send_ok B"
  shows "pipe_inv A B p"
  using assms(1)
proof (induction rule: pipe_reach.induct)
  case (start p)
  then show ?case using conn_reach_run [OF conn_reach.start] assms(2,3) by (simp add: pipe_start_def pipe_inv_def)
next
  case (step p q)
  then show ?case using pipe_step_inv [OF step.hyps(2) step.IH assms(2,3)] by simp
qed

text \<open>
  C6: End to end, in every interleaving: the data that \<^verbatim>\<open>Send\<close> took over at one end is what the other end's user has
  retrieved from its input buffer (\<open>consumed\<close>, recorded call by call), followed by its unread input, the bytes inside the kernel and the sender's pending output. Nothing is lost,
  reordered or duplicated between the two users; what \<^verbatim>\<open>readv\<close> has delivered is exactly what the receiver has consumed or still has in its buffer; and once output and kernel are empty the receiver has everything.
\<close>

theorem tcp_end_to_end:
  assumes "send_ok A" and "send_ok B" and "pipe_reach A B p"
  shows "\<exists>wire. accepted (tp_a p) = consumed (tp_b p) @ contents (c_input (tp_b p)) @ wire @ contents (c_output (tp_a p)) \<and>
    tp_read p = consumed (tp_b p) @ contents (c_input (tp_b p)) \<and> sent (tp_a p) = tp_read p @ wire"
proof -
  have inv: "pipe_inv A B p" by (rule pipe_reach_inv [OF assms(3,1,2)])
  then obtain wire where "sent (tp_a p) = tp_read p @ wire" by (auto simp: pipe_inv_def prefix_def)
  moreover have "accepted (tp_a p) = sent (tp_a p) @ contents (c_output (tp_a p))" using inv by (simp add: pipe_inv_def run_inv_def conn_inv_def)
  ultimately show ?thesis using inv by (intro exI [of _ wire]) (simp add: pipe_inv_def)
qed

section \<open>Witness\<close>

lemma ctor_ends:
  assumes "rbind (TCPConnection_ctor P self q fd s) (TCPConnection_Initialize E) = Inr t"
  shows "ends t = (Buffer_ctor, [], [])"
proof -
  obtain u where u: "TCPConnection_ctor P self q fd s = Inr u" "TCPConnection_Initialize E u = Inr t"
    using assms by (auto simp: rbind_Inr_conv)
  have "ends u = (Buffer_ctor, [], [])" using u(1)
    by (auto simp: TCPConnection_ctor_def rbind_Inr_conv event_loop.defs conn.defs ends_def)
  moreover have "ends t = ends u" using u(2) by (auto simp: TCPConnection_Initialize_def rbind_Inr_conv dest!: channel_ends)
  ultimately show ?thesis by simp
qed

lemma sample_conn_ends: "ends sample_conn = (Buffer_ctor, [], [])"
proof -
  obtain s where s: "EventLoop_ctor linux_env 1 7 10 5 3 11 6 None False = Inr s" "el_inv s"
      "dom (heap s) = {10, 11}" "used s = {5, 6}" "length (channels s) = kInitTotalChannelSize"
    using EventLoop_ctor_ok [OF linux_env_ok, of 10 11 5 6 1 7 3 False] by (auto elim!: succeedsE)
  have "12 \<notin> dom (heap s)" using s(3) by simp
  then have "heap s 12 = None" by (simp only: domIff not_not)
  then have "succeeds (rbind (TCPConnection_ctor (cpenv sample_conn_env) 20 12 8 s) (TCPConnection_Initialize sample_conn_env)) (\<lambda>t. True)"
    using conn_created [of sample_conn_env s 12 8 20] sample_conn_env_ok(2) linux_env_ok s
    by (auto simp: el_inv_def kInitTotalChannelSize_def simp del: succeeds_rbind elim!: succeeds_mono)
  then obtain t where t: "rbind (TCPConnection_ctor linux_env 20 12 8 s) (TCPConnection_Initialize sample_conn_env) = Inr t"
    using sample_conn_env_ok(2) by (auto simp: succeeds_ex simp del: succeeds_rbind)
  then have "sample_conn = t" unfolding sample_conn_def s(1) by simp
  then show ?thesis using ctor_ends [OF t] by simp
qed

lemma sample_established_ends:
  assumes "ConnectionEstablished sample_conn_env s = Inr t"
  shows "ends t = ends s"
proof -
  obtain u v where u: "modify (c_channel s) (Channel_Tie (c_self s)) (s\<lparr>c_state := CONNECTED\<rparr>) = Inr u"
      "set_events (cpenv sample_conn_env) (\<lambda>ev. ev OR kReadEvent) (c_channel u) u = Inr v"
      "(if has_connection_cb v then notify sample_conn_env EvConnected v else Inr v) = Inr t"
    using assms unfolding ConnectionEstablished_def EnableReading_def rbind_Inr_conv by blast
  have "notify sample_conn_env EvConnected v = Inr (v\<lparr>trace := trace v @ [EvConnected]\<rparr>)"
    by (simp add: notify_def sample_conn_env_def)
  then have "ends t = ends v" using u(3) by (cases "has_connection_cb v") auto
  then show ?thesis using channel_ends(3) [OF u(1)] channel_ends(1) [OF u(2)] by simp
qed

lemma sample_read:
  assumes "TCPConnection_HandleRead sample_conn_env (Inr [1, 2]) s = Inr t" and "buffer_inv (c_input s)"
  shows "consumed t = consumed s"
proof -
  have "to_int32 2 = 2" by (simp add: to_int32_def)
  then obtain b where "ReadFd (c_input s) (Inr [1, 2]) = Inr (2, None, b)"
    using ReadFd_data [OF assms(2), of "[1, 2]"] by (auto elim!: succeedsE)
  then show ?thesis using assms(1)
    by (auto simp: TCPConnection_HandleRead_def rbind_Inr_conv notify_def sample_conn_env_def Let_def split: if_splits)
qed

text \<open>Three bytes are sent, of which the kernel takes two; the receiver reads them and its user consumes one.\<close>

theorem tcp_end_to_end_witness:
  "\<exists>p. pipe_reach sample_conn_env sample_conn_env p \<and> accepted (tp_a p) = [1, 2, 3] \<and> tp_read p = [1, 2] \<and>
    consumed (tp_b p) @ contents (c_input (tp_b p)) = [1, 2] \<and> length (consumed (tp_b p)) = 1"
proof -
  let ?E = sample_conn_env and ?p = "\<lparr>tp_a = sample_conn, tp_b = sample_conn, tp_read = []\<rparr>"
  note ok = sample_conn_env_ok(1)
  have start: "pipe_reach ?E ?E ?p"
    using sample_conn_start(1) sample_conn_ends ctor_inv(2) by (intro pipe_reach.start) (simp add: pipe_start_def ends_def)
  obtain s c where s: "ConnectionEstablished ?E sample_conn = Inr s" "conn_inv ?E s" "c_state s = CONNECTED"
      "heap s (c_channel s) = Some c" "ch_has_read c" "contents (c_output s) = []" "ch_status c = kAdded" "due s = []"
    by (rule sample_connected_channel)
  have e0: "ends s = (Buffer_ctor, [], [])" using sample_established_ends [OF s(1)] sample_conn_ends by simp
  then have a0: "accepted s = []" using s(2,6) by (simp add: conn_inv_def ends_def)
  obtain t where t: "Send ?E [1, 2, 3] s = Inr t" "c_state t = CONNECTED" "contents (c_output t) = [3]"
    by (rule sample_send [OF s(2,3,6)])
  have "IsInLoopThread s" using s(2) by (simp add: conn_inv_def ep_inv_def)
  then have "Send_impl ?E [1, 2, 3] s = Inr t" using t(1) s(3) by (simp add: Send_def)
  then have at: "accepted t = [1, 2, 3]" "conn_inv ?E t"
    using Send_impl_ok [OF s(2) ok, of "[1, 2, 3]"] a0 s(3) by (simp_all add: takes_def sample_conn_env_def)
  then have st: "sent t = [1, 2]" using t(3) by (simp add: conn_inv_def)
  have ep: "ep_inv s" using s(2) by (simp add: conn_inv_def)
  let ?d = "s\<lparr>due := [ReadCb]\<rparr>"
  have calls: "expected_calls (c\<lparr>ch_revents := EPOLLIN\<rparr>) = [ReadCb]" using s(5) by (simp add: expected_calls_def has_event_def epoll_bits)
  have en: "enabled (Poll EPOLLIN) s" "act ?E (Poll EPOLLIN) s = Inr ?d"
    using s(4,8) registered_polled [OF ep s(4,7)] calls by (simp_all add: conn_channel_def)
  have a: "read_answer_ok (Inr [1, 2])" by (simp add: read_answer_ok_def)
  obtain u where u: "TCPConnection_HandleRead ?E (Inr [1, 2]) (?d\<lparr>due := []\<rparr>) = Inr u" "conn_inv ?E u"
    using HandleRead_conn_ok [of ?E "?d\<lparr>due := []\<rparr>", OF _ ok connected_handles a] s(2,3) by (auto elim!: succeedsE)
  have bi: "buffer_inv (c_input (?d\<lparr>due := []\<rparr>))" using s(2) by (simp add: conn_inv_def)
  have cu: "consumed u @ contents (c_input u) = [1, 2]"
    using conn_call_streams [of ?E "Inr [1, 2]" ReadCb "?d\<lparr>due := []\<rparr>" u, OF _ bi] u(1) e0 ctor_inv(2) by (simp add: conn_call_def ends_def)
  have p1: "pipe_reach ?E ?E \<lparr>tp_a = s, tp_b = sample_conn, tp_read = []\<rparr>"
    using pipe_reach.step [OF start pipe_step.sender [of Establish]] s(1) sample_conn_inv(2) by simp
  have p2: "pipe_reach ?E ?E \<lparr>tp_a = t, tp_b = sample_conn, tp_read = []\<rparr>"
    using pipe_reach.step [OF p1 pipe_step.sender [of "OwnCall (OpSend [1, 2, 3])"]] t(1) by simp
  have p3: "pipe_reach ?E ?E \<lparr>tp_a = t, tp_b = s, tp_read = []\<rparr>"
    using pipe_reach.step [OF p2 pipe_step.receiver [of Establish]] s(1) sample_conn_inv(2) by simp
  have p4: "pipe_reach ?E ?E \<lparr>tp_a = t, tp_b = ?d, tp_read = []\<rparr>"
    using pipe_reach.step [OF p3 pipe_step.receiver [of "Poll EPOLLIN"]] en by simp
  have p5: "pipe_reach ?E ?E \<lparr>tp_a = t, tp_b = u, tp_read = [1, 2]\<rparr>"
    using pipe_reach.step [OF p4 pipe_step.receiver [of "Deliver (Inr [1, 2])"]] u(1) st a by (simp add: conn_call_def)
  have "consumed u = []" using sample_read [OF u(1) bi] e0 by (simp add: ends_def)
  then have cu': "contents (c_input u) = [1, 2]" using cu by simp
  have bu: "buffer_inv (c_input u)" using u(2) by (simp add: conn_inv_def)
  then have n: "ReadableBytes (c_input u) = 2" using length_contents [of "c_input u"] cu' by simp
  obtain b where b: "Retrieve (c_input u) 1 = Inr b" using Retrieve_ok [OF bu, of 1] n by (auto elim!: succeedsE)
  let ?v = "u\<lparr>c_input := b, consumed := consumed u @ peek_bytes (c_input u) 1\<rparr>"
  have p6: "pipe_reach ?E ?E \<lparr>tp_a = t, tp_b = ?v, tp_read = [1, 2]\<rparr>"
    using pipe_reach.step [OF p5 pipe_step.receiver [of "OwnCall (OpTake 1)"]] b n st by (simp add: min_def)
  have "length (consumed ?v) = 1" using \<open>consumed u = []\<close> cu' n by (simp add: peek_bytes_contents)
  moreover obtain wire where "[1, 2] = consumed ?v @ contents (c_input ?v)" "[1, 2, 3] = [1, 2] @ wire @ contents (c_output t)"
    using tcp_end_to_end [OF ok ok p6] at(1) by auto
  ultimately show ?thesis using p6 at(1) by (intro exI [of _ "\<lparr>tp_a = t, tp_b = ?v, tp_read = [1, 2]\<rparr>"]) (simp del: append_assoc)
qed

end
