(* ===== verification/EventLoop_Life.thy ===== *)
theory EventLoop_Life
  imports EventLoop
begin

text \<open>
  The life of an event loop (\<^verbatim>\<open>event_loop.cc\<close>): the signals that the program blocks at its start and that the loop
  receives through a descriptor, the functions that set their callbacks, and the descriptors and channels that a
  loop owns from its construction to its destruction.
\<close>

section \<open>Signals\<close>

text \<open>
  \<^verbatim>\<open>InitSignal\<close> runs before \<^verbatim>\<open>main\<close>, so that all threads inherit the mask (\<^verbatim>\<open>GlobalInit\<close>). \<open>r\<close> is what
  \<^verbatim>\<open>pthread_sigmask\<close> returns, which is 0 or an error number; the mask changes in the first case.
\<close>

definition SIGPIPE :: int where "SIGPIPE = 13"

definition InitSignal :: "int \<Rightarrow> int set \<Rightarrow> int set outcome" where
  "InitSignal r blocked =
     (let signal_mask = {SIGPIPE, SIGINT, SIGQUIT, SIGUSR1, SIGUSR2};
          blocked = (if r = 0 then blocked \<union> signal_mask else blocked)
      in if - 1 = r then Inl ProcessExit else Inr blocked)"

definition set_sig_int_cb :: "nat \<Rightarrow> 'z event_loop_scheme \<Rightarrow> 'z event_loop_scheme" where
  "set_sig_int_cb cb s = s\<lparr>sig_int_cb := Some cb\<rparr>"

definition set_sig_quit_cb :: "nat \<Rightarrow> 'z event_loop_scheme \<Rightarrow> 'z event_loop_scheme" where
  "set_sig_quit_cb cb s = s\<lparr>sig_quit_cb := Some cb\<rparr>"

definition set_sig_usr1_cb :: "nat \<Rightarrow> 'z event_loop_scheme \<Rightarrow> 'z event_loop_scheme" where
  "set_sig_usr1_cb cb s = s\<lparr>sig_usr1_cb := Some cb\<rparr>"

definition set_sig_usr2_cb :: "nat \<Rightarrow> 'z event_loop_scheme \<Rightarrow> 'z event_loop_scheme" where
  "set_sig_usr2_cb cb s = s\<lparr>sig_usr2_cb := Some cb\<rparr>"

text \<open>
  An error of \<^verbatim>\<open>pthread_sigmask\<close> is not noticed: it is returned as a positive number, the code compares with -1,
  and the program goes on with signals that end the process instead of reaching the signal descriptor.
\<close>

lemma InitSignal_never_exits:
  assumes "0 \<le> r"
  shows "InitSignal r blocked = Inr (if r = 0 then blocked \<union> {SIGPIPE, SIGINT, SIGQUIT, SIGUSR1, SIGUSR2} else blocked)"
  using assms by (simp add: InitSignal_def Let_def)

text \<open>The read loop: what counts is the sum of what the reads deliver, however often they are interrupted.\<close>

definition delivered_bytes :: "(int + nat) list \<Rightarrow> nat" where
  "delivered_bytes rs = sum_list (map (\<lambda>r. case r of Inl e \<Rightarrow> 0 | Inr n \<Rightarrow> n) rs)"

definition retried :: "int + nat \<Rightarrow> bool" where
  "retried r = (case r of Inl e \<Rightarrow> e = EINTR \<or> e = EAGAIN | Inr n \<Rightarrow> True)"

lemma read_siginfo_all:
  assumes "list_all retried rs" and "len \<le> delivered_bytes rs"
  shows "read_siginfo rs len = Some True"
  using assms
proof (induction rs arbitrary: len)
  case Nil
  then show ?case by (simp add: read_siginfo.simps delivered_bytes_def)
next
  case (Cons r rs)
  then show ?case by (cases r) (auto simp: read_siginfo.simps [of "_ # _"] delivered_bytes_def retried_def)
qed

lemma read_siginfo_error:
  assumes "list_all retried rs" and "delivered_bytes rs < len" and "\<not> retried (Inl e)"
  shows "read_siginfo (rs @ Inl e # rs') len = Some False"
  using assms
proof (induction rs arbitrary: len)
  case Nil
  then show ?case by (auto simp: read_siginfo.simps [of "_ # _"] delivered_bytes_def retried_def)
next
  case (Cons r rs)
  then show ?case by (cases r) (auto simp: read_siginfo.simps [of "_ # _"] delivered_bytes_def retried_def)
qed

text \<open>The callback of a signal.\<close>

definition signal_cb :: "int \<Rightarrow> 'z event_loop_scheme \<Rightarrow> nat option" where
  "signal_cb signo s =
     (if signo = SIGINT then sig_int_cb s else if signo = SIGQUIT then sig_quit_cb s
      else if signo = SIGUSR1 then sig_usr1_cb s else if signo = SIGUSR2 then sig_usr2_cb s else None)"

lemma signal_cb_set:
  "signal_cb SIGINT (set_sig_int_cb n s) = Some n" "signal_cb SIGQUIT (set_sig_quit_cb n s) = Some n"
  "signal_cb SIGUSR1 (set_sig_usr1_cb n s) = Some n" "signal_cb SIGUSR2 (set_sig_usr2_cb n s) = Some n"
  "signo \<noteq> SIGINT \<Longrightarrow> signal_cb signo (set_sig_int_cb n s) = signal_cb signo s"
  "signo \<noteq> SIGQUIT \<Longrightarrow> signal_cb signo (set_sig_quit_cb n s) = signal_cb signo s"
  "signo \<noteq> SIGUSR1 \<Longrightarrow> signal_cb signo (set_sig_usr1_cb n s) = signal_cb signo s"
  "signo \<noteq> SIGUSR2 \<Longrightarrow> signal_cb signo (set_sig_usr2_cb n s) = signal_cb signo s"
  by (simp_all add: signal_cb_def set_sig_int_cb_def set_sig_quit_cb_def set_sig_usr1_cb_def set_sig_usr2_cb_def SIGINT_def SIGQUIT_def
      SIGUSR1_def SIGUSR2_def)

text \<open>
  A signal that the loop receives runs the callback that was set for it, and nothing else, also when the read is
  interrupted or delivers the record in pieces; without a callback it is ignored. An error of the read
  is ignored too.
\<close>

theorem signal_dispatch:
  assumes "list_all retried reads" and "signo \<in> {SIGINT, SIGQUIT, SIGUSR1, SIGUSR2}"
  shows "(128 \<le> delivered_bytes reads \<longrightarrow>
      HandleSignal E exec reads signo s = Some (case signal_cb signo s of None \<Rightarrow> Inr s | Some n \<Rightarrow> exec n s)) \<and>
    (delivered_bytes reads < 128 \<longrightarrow> \<not> retried (Inl e) \<longrightarrow> HandleSignal E exec (reads @ Inl e # later) signo s = Some (Inr s))"
  using assms(2) read_siginfo_all [OF assms(1), of 128] read_siginfo_error [OF assms(1), of 128 e later]
  by (auto simp: HandleSignal_def signal_cb_def SIGINT_def SIGQUIT_def SIGUSR1_def SIGUSR2_def split: option.split)

text \<open>\<^verbatim>\<open>SetHandleSingnal\<close> on a loop without a signal channel.\<close>

lemma SetHandleSingnal_ok:
  fixes s :: "'z event_loop_scheme"
  assumes "env_ok E" and "el_inv s" and "sig_channel s = None" and "heap s p = None" and "0 < sfd" and "nat sfd < length (channels s)"
    and "nat sfd \<notin> used s" and "\<forall>p c. heap s p = Some c \<longrightarrow> \<not> ch_handling c"
  shows "succeeds (SetHandleSingnal E True p sfd s) (\<lambda>t. el_inv t \<and> looping t = looping s \<and> sig_channel t = Some p \<and> own_channel p t \<and>
    dom (heap t) = insert p (dom (heap s)) \<and> wakeup_channel t = wakeup_channel s \<and> timer_channel t = timer_channel s \<and>
    wakeupfd t = wakeupfd s \<and> timerfd t = timerfd s \<and> efd t = efd s \<and> sig_fd t = sfd \<and> loop_fds t = loop_fds s @ [sfd] \<and> tqueue t = tqueue s \<and>
    channel_nums t = channel_nums s + 1 \<and> interest t = (interest s)(sfd \<mapsto> (kReadEvent, p)) \<and>
    (\<forall>q c. heap t q = Some c \<longrightarrow> \<not> ch_handling c))"
proof -
  let ?s = "s\<lparr>sig_fd := sfd, loop_fds := loop_fds s @ [sfd]\<rparr>"
  let ?c = "Channel_ctor (Some (loop_self s)) sfd ''''"
  let ?s1 = "?s\<lparr>heap := (heap s)(p \<mapsto> ?c), sig_channel := Some p\<rparr>"
  have el: "ep_inv s" "wakeup_channel s \<noteq> p" "timer_channel s \<noteq> p" using assms(2,4) by (auto simp: el_inv_def own_channel_def)
  have "ep_inv (s\<lparr>heap := (heap s)(p \<mapsto> ?c)\<rparr>)" by (rule ep_inv_heap_new [OF el(1) assms(4-6)])
  then have ep: "ep_inv ?s1" by (rule ep_inv_ext) simp_all
  have free: "channels ?s1 ! nat sfd = None" using assms(6,7) by (simp add: used_def)
  let ?c' = "?c\<lparr>ch_has_read := True\<rparr>"
  let ?t = "registered p ?c' kReadEvent (?s1\<lparr>heap := (heap ?s1)(p \<mapsto> ?c')\<rparr>)"
  have en: "rbind (modify p (\<lambda>c. c\<lparr>ch_has_read := True\<rparr>) ?s1) (EnableReading E p) = Inr ?t" "ep_inv ?t"
    using enable_fresh [OF assms(1) ep, of p ?c sfd "''''"] assms(5,6) free by simp_all
  have "SetHandleSingnal E True p sfd s = Inr ?t"
    using en(1) assms(3,5) by (simp add: SetHandleSingnal_def new_Channel_def)
  moreover have "el_inv ?t" using en(2) assms(2) el(2,3) by (auto simp: el_inv_def own_channel_def registered_def)
  moreover have "own_channel p ?t" by (simp add: own_channel_def registered_def read_event_status)
  moreover have "channel_nums ?t = channel_nums s + 1" by (simp add: registered_def Channel_ctor_def status_defs)
  moreover have "interest ?t = (interest s)(sfd \<mapsto> (kReadEvent, p))"
    by (simp add: registered_def Channel_ctor_def expected_interest_def read_event_status)
  moreover have "dom (heap ?t) = insert p (dom (heap s))" by (auto simp: registered_def)
  moreover have "\<forall>q c. heap ?t q = Some c \<longrightarrow> \<not> ch_handling c" using assms(8) by (auto simp: registered_def Channel_ctor_def)
  ultimately show ?thesis by (simp add: registered_def)
qed

section \<open>Lifetime of a loop\<close>

text \<open>The thread's pointer to its loop.\<close>

definition GetEventLoopOfCurrentThread :: "'z event_loop_scheme \<Rightarrow> addr option" where
  "GetEventLoopOfCurrentThread s = loop_in_thread s"

text \<open>What the constructor does when the kernel refuses a descriptor, or the thread already has a loop.\<close>

lemma new_EventLoop_refused:
  "kw < 0 \<Longrightarrow> new_EventLoop E self tid wp tp prev nw kw ke kt = Inl ProcessExit"
  "0 < kw \<Longrightarrow> ke < 0 \<Longrightarrow> new_EventLoop E self tid wp tp prev nw kw ke kt = Inl ProcessExit"
  "0 < kw \<Longrightarrow> 0 \<le> ke \<Longrightarrow> kt < 0 \<Longrightarrow> \<not> ndebug E \<Longrightarrow> new_EventLoop E self tid wp tp prev nw kw ke kt = Inl AssertionFailed"
  by (simp_all add: new_EventLoop_def CreateWakeupFd_def Epoller_efd_def CreateTimerfd_def EventLoop_ctor_def new_Channel_def dassert_def Let_def)

text \<open>The destructor of a loop with a signal channel and no user channels.\<close>

lemma life_end:
  fixes u :: "'z event_loop_scheme"
  assumes "env_ok E" and "el_inv u" and "\<not> looping u" and "wakeup_channel u = wp" and "timer_channel u = tp" and "sig_channel u = Some sp"
    and "own_channel sp u" and "sp \<noteq> wp" and "sp \<noteq> tp" and "dom (heap u) = {sp, wp, tp}" and "channel_nums u = 3"
    and "\<forall>p c. heap u p = Some c \<longrightarrow> \<not> ch_handling c" and "wakeupfd u = kw" and "timerfd u = kt" and "sig_fd u = ks" and "efd u = ke" and "loop_fds u = [kw, ke, kt, ks]"
    and "distinct [kw, ke, kt, ks]"
  shows "succeeds (EventLoop_dtor E u) (\<lambda>t. loop_fds t = [] \<and> heap t = Map.empty \<and> GetEventLoopOfCurrentThread t = None)"
proof -
  have out: "heap u q = None" if "q \<noteq> wp" "q \<noteq> tp" "q \<noteq> sp" for q using assms(10) that by blast
  show ?thesis
    by (rule succeeds_mono [OF EventLoop_dtor_releases [OF assms(1-3)]])
      (use assms out in \<open>auto simp: fun_eq_iff GetEventLoopOfCurrentThread_def own_fds_def\<close>)
qed

text \<open>
  C25: From its construction to its destruction a loop owns exactly the descriptors that it has opened: those of its
  wakeup channel, its poller (epoll) and its timer queue. The constructor
  ends the process when the kernel refuses the wakeup or the epoll descriptor, fails an assertion when it
  refuses the timer descriptor, and otherwise gives a loop in its invariant that the thread finds; signal handling
  adds one descriptor; the destructor, with or without signal handling, closes all of them, the epoll descriptor
  included, closes none twice (a \<^verbatim>\<open>close\<close> of a descriptor that is not open is the failure \<open>BadDescriptor\<close>), and frees all channels.
\<close>

theorem loop_lifetime:
  assumes "env_ok E" and "\<not> ndebug E" and "wp \<noteq> tp" and "sp \<noteq> wp" and "sp \<noteq> tp" and "0 < kw \<and> 0 \<le> ke \<and> 0 < kt \<longrightarrow> distinct [kw, ke, kt, ks]" and "0 < ks" and "ks < 1048576"
    and "kw \<noteq> 0" and "kw < 1048576" and "kt \<noteq> 0" and "kt < 1048576"
  shows "case new_EventLoop E self tid wp tp None nw kw ke kt of
      Inl err \<Rightarrow> (kw < 0 \<or> ke < 0 \<or> kt < 0) \<and> err = (if 0 < kw \<and> 0 \<le> ke then AssertionFailed else ProcessExit)
    | Inr s \<Rightarrow> 0 < kw \<and> 0 \<le> ke \<and> 0 < kt \<and> el_inv s \<and> loop_fds s = [kw, ke, kt] \<and> GetEventLoopOfCurrentThread s = Some self \<and>
        succeeds (EventLoop_dtor E s) (\<lambda>t. loop_fds t = [] \<and> heap t = Map.empty \<and> GetEventLoopOfCurrentThread t = None) \<and>
        succeeds (SetHandleSingnal E True sp ks s) (\<lambda>u. el_inv u \<and> loop_fds u = [kw, ke, kt, ks] \<and>
          succeeds (EventLoop_dtor E u) (\<lambda>t. loop_fds t = [] \<and> heap t = Map.empty \<and> GetEventLoopOfCurrentThread t = None))"
proof (cases "0 < kw \<and> 0 \<le> ke \<and> 0 < kt")
  case False
  then consider "kw < 0" | "0 < kw" "ke < 0" | "0 < kw" "0 \<le> ke" "kt < 0" using assms(9,11) by linarith
  then show ?thesis by cases (use assms(2) in \<open>simp_all add: new_EventLoop_refused\<close>)
next
  case True
  then have dist: "distinct [kw, ke, kt, ks]" using assms(6) by blast
  from True obtain s where s: "EventLoop_ctor E self tid wp kw ke tp kt None nw = Inr s" "el_inv s" "\<not> looping s" "channel_nums s = 2"
      "sig_channel s = None" "loop_in_thread s = Some self" "wakeup_channel s = wp" "timer_channel s = tp"
      "\<forall>p c. heap s p = Some c \<longrightarrow> \<not> ch_handling c" "dom (heap s) = {wp, tp}" "used s = {nat kw, nat kt}"
      "length (channels s) = kInitTotalChannelSize" "wakeupfd s = kw" "timerfd s = kt" "loop_fds s = [kw, ke, kt]" "efd s = ke"
    using EventLoop_ctor_ok [OF assms(1,3), of kw kt self tid ke nw] dist assms(10,12) by (auto elim!: succeedsE)
  have new: "new_EventLoop E self tid wp tp None nw kw ke kt = Inr s"
    using True s(1) by (simp add: new_EventLoop_def CreateWakeupFd_def Epoller_efd_def CreateTimerfd_def)
  have out: "heap s q = None" if "q \<noteq> wp" "q \<noteq> tp" for q using s(10) that by blast
  have d1: "succeeds (EventLoop_dtor E s) (\<lambda>t. loop_fds t = [] \<and> heap t = Map.empty \<and> GetEventLoopOfCurrentThread t = None)"
    by (rule succeeds_mono [OF EventLoop_dtor_releases [OF assms(1) s(2,3)]])
      (use s dist out in \<open>auto simp: fun_eq_iff GetEventLoopOfCurrentThread_def own_fds_def\<close>)
  have "nat ks \<notin> used s" using dist assms(7) True s(11) by (auto simp: nat_eq_iff2)
  then have sig: "succeeds (SetHandleSingnal E True sp ks s) (\<lambda>u. el_inv u \<and> loop_fds u = [kw, ke, kt, ks] \<and>
      succeeds (EventLoop_dtor E u) (\<lambda>t. loop_fds t = [] \<and> heap t = Map.empty \<and> GetEventLoopOfCurrentThread t = None))"
  proof (intro succeeds_mono [OF SetHandleSingnal_ok [OF assms(1) s(2,5), of sp ks]] conjI)
    fix u assume u: "el_inv u \<and> looping u = looping s \<and> sig_channel u = Some sp \<and> own_channel sp u \<and>
      dom (heap u) = insert sp (dom (heap s)) \<and> wakeup_channel u = wakeup_channel s \<and> timer_channel u = timer_channel s \<and>
      wakeupfd u = wakeupfd s \<and> timerfd u = timerfd s \<and> efd u = efd s \<and> sig_fd u = ks \<and> loop_fds u = loop_fds s @ [ks] \<and>
      tqueue u = tqueue s \<and> channel_nums u = channel_nums s + 1 \<and> interest u = (interest s)(ks \<mapsto> (kReadEvent, sp)) \<and>
      (\<forall>q c. heap u q = Some c \<longrightarrow> \<not> ch_handling c)"
    show "el_inv u" "loop_fds u = [kw, ke, kt, ks]" using u s(15) by simp_all
    show "succeeds (EventLoop_dtor E u) (\<lambda>t. loop_fds t = [] \<and> heap t = Map.empty \<and> GetEventLoopOfCurrentThread t = None)"
      by (rule life_end [OF assms(1), where wp = wp and tp = tp and sp = sp and kw = kw and kt = kt and ks = ks and ke = ke])
        (use u s assms(4,5) dist in \<open>simp_all\<close>)
  qed (use assms(4,5,7,8) s(9,12) out in \<open>simp_all add: kInitTotalChannelSize_def\<close>)
  show ?thesis using new True s(2,6,15) d1 sig by (simp add: GetEventLoopOfCurrentThread_def)
qed

section \<open>Witnesses\<close>

theorem loop_lifetime_witness:
  "\<exists>s. new_EventLoop linux_env 1 7 10 11 None False 5 3 6 = Inr s \<and> loop_fds s = [5, 3, 6] \<and>
     succeeds (EventLoop_dtor linux_env s) (\<lambda>t. loop_fds t = [] \<and> heap t = Map.empty)"
proof -
  have nd: "\<not> ndebug linux_env" by (simp add: linux_env_def)
  note l = loop_lifetime [OF linux_env_ok nd, where wp = 10 and tp = 11 and sp = 12 and kw = 5 and kt = 6 and ks = 8 and self = 1 and tid = 7
      and nw = False and ke = 3]
  obtain s where s: "new_EventLoop linux_env 1 7 10 11 None False 5 3 6 = Inr s"
    using l by (cases "new_EventLoop linux_env 1 7 10 11 None False 5 3 6") auto
  have "loop_fds s = [5, 3, 6]" "succeeds (EventLoop_dtor linux_env s) (\<lambda>t. loop_fds t = [] \<and> heap t = Map.empty \<and> GetEventLoopOfCurrentThread t = None)"
    using l s by simp_all
  then show ?thesis using s by (auto elim: succeeds_mono)
qed

theorem signal_dispatch_witness:
  "\<exists>s :: event_loop. HandleSignal linux_env (\<lambda>n s. Inr (s\<lparr>quit := True\<rparr>)) [Inl EINTR, Inr 100, Inr 28] SIGINT s = Some (Inr (s\<lparr>quit := True\<rparr>)) \<and>
     sig_int_cb s = Some 4"
proof -
  obtain s :: event_loop where "el_inv s" using EventLoop_ctor_ok [OF linux_env_ok, of 10 11 5 6 1 7 3 False] by (auto elim!: succeedsE)
  let ?s = "set_sig_int_cb 4 s"
  have "list_all retried [Inl EINTR, Inr 100, Inr 28]" "128 \<le> delivered_bytes [Inl EINTR, Inr 100, Inr 28]" "signal_cb SIGINT ?s = Some 4"
    by (simp_all add: retried_def delivered_bytes_def signal_cb_set)
  then have "HandleSignal linux_env (\<lambda>n s. Inr (s\<lparr>quit := True\<rparr>)) [Inl EINTR, Inr 100, Inr 28] SIGINT ?s = Some (Inr (?s\<lparr>quit := True\<rparr>))"
    using signal_dispatch [where reads = "[Inl EINTR, Inr 100, Inr 28]" and signo = SIGINT and E = linux_env and s = ?s
        and exec = "\<lambda>n s. Inr (s\<lparr>quit := True\<rparr>)"] by simp
  then show ?thesis by (intro exI [of _ ?s]) (simp add: set_sig_int_cb_def)
qed

end
