(* ===== verification/Logger.thy ===== *)
theory Logger
  imports Prelude
begin

text \<open>
  The logger (\<^verbatim>\<open>logger.h\<close> of the base library: the part that is defined in the header), and the macros of
  \<^verbatim>\<open>net_logger.h\<close>, by which the network library writes to the logger that \<^verbatim>\<open>EventLoop::SetLogger\<close> has set. A message is
  built in a buffer of the heap by \<^verbatim>\<open>vasprintf\<close>, handed to the sinks and freed. \<^verbatim>\<open>WriteToSinks\<close>, whose code is
  not in the repository, is the parameter \<open>W\<close>: a function of the logger's members, the message and its level on
  what the sinks hold. The answer of \<^verbatim>\<open>vasprintf\<close> is the buffer's address with the text, or \<open>None\<close>.
\<close>

section \<open>Levels\<close>

datatype level = TRACE | DEBUG | INFO | WARN | ERROR | CRITICAL | OFF

primrec level_value :: "level \<Rightarrow> nat" where
  "level_value TRACE = 0"
| "level_value DEBUG = 1"
| "level_value INFO = 2"
| "level_value WARN = 3"
| "level_value ERROR = 4"
| "level_value CRITICAL = 5"
| "level_value OFF = 6"

instantiation level :: linorder
begin

definition less_eq_level :: "level \<Rightarrow> level \<Rightarrow> bool" where
  "less_eq_level a b \<longleftrightarrow> level_value a \<le> level_value b"

definition less_level :: "level \<Rightarrow> level \<Rightarrow> bool" where
  "less_level a b \<longleftrightarrow> level_value a < level_value b"

instance
proof
  fix a b :: level
  show "a \<le> b \<Longrightarrow> b \<le> a \<Longrightarrow> a = b" by (cases a; cases b) (simp_all add: less_eq_level_def)
qed (auto simp: less_eq_level_def less_level_def)

end

section \<open>Logger\<close>

record 'w logger =
  lg_level :: level
  lg_flush_level :: level
  lg_slots :: "addr list"
  lg_out :: 'w
  lg_bufs :: "addr \<Rightarrow> string option"

type_synonym 'w sinks = "level \<Rightarrow> level \<Rightarrow> addr list \<Rightarrow> string \<Rightarrow> level \<Rightarrow> 'w \<Rightarrow> 'w"

definition Logger_ctor :: "addr list \<Rightarrow> 'w \<Rightarrow> (addr \<Rightarrow> string option) \<Rightarrow> 'w logger" where
  "Logger_ctor slots w h = \<lparr>lg_level = TRACE, lg_flush_level = ERROR, lg_slots = slots, lg_out = w, lg_bufs = h\<rparr>"

definition Logger_sink_ctor :: "addr \<Rightarrow> 'w \<Rightarrow> (addr \<Rightarrow> string option) \<Rightarrow> 'w logger" where
  "Logger_sink_ctor slot w h = Logger_ctor [slot] w h"

definition set_level :: "level \<Rightarrow> 'w logger \<Rightarrow> 'w logger" where
  "set_level lv s = s\<lparr>lg_level := lv\<rparr>"

definition set_flush_level :: "level \<Rightarrow> 'w logger \<Rightarrow> 'w logger" where
  "set_flush_level lv s = s\<lparr>lg_flush_level := lv\<rparr>"

definition ShouldLog :: "level \<Rightarrow> 'w logger \<Rightarrow> bool" where
  "ShouldLog lv s \<longleftrightarrow> lg_level s \<le> lv"

definition ShouldFlush :: "level \<Rightarrow> 'w logger \<Rightarrow> bool" where
  "ShouldFlush lv s \<longleftrightarrow> lg_flush_level s \<le> lv"

text \<open>The calls on a buffer: the sinks read it, \<^verbatim>\<open>free\<close> gives it back.\<close>

definition WriteToSinks :: "'w sinks \<Rightarrow> addr \<Rightarrow> level \<Rightarrow> 'w logger \<Rightarrow> 'w logger outcome" where
  "WriteToSinks W p lv s =
     (case lg_bufs s p of
        None \<Rightarrow> Inl UseAfterFree
      | Some text \<Rightarrow> Inr (s\<lparr>lg_out := W (lg_level s) (lg_flush_level s) (lg_slots s) text lv (lg_out s)\<rparr>))"

definition free_buffer :: "addr \<Rightarrow> 'w logger \<Rightarrow> 'w logger outcome" where
  "free_buffer p s = (case lg_bufs s p of None \<Rightarrow> Inl UseAfterFree | Some _ \<Rightarrow> Inr (s\<lparr>lg_bufs := (lg_bufs s)(p := None)\<rparr>))"

text \<open>\<^verbatim>\<open>BUILD_LOG\<close>, which returns from the function when \<^verbatim>\<open>vasprintf\<close> fails.\<close>

definition BUILD_LOG :: "(addr \<times> string) option \<Rightarrow> (addr \<Rightarrow> 'w logger \<Rightarrow> 'w logger outcome) \<Rightarrow> 'w logger \<Rightarrow> 'w logger outcome" where
  "BUILD_LOG r rest s =
     (case r of None \<Rightarrow> Inr s | Some (p, text) \<Rightarrow> rest p (s\<lparr>lg_bufs := (lg_bufs s)(p \<mapsto> text)\<rparr>))"

definition Logger_log :: "'w sinks \<Rightarrow> level \<Rightarrow> (addr \<times> string) option \<Rightarrow> 'w logger \<Rightarrow> 'w logger outcome" where
  "Logger_log W lv r s =
     (if \<not> ShouldLog lv s then Inr s
      else BUILD_LOG r (\<lambda>buffer s. rbind (WriteToSinks W buffer lv s) (free_buffer buffer)) s)"

definition Logger_trace :: "'w sinks \<Rightarrow> (addr \<times> string) option \<Rightarrow> 'w logger \<Rightarrow> 'w logger outcome" where
  "Logger_trace W r s =
     (if \<not> ShouldLog TRACE s then Inr s
      else BUILD_LOG r (\<lambda>buffer s. rbind (WriteToSinks W buffer TRACE s) (free_buffer buffer)) s)"

definition Logger_debug :: "'w sinks \<Rightarrow> (addr \<times> string) option \<Rightarrow> 'w logger \<Rightarrow> 'w logger outcome" where
  "Logger_debug W r s =
     (if \<not> ShouldLog DEBUG s then Inr s
      else BUILD_LOG r (\<lambda>buffer s. rbind (WriteToSinks W buffer DEBUG s) (free_buffer buffer)) s)"

definition Logger_info :: "'w sinks \<Rightarrow> (addr \<times> string) option \<Rightarrow> 'w logger \<Rightarrow> 'w logger outcome" where
  "Logger_info W r s =
     (if \<not> ShouldLog INFO s then Inr s
      else BUILD_LOG r (\<lambda>buffer s. rbind (WriteToSinks W buffer INFO s) (free_buffer buffer)) s)"

definition Logger_warn :: "'w sinks \<Rightarrow> (addr \<times> string) option \<Rightarrow> 'w logger \<Rightarrow> 'w logger outcome" where
  "Logger_warn W r s =
     (if \<not> ShouldLog WARN s then Inr s
      else BUILD_LOG r (\<lambda>buffer s. rbind (WriteToSinks W buffer WARN s) (free_buffer buffer)) s)"

definition Logger_error :: "'w sinks \<Rightarrow> (addr \<times> string) option \<Rightarrow> 'w logger \<Rightarrow> 'w logger outcome" where
  "Logger_error W r s =
     (if \<not> ShouldLog ERROR s then Inr s
      else BUILD_LOG r (\<lambda>buffer s. rbind (WriteToSinks W buffer ERROR s) (free_buffer buffer)) s)"

definition Logger_critical :: "'w sinks \<Rightarrow> (addr \<times> string) option \<Rightarrow> 'w logger \<Rightarrow> 'w logger outcome" where
  "Logger_critical W r s =
     (if \<not> ShouldLog CRITICAL s then Inr s
      else BUILD_LOG r (\<lambda>buffer s. rbind (WriteToSinks W buffer CRITICAL s) (free_buffer buffer)) s)"

definition Logger_off :: "'w sinks \<Rightarrow> (addr \<times> string) option \<Rightarrow> 'w logger \<Rightarrow> 'w logger outcome" where
  "Logger_off W r s =
     (if \<not> ShouldLog OFF s then Inr s
      else BUILD_LOG r (\<lambda>buffer s. rbind (WriteToSinks W buffer OFF s) (free_buffer buffer)) s)"

section \<open>The logger of the network library\<close>

text \<open>\<^verbatim>\<open>g_net_logger\<close> is a pointer to a logger or null; the macros do nothing when it is null.\<close>

definition SetLogger :: "'w logger option \<Rightarrow> 'w logger option \<Rightarrow> 'w logger option" where
  "SetLogger logger g_net_logger = logger"

definition if_logger :: "('w logger \<Rightarrow> 'w logger outcome) \<Rightarrow> 'w logger option \<Rightarrow> 'w logger option outcome" where
  "if_logger f g = (case g of None \<Rightarrow> Inr None | Some l \<Rightarrow> rbind (f l) (\<lambda>l. Inr (Some l)))"

definition NetLogger_trace :: "'w sinks \<Rightarrow> (addr \<times> string) option \<Rightarrow> 'w logger option \<Rightarrow> 'w logger option outcome" where
  "NetLogger_trace W r g = if_logger (Logger_trace W r) g"

definition NetLogger_debug :: "'w sinks \<Rightarrow> (addr \<times> string) option \<Rightarrow> 'w logger option \<Rightarrow> 'w logger option outcome" where
  "NetLogger_debug W r g = if_logger (Logger_debug W r) g"

definition NetLogger_info :: "'w sinks \<Rightarrow> (addr \<times> string) option \<Rightarrow> 'w logger option \<Rightarrow> 'w logger option outcome" where
  "NetLogger_info W r g = if_logger (Logger_info W r) g"

definition NetLogger_warn :: "'w sinks \<Rightarrow> (addr \<times> string) option \<Rightarrow> 'w logger option \<Rightarrow> 'w logger option outcome" where
  "NetLogger_warn W r g = if_logger (Logger_warn W r) g"

definition NetLogger_error :: "'w sinks \<Rightarrow> (addr \<times> string) option \<Rightarrow> 'w logger option \<Rightarrow> 'w logger option outcome" where
  "NetLogger_error W r g = if_logger (Logger_error W r) g"

definition NetLogger_critical :: "'w sinks \<Rightarrow> (addr \<times> string) option \<Rightarrow> 'w logger option \<Rightarrow> 'w logger option outcome" where
  "NetLogger_critical W r g = if_logger (Logger_critical W r) g"

definition NetLogger_off :: "'w sinks \<Rightarrow> (addr \<times> string) option \<Rightarrow> 'w logger option \<Rightarrow> 'w logger option outcome" where
  "NetLogger_off W r g = if_logger (Logger_off W r) g"

section \<open>Properties\<close>

text \<open>The seven functions are \<^verbatim>\<open>log\<close> at their level.\<close>

lemma Logger_levels:
  "Logger_trace W = Logger_log W TRACE" "Logger_debug W = Logger_log W DEBUG" "Logger_info W = Logger_log W INFO"
  "Logger_warn W = Logger_log W WARN" "Logger_error W = Logger_log W ERROR" "Logger_critical W = Logger_log W CRITICAL"
  "Logger_off W = Logger_log W OFF"
  by (simp_all add: fun_eq_iff Logger_log_def Logger_trace_def Logger_debug_def Logger_info_def Logger_warn_def Logger_error_def
      Logger_critical_def Logger_off_def)

primrec NetLogger :: "level \<Rightarrow> 'w sinks \<Rightarrow> (addr \<times> string) option \<Rightarrow> 'w logger option \<Rightarrow> 'w logger option outcome" where
  "NetLogger TRACE = NetLogger_trace"
| "NetLogger DEBUG = NetLogger_debug"
| "NetLogger INFO = NetLogger_info"
| "NetLogger WARN = NetLogger_warn"
| "NetLogger ERROR = NetLogger_error"
| "NetLogger CRITICAL = NetLogger_critical"
| "NetLogger OFF = NetLogger_off"

lemma NetLogger_eq: "NetLogger lv W r g = if_logger (Logger_log W lv r) g"
  by (cases lv) (simp_all add: NetLogger_trace_def NetLogger_debug_def NetLogger_info_def NetLogger_warn_def NetLogger_error_def
      NetLogger_critical_def NetLogger_off_def Logger_levels)

text \<open>A program of log statements, and the messages of it that the sinks are to get.\<close>

fun run_log :: "'w sinks \<Rightarrow> (level \<times> (addr \<times> string) option) list \<Rightarrow> 'w logger option \<Rightarrow> 'w logger option outcome" where
  "run_log W [] g = Inr g"
| "run_log W ((lv, r) # cs) g = rbind (NetLogger lv W r g) (run_log W cs)"

fun shown :: "level \<Rightarrow> (level \<times> (addr \<times> string) option) list \<Rightarrow> (level \<times> string) list" where
  "shown l [] = []"
| "shown l ((lv, Some (p, text)) # cs) = (if l \<le> lv then [(lv, text)] else []) @ shown l cs"
| "shown l ((lv, None) # cs) = shown l cs"

definition fresh_buffers :: "(level \<times> (addr \<times> string) option) list \<Rightarrow> 'w logger \<Rightarrow> bool" where
  "fresh_buffers cs l \<longleftrightarrow> list_all (\<lambda>(lv, r). case r of None \<Rightarrow> True | Some (p, text) \<Rightarrow> lg_bufs l p = None) cs"

lemma Logger_log_eq:
  "Logger_log W lv None l = Inr l"
  "lg_bufs l p = None \<Longrightarrow> Logger_log W lv (Some (p, text)) l =
     Inr (if lg_level l \<le> lv then l\<lparr>lg_out := W (lg_level l) (lg_flush_level l) (lg_slots l) text lv (lg_out l)\<rparr> else l)"
proof -
  assume "lg_bufs l p = None"
  then have "(lg_bufs l)(p := None) = lg_bufs l" by (simp add: fun_upd_idem)
  then show "Logger_log W lv (Some (p, text)) l =
     Inr (if lg_level l \<le> lv then l\<lparr>lg_out := W (lg_level l) (lg_flush_level l) (lg_slots l) text lv (lg_out l)\<rparr> else l)"
    by (simp add: Logger_log_def ShouldLog_def BUILD_LOG_def WriteToSinks_def free_buffer_def)
qed (simp add: Logger_log_def BUILD_LOG_def)

text \<open>
  C35: Log statements filter exactly: the sinks get the messages of at least the logger's level, in order and with their
  levels, and no others; a message that cannot be built is skipped; every buffer is freed, and
  without a logger nothing happens.
\<close>

theorem log_filters:
  assumes "\<forall>l. g = Some l \<longrightarrow> fresh_buffers cs l"
  shows "run_log W cs g = Inr (map_option (\<lambda>l.
    l\<lparr>lg_out := fold (\<lambda>(lv, text). W (lg_level l) (lg_flush_level l) (lg_slots l) text lv) (shown (lg_level l) cs) (lg_out l)\<rparr>) g)"
proof (cases g)
  case None
  have "run_log W cs None = Inr None" by (induction cs) (auto simp: NetLogger_eq if_logger_def)
  then show ?thesis using None by simp
next
  case (Some l)
  have "run_log W cs (Some l) = Inr (Some (l\<lparr>lg_out := fold (\<lambda>(lv, text). W (lg_level l) (lg_flush_level l) (lg_slots l) text lv)
      (shown (lg_level l) cs) (lg_out l)\<rparr>))" if "fresh_buffers cs l"
    using that
  proof (induction cs arbitrary: l)
    case (Cons c cs)
    then show ?case
      by (cases c; cases "snd c") (auto simp: NetLogger_eq if_logger_def Logger_log_eq fresh_buffers_def)
  qed simp
  then show ?thesis using assms Some by simp
qed

text \<open>The highest level silences all messages but those of \<^verbatim>\<open>off\<close>, which no level silences.\<close>

lemma off_always_shown: "shown OFF [(lv, Some (p, text))] = (if lv = OFF then [(lv, text)] else [])" "lg_level l \<le> OFF"
  by (cases lv; simp add: less_eq_level_def) (cases "lg_level l"; simp add: less_eq_level_def)

section \<open>Witnesses\<close>

theorem log_filters_witness:
  "run_log (\<lambda>l f slots text lv out. out @ [text]) [(DEBUG, Some (9, ''a'')), (WARN, None), (ERROR, Some (9, ''b''))]
     (Some (set_level WARN (Logger_sink_ctor 3 [] Map.empty))) =
   Inr (Some (set_level WARN (Logger_sink_ctor 3 [''b''] Map.empty)))"
proof -
  let ?l = "set_level WARN (Logger_sink_ctor 3 [] Map.empty)"
  have "\<forall>l. Some ?l = Some l \<longrightarrow> fresh_buffers [(DEBUG, Some (9, ''a'')), (WARN, None), (ERROR, Some (9, ''b''))] l"
    by (simp add: fresh_buffers_def set_level_def Logger_sink_ctor_def Logger_ctor_def)
  from log_filters [OF this, of "\<lambda>l f slots text lv out. out @ [text]"] show ?thesis
    by (simp add: set_level_def Logger_sink_ctor_def Logger_ctor_def less_eq_level_def)
qed

end
