(* ===== verification/ThreadLocal.thy ===== *)
theory ThreadLocal
  imports Prelude
begin

text \<open>
  Thread-local data: the template \<^verbatim>\<open>ThreadLocal\<close> (\<^verbatim>\<open>thread_local.h\<close>) over the keys of POSIX threads, and the cached
  thread number (\<^verbatim>\<open>CurrentThread::tid\<close> of \<^verbatim>\<open>thread.h\<close>). A key holds a pointer per thread; when a thread ends, the
  destructor of the key is called on its pointer, if it is not null. Whether \<^verbatim>\<open>pthread_key_create\<close>, \<^verbatim>\<open>pthread_setspecific\<close>
  and \<^verbatim>\<open>pthread_key_delete\<close> succeed are parameters, as is the allocator \<open>al\<close>.
\<close>

section \<open>ThreadLocal\<close>

record 'a thread_local =
  tl_heap :: "addr \<Rightarrow> 'a option"
  tl_slot :: "nat \<Rightarrow> addr option"

definition ThreadLocal_ctor :: "bool \<Rightarrow> bool \<Rightarrow> (addr \<Rightarrow> 'a option) \<Rightarrow> 'a thread_local outcome" where
  "ThreadLocal_ctor nd created h =
     rbind (if \<not> created then (if nd then Inr () else Inl AssertionFailed) else Inr ()) (\<lambda>_.
       Inr \<lparr>tl_heap = h, tl_slot = (\<lambda>_. None)\<rparr>)"

text \<open>Deleting the key forgets the pointers and calls no destructor.\<close>

definition ThreadLocal_dtor :: "bool \<Rightarrow> bool \<Rightarrow> 'a thread_local \<Rightarrow> 'a thread_local outcome" where
  "ThreadLocal_dtor nd deleted s =
     rbind (if \<not> deleted then (if nd then Inr () else Inl AssertionFailed) else Inr ()) (\<lambda>_.
       Inr (s\<lparr>tl_slot := (\<lambda>_. None)\<rparr>))"

definition tl_delete :: "addr \<Rightarrow> 'a thread_local \<Rightarrow> 'a thread_local outcome" where
  "tl_delete p s = (case tl_heap s p of None \<Rightarrow> Inl UseAfterFree | Some _ \<Rightarrow> Inr (s\<lparr>tl_heap := (tl_heap s)(p := None)\<rparr>))"

text \<open>\<^verbatim>\<open>value\<close> on thread \<open>t\<close>: the address that the reference it returns refers to; \<open>init\<close> is \<^verbatim>\<open>T()\<close>, \<open>ok\<close> the success of
  \<^verbatim>\<open>pthread_setspecific\<close>, \<open>nd\<close> tells whether assertions are compiled out.\<close>

definition ThreadLocal_value :: "bool \<Rightarrow> bool \<Rightarrow> ((addr \<Rightarrow> 'a option) \<Rightarrow> addr) \<Rightarrow> 'a \<Rightarrow> nat \<Rightarrow> 'a thread_local \<Rightarrow> (addr \<times> 'a thread_local) outcome" where
  "ThreadLocal_value nd ok al init t s =
     rbind
       (case tl_slot s t of
          Some val \<Rightarrow> Inr (Some val, s)
        | None \<Rightarrow>
            let val = al (tl_heap s); s = s\<lparr>tl_heap := (tl_heap s)(val \<mapsto> init)\<rparr> in
            if ok then Inr (Some val, s\<lparr>tl_slot := (tl_slot s)(t := Some val)\<rparr>)
            else rbind (if nd then Inr () else Inl AssertionFailed) (\<lambda>_. rbind (tl_delete val s) (\<lambda>s. Inr (None, s))))
       (\<lambda>(val, s). case val of None \<Rightarrow> Inl NullDereference | Some p \<Rightarrow> Inr (p, s))"

definition ThreadLocal_Destructor :: "bool \<Rightarrow> addr option \<Rightarrow> 'a thread_local \<Rightarrow> 'a thread_local outcome" where
  "ThreadLocal_Destructor nd val s =
     (case val of
        None \<Rightarrow> if nd then Inr s else Inl AssertionFailed
      | Some p \<Rightarrow> tl_delete p s)"

text \<open>The end of a thread.\<close>

definition thread_exit :: "bool \<Rightarrow> nat \<Rightarrow> 'a thread_local \<Rightarrow> 'a thread_local outcome" where
  "thread_exit nd t s =
     (let val = tl_slot s t; s = s\<lparr>tl_slot := (tl_slot s)(t := None)\<rparr>
      in if val = None then Inr s else ThreadLocal_Destructor nd val s)"

section \<open>The cached thread number\<close>

text \<open>\<open>cache_tid\<close> is \<^verbatim>\<open>CacheTid\<close>, whose code is not in the repository, on the cells \<^verbatim>\<open>t_cache_tid\<close> of the threads.\<close>

definition CurrentThread_tid :: "(nat \<Rightarrow> (nat \<Rightarrow> int) \<Rightarrow> nat \<Rightarrow> int) \<Rightarrow> nat \<Rightarrow> (nat \<Rightarrow> int) \<Rightarrow> int \<times> (nat \<Rightarrow> int)" where
  "CurrentThread_tid cache_tid t cells =
     (let cells = (if 0 = cells t then cache_tid t cells else cells) in (cells t, cells))"

definition caches :: "(nat \<Rightarrow> int) \<Rightarrow> (nat \<Rightarrow> (nat \<Rightarrow> int) \<Rightarrow> nat \<Rightarrow> int) \<Rightarrow> bool" where
  "caches gettid cache_tid \<longleftrightarrow> (\<forall>t cells. cache_tid t cells = cells(t := gettid t)) \<and> (\<forall>t. 0 < gettid t)"

lemma tid_stable:
  assumes "caches gettid cache_tid" and "\<forall>t. cells t = 0 \<or> cells t = gettid t"
  shows "case CurrentThread_tid cache_tid t cells of (i, cells') \<Rightarrow> i = gettid t \<and> (\<forall>u. cells' u = 0 \<or> cells' u = gettid u) \<and>
    CurrentThread_tid cache_tid t cells' = (i, cells')"
proof -
  have "0 < gettid t" using assms(1) by (simp add: caches_def)
  then show ?thesis using assms(2) assms(1) by (auto simp: CurrentThread_tid_def caches_def Let_def)
qed

section \<open>Refinement\<close>

text \<open>Each live thread that has used the object owns a cell of the heap of its own; \<open>h0\<close> is the heap of everything else.\<close>

definition tl_inv :: "(addr \<Rightarrow> 'a option) \<Rightarrow> 'a thread_local \<Rightarrow> bool" where
  "tl_inv h0 s \<longleftrightarrow>
     (\<forall>t p. tl_slot s t = Some p \<longrightarrow> h0 p = None \<and> tl_heap s p \<noteq> None) \<and>
     (\<forall>t u p. tl_slot s t = Some p \<longrightarrow> tl_slot s u = Some p \<longrightarrow> t = u) \<and>
     (\<forall>p. (\<forall>t. tl_slot s t \<noteq> Some p) \<longrightarrow> tl_heap s p = h0 p)"

definition tl_abs :: "'a \<Rightarrow> 'a thread_local \<Rightarrow> nat \<Rightarrow> 'a" where
  "tl_abs init s t = (case tl_slot s t of None \<Rightarrow> init | Some p \<Rightarrow> the (tl_heap s p))"

text \<open>What threads do with the object: read it, assign to it through the reference, and end.\<close>

datatype 'a tl_op = TlRead nat | TlWrite nat 'a | TlExit nat

definition tl_step :: "bool \<Rightarrow> ((addr \<Rightarrow> 'a option) \<Rightarrow> addr) \<Rightarrow> 'a \<Rightarrow> 'a tl_op \<Rightarrow> 'a thread_local \<Rightarrow> ('a option \<times> 'a thread_local) outcome" where
  "tl_step nd al init a s =
     (case a of
        TlRead t \<Rightarrow> rbind (ThreadLocal_value nd True al init t s) (\<lambda>(p, s). Inr (tl_heap s p, s))
      | TlWrite t x \<Rightarrow> rbind (ThreadLocal_value nd True al init t s) (\<lambda>(p, s). Inr (None, s\<lparr>tl_heap := (tl_heap s)(p \<mapsto> x)\<rparr>))
      | TlExit t \<Rightarrow> rbind (thread_exit nd t s) (\<lambda>s. Inr (None, s)))"

fun tl_run :: "bool \<Rightarrow> ((addr \<Rightarrow> 'a option) \<Rightarrow> addr) \<Rightarrow> 'a \<Rightarrow> 'a tl_op list \<Rightarrow> 'a thread_local \<Rightarrow> ('a option list \<times> 'a thread_local) outcome" where
  "tl_run nd al init [] s = Inr ([], s)"
| "tl_run nd al init (a # as) s =
     rbind (tl_step nd al init a s) (\<lambda>(r, s). rbind (tl_run nd al init as s) (\<lambda>(rs, s). Inr (r # rs, s)))"

text \<open>The specification: a variable per thread.\<close>

fun var_step :: "'a \<Rightarrow> 'a tl_op \<Rightarrow> (nat \<Rightarrow> 'a) \<Rightarrow> 'a option \<times> (nat \<Rightarrow> 'a)" where
  "var_step init (TlRead t) v = (Some (v t), v)"
| "var_step init (TlWrite t x) v = (None, v(t := x))"
| "var_step init (TlExit t) v = (None, v(t := init))"

fun var_run :: "'a \<Rightarrow> 'a tl_op list \<Rightarrow> (nat \<Rightarrow> 'a) \<Rightarrow> 'a option list \<times> (nat \<Rightarrow> 'a)" where
  "var_run init [] v = ([], v)"
| "var_run init (a # as) v = (let (r, v) = var_step init a v; (rs, v) = var_run init as v in (r # rs, v))"

lemma tl_inv_unused:
  assumes "tl_inv h0 s" and "tl_heap s p = None"
  shows "h0 p = None" "tl_slot s t \<noteq> Some p"
proof -
  have a: "tl_slot s u \<noteq> Some p" for u using assms unfolding tl_inv_def by metis
  then show "tl_slot s t \<noteq> Some p" .
  show "h0 p = None" using a assms unfolding tl_inv_def by metis
qed

text \<open>\<^verbatim>\<open>value\<close> refers to the thread's own cell, which it creates on the first call.\<close>

lemma tl_value_ok:
  assumes "alloc_fresh al" and "tl_inv h0 s" and "finite (dom (tl_heap s))"
  obtains p s' where "ThreadLocal_value nd True al init t s = Inr (p, s')" "tl_inv h0 s'" "finite (dom (tl_heap s'))" "tl_slot s' t = Some p"
    "tl_heap s' p = Some (tl_abs init s t)" "tl_abs init s' = tl_abs init s"
proof (cases "tl_slot s t")
  case (Some p)
  then have "tl_heap s p \<noteq> None" using assms(2) by (auto simp: tl_inv_def)
  then show ?thesis using that [of p s] Some assms(2,3) by (auto simp: ThreadLocal_value_def tl_abs_def)
next
  case None
  let ?p = "al (tl_heap s)"
  let ?s = "s\<lparr>tl_heap := (tl_heap s)(?p \<mapsto> init), tl_slot := (tl_slot s)(t := Some ?p)\<rparr>"
  have p: "tl_heap s ?p = None" using assms(1,3) by (simp add: alloc_fresh_def)
  note u = tl_inv_unused [OF assms(2) p]
  have "tl_inv h0 ?s" using assms(2) u None unfolding tl_inv_def by (auto split: if_splits) (metis option.distinct(1))
  moreover have "tl_abs init ?s = tl_abs init s" using u None by (auto simp: tl_abs_def fun_eq_iff split: option.split)
  ultimately show ?thesis using that [of ?p ?s] None assms(3) by (simp add: ThreadLocal_value_def tl_abs_def Let_def)
qed

lemma tl_write_ok:
  assumes "tl_inv h0 s" and "tl_slot s t = Some p"
  shows "tl_inv h0 (s\<lparr>tl_heap := (tl_heap s)(p \<mapsto> x)\<rparr>)" "tl_abs init (s\<lparr>tl_heap := (tl_heap s)(p \<mapsto> x)\<rparr>) = (tl_abs init s)(t := x)"
proof -
  show "tl_inv h0 (s\<lparr>tl_heap := (tl_heap s)(p \<mapsto> x)\<rparr>)" using assms by (auto simp: tl_inv_def)
  have "tl_slot s u \<noteq> Some p" if "u \<noteq> t" for u using assms that by (auto simp: tl_inv_def)
  then show "tl_abs init (s\<lparr>tl_heap := (tl_heap s)(p \<mapsto> x)\<rparr>) = (tl_abs init s)(t := x)"
    using assms(2) by (auto simp: tl_abs_def fun_eq_iff split: option.split)
qed

lemma tl_exit_ok:
  assumes "tl_inv h0 s" and "finite (dom (tl_heap s))"
  obtains s' where "thread_exit nd t s = Inr s'" "tl_inv h0 s'" "finite (dom (tl_heap s'))" "tl_abs init s' = (tl_abs init s)(t := init)"
proof (cases "tl_slot s t")
  case None
  then have "s\<lparr>tl_slot := (tl_slot s)(t := None)\<rparr> = s" by (simp add: fun_upd_idem)
  moreover have "(tl_abs init s)(t := init) = tl_abs init s" using None by (intro fun_upd_idem) (simp add: tl_abs_def)
  ultimately show ?thesis using that [of s] None assms by (simp add: thread_exit_def)
next
  case (Some p)
  let ?s = "s\<lparr>tl_slot := (tl_slot s)(t := None), tl_heap := (tl_heap s)(p := None)\<rparr>"
  have o: "tl_slot s u \<noteq> Some p" if "u \<noteq> t" for u using assms(1) Some that by (auto simp: tl_inv_def)
  have "tl_heap s p \<noteq> None" "h0 p = None" using assms(1) Some by (auto simp: tl_inv_def)
  then have "thread_exit nd t s = Inr ?s" using Some by (auto simp: thread_exit_def ThreadLocal_Destructor_def tl_delete_def)
  moreover have "tl_inv h0 ?s" using assms(1) o Some \<open>h0 p = None\<close> unfolding tl_inv_def by (auto split: if_splits) (metis option.inject)
  moreover have "tl_abs init ?s = (tl_abs init s)(t := init)" using o by (auto simp: tl_abs_def fun_eq_iff split: option.split)
  ultimately show ?thesis using that assms(2) by simp
qed

lemma tl_step_ok:
  assumes "alloc_fresh al" and "tl_inv h0 s" and "finite (dom (tl_heap s))"
  obtains s' where "tl_step nd al init a s = Inr (fst (var_step init a (tl_abs init s)), s')" "tl_inv h0 s'" "finite (dom (tl_heap s'))"
    "tl_abs init s' = snd (var_step init a (tl_abs init s))"
proof (cases a)
  case (TlRead t)
  then show ?thesis using that by (rule_tac tl_value_ok [OF assms, of nd init t]) (simp add: tl_step_def)
next
  case (TlWrite t x)
  then show ?thesis using that tl_write_ok by (rule_tac tl_value_ok [OF assms, of nd init t]) (fastforce simp: tl_step_def)
next
  case (TlExit t)
  then show ?thesis using that by (rule_tac tl_exit_ok [OF assms(2,3), of nd t init]) (simp add: tl_step_def)
qed

lemma tl_run_ok:
  assumes "alloc_fresh al" and "tl_inv h0 s" and "finite (dom (tl_heap s))"
  shows "succeeds (tl_run nd al init as s) (\<lambda>(rs, s'). rs = fst (var_run init as (tl_abs init s)) \<and>
    tl_abs init s' = snd (var_run init as (tl_abs init s)) \<and> tl_inv h0 s')"
  using assms(2,3)
proof (induction as arbitrary: s)
  case Nil
  then show ?case by simp
next
  case (Cons a as)
  obtain s1 where s1: "tl_step nd al init a s = Inr (fst (var_step init a (tl_abs init s)), s1)" "tl_inv h0 s1" "finite (dom (tl_heap s1))"
      "tl_abs init s1 = snd (var_step init a (tl_abs init s))"
    by (rule tl_step_ok [OF assms(1) Cons.prems])
  show ?case using Cons.IH [OF s1(2,3)] s1(1,4) by (auto simp: case_prod_beta elim!: succeedsE)
qed

section \<open>Properties\<close>

text \<open>
  C33: A \<^verbatim>\<open>ThreadLocal\<close> object is a variable per thread: in every interleaving of threads that read it, assign to
  it and end, each read gives what the same thread assigned last, or \<^verbatim>\<open>T()\<close> when it has not; no freed object
  is used, the objects of different threads are different ones, and the end of a thread frees its object.
\<close>

theorem thread_local_refines_variables:
  assumes "alloc_fresh al" and "finite (dom h)"
  shows "succeeds (rbind (ThreadLocal_ctor nd True h) (tl_run nd al init as)) (\<lambda>(rs, s).
    rs = fst (var_run init as (\<lambda>_. init)) \<and> tl_abs init s = snd (var_run init as (\<lambda>_. init)) \<and> tl_inv h s \<and>
    ((\<forall>t. tl_slot s t = None) \<longrightarrow> tl_heap s = h))"
proof -
  let ?s = "\<lparr>tl_heap = h, tl_slot = (\<lambda>_. None)\<rparr>"
  have "tl_inv h ?s" "tl_abs init ?s = (\<lambda>_. init)" by (simp_all add: tl_inv_def tl_abs_def fun_eq_iff)
  then have "succeeds (tl_run nd al init as ?s) (\<lambda>(rs, s). rs = fst (var_run init as (\<lambda>_. init)) \<and>
      tl_abs init s = snd (var_run init as (\<lambda>_. init)) \<and> tl_inv h s)"
    using tl_run_ok [OF assms(1), of h ?s nd init as] assms(2) by simp
  moreover have "tl_heap s = h" if "tl_inv h s" "\<forall>t. tl_slot s t = None" for s using that by (auto simp: tl_inv_def)
  ultimately show ?thesis by (auto simp: ThreadLocal_ctor_def elim!: succeedsE)
qed

text \<open>Destroying the object itself leaves behind the objects of the threads that still run.\<close>

theorem ThreadLocal_dtor_leaks:
  assumes "tl_inv h0 s" and "tl_slot s t = Some p"
  shows "succeeds (ThreadLocal_dtor nd True s) (\<lambda>s'. tl_heap s' p \<noteq> None \<and> h0 p = None \<and> (\<forall>u. tl_slot s' u = None))"
  using assms by (auto simp: ThreadLocal_dtor_def tl_inv_def)

text \<open>When \<^verbatim>\<open>pthread_setspecific\<close> fails, \<^verbatim>\<open>value\<close> fails its assertion, or, without assertions, returns a reference to null.\<close>

lemma value_without_key:
  assumes "tl_slot s t = None"
  shows "ThreadLocal_value nd False al init t s = Inl (if nd then NullDereference else AssertionFailed)"
  using assms by (simp add: ThreadLocal_value_def tl_delete_def Let_def)

section \<open>Witness\<close>

theorem thread_local_refines_variables_witness:
  "succeeds (rbind (ThreadLocal_ctor False True Map.empty) (tl_run False next_address (0 :: int)
     [TlWrite 1 5, TlRead 2, TlRead 1, TlExit 1, TlRead 1])) (\<lambda>(rs, s). rs = [None, Some 0, Some 5, None, Some 0])"
  by (rule succeeds_mono [OF thread_local_refines_variables [OF next_address_fresh]]) auto

end
