(* ===== verification/Spec2Isabelle.thy ===== *)
theory Spec2Isabelle
  imports Buffer Channel Epoller TimerQueue EventLoop TCPConnection_Runs InetAddress EventLoopThread EventLoopThreadPool Socket Acceptor TCPServer
    TCPConnector Connector TCPClient Datagram UDPWorker UDPFlow Any TCPInfo TCPStream
    EventLoop_Life Logger ThreadLocal
begin

text \<open>
  A verification of a reactor network library for Linux (directory \<^verbatim>\<open>src\<close> of the repository).

  \<^bold>\<open>The program.\<close> An event loop per thread (\<^verbatim>\<open>EventLoop\<close>) waits in a poller (\<^verbatim>\<open>Poller\<close>, \<^verbatim>\<open>Epoller\<close>) for
  the descriptors of its channels (\<^verbatim>\<open>Channel\<close>), calls the channels that are ready, and then runs the
  tasks that this and other threads have queued; other threads wake it by an eventfd. Timers
  (\<^verbatim>\<open>Timer\<close>, \<^verbatim>\<open>TimerQueue\<close>) are a channel of the loop on a timerfd. A \<^verbatim>\<open>TCPConnection\<close> is a channel with an
  input and an output \<^verbatim>\<open>Buffer\<close>. An \<^verbatim>\<open>Acceptor\<close> gives connections to a \<^verbatim>\<open>TCPServer\<close>, which spreads them over
  the loops of an \<^verbatim>\<open>EventLoopThreadPool\<close> of \<^verbatim>\<open>EventLoopThread\<close>s; a \<^verbatim>\<open>TCPConnector\<close> (and the older
  \<^verbatim>\<open>Connector\<close>) gives a connection to a \<^verbatim>\<open>TCPClient\<close>. A \<^verbatim>\<open>UDPServer\<close> reads datagrams in a loop
  (\<^verbatim>\<open>UDPReceiver\<close>) and hands them to worker threads (\<^verbatim>\<open>UDPWorkder\<close>) through a \<^verbatim>\<open>PacketQueue\<close>.

  \<^bold>\<open>How code becomes definitions.\<close> A class is a \<^theory_text>\<open>record\<close> with the class's members; where an object lives in a loop its
  record extends the loop's, so that its methods change the poller and the tasks of the same state.
  Methods are functions on the record with the code's names (prefixed by the class where two classes
  share a name), which return an outcome: \<open>Inr\<close> the result, or \<open>Inl\<close> an error for a failing
  \<^verbatim>\<open>assert\<close>, an index out of range, a use of a freed object, and so on (theory \<open>Prelude\<close>). Failing
  \<^verbatim>\<open>assert\<close>s of code that may be compiled with \<^verbatim>\<open>NDEBUG\<close> depend on \<open>ndebug\<close> of the environment.
  Heap objects have addresses (\<open>addr\<close>), the heap is a partial function and \<^verbatim>\<open>delete\<close> removes an entry, so a
  dangling pointer is an error value. Threads are steps of an inductive relation; a method that other threads can observe in
  between is cut at its unlocked points. What the kernel, the allocator, the clock and the user's callbacks answer
  are parameters (records \<open>poller_env\<close>, \<open>conn_env\<close>, \<open>sock_env\<close>, \<open>ctr_env\<close>, \<open>dgram_env\<close>), with
  named hypotheses for what they promise (\<open>env_ok\<close>, \<open>send_ok\<close>, \<open>keepalive_kernel\<close>, \<open>names_ok\<close>, \<open>sockopts_ok\<close>),
  and each property that has such a hypothesis has a witness in which it holds. Variables that have no counterpart in the code and
  only record what happened (\<open>sent\<close>, \<open>accepted\<close>, \<open>trace\<close>, \<open>wk_pushed\<close>, \<open>ct_open\<close> and others) are named as such.

  \<^bold>\<open>The theories.\<close>
  \<^item> \<open>Prelude\<close>: outcomes and the calculus of \<open>succeeds\<close>, machine types, allocation, shared list facts.
    \<open>Byte_Order\<close>: integers and their bytes in network order.
  \<^item> \<open>Buffer\<close> (\<^verbatim>\<open>buffer.h\<close>, \<^verbatim>\<open>buffer.cc\<close>): every operation; the locale of a byte queue, which the
    buffer refines; integers and lines in the buffer; reading from a descriptor.
  \<^item> \<open>Channel\<close> and \<open>Epoller\<close> (\<^verbatim>\<open>channel.h\<close>, \<^verbatim>\<open>channel.cc\<close>, \<^verbatim>\<open>poller.h\<close>, \<^verbatim>\<open>poller.cc\<close>, \<^verbatim>\<open>epoller.h\<close>,
    \<^verbatim>\<open>epoller.cc\<close>): the registration state machine of a channel, the slot table, polling and dispatch. The invariant
    \<open>ep_inv\<close> ties table, channels and the kernel's interest list together.
  \<^item> \<open>Timestamp\<close> (\<^verbatim>\<open>timestamp.h\<close>): points of time and their operators. \<open>Std_Set\<close> and \<open>TimerQueue\<close> (\<^verbatim>\<open>timer.h\<close>, \<^verbatim>\<open>timer_id.h\<close>, \<^verbatim>\<open>timer_queue.h\<close>, \<^verbatim>\<open>timer_queue.cc\<close>): \<^verbatim>\<open>std::set\<close> as a
    sorted list behind a locale; the two sets of timers and the heap, expiry, rescheduling and cancellation with callbacks that use
    the queue.
  \<^item> \<open>EventLoop\<close> (\<^verbatim>\<open>event_loop.h\<close>, \<^verbatim>\<open>event_loop.cc\<close>): construction, tasks, wakeup, signals, the loop, and its interleaving
    with other threads (\<open>sys_step\<close>). \<open>EventLoop_Life\<close>: the descriptors of a loop from its construction to its destruction, and signals from the
    mask that the program sets at its start to the callback.
  \<^item> \<open>Logger\<close> (\<^verbatim>\<open>logger.h\<close>, \<^verbatim>\<open>net_logger.h\<close>): levels, the log functions with their buffers, the library's logger. \<open>ThreadLocal\<close>
    (\<^verbatim>\<open>thread_local.h\<close>, \<^verbatim>\<open>thread.h\<close>): objects per thread over the keys of POSIX threads.
  \<^item> \<open>TCPConnection\<close>, \<open>TCPConnection_Runs\<close> (\<^verbatim>\<open>tcp_connection.h\<close>, \<^verbatim>\<open>tcp_connection.cc\<close>): the operations and their
    invariant; runs with arbitrary callbacks, the output stream, the order of callbacks.
  \<^item> \<open>Any\<close> (\<^verbatim>\<open>any.h\<close>): the value that a connection carries for its user, with its ownership of memory.
  \<^item> \<open>TCPStream\<close>: two connections and the stream between them, from the sender's \<^verbatim>\<open>Send\<close> to the receiver's callback.
  \<^item> \<open>InetAddress\<close>, \<open>Socket\<close>, \<open>Acceptor\<close> (\<^verbatim>\<open>inet_address\<close>, \<^verbatim>\<open>socket\<close>, \<^verbatim>\<open>acceptor\<close>): addresses over the bytes of \<^verbatim>\<open>sockaddr_storage\<close>,
    the options of a socket, the accept loop with its idle descriptor.
  \<^item> \<open>EventLoopThread\<close>, \<open>EventLoopThreadPool\<close>, \<open>TCPServer\<close>: starting and stopping a thread's loop in every interleaving, the
    pool's round robin, the server's connection table over all loops.
  \<^item> \<open>TCPConnector\<close>, \<open>Connector\<close>, \<open>TCPClient\<close>: connection attempts with retries, through a locale of the back-off that both connectors
    interpret; the client's connection and its reconnection.
  \<^item> \<open>Datagram\<close>, \<open>UDPWorker\<close>, \<open>UDPServer\<close>: datagram packets and sockets, the queue and its workers, the receiver and the server.
    \<open>UDPFlow\<close>: all of them together, in a server that sends every packet back.

  \<^bold>\<open>What is shown.\<close> Functional behaviour of the operations on every branch; invariants of every component by induction over its
  steps, from which it follows that no run fails an assertion or uses freed memory where that is so; refinement of the
  buffer to a queue of bytes, of \<^verbatim>\<open>any\<close> to plain values, of \<^verbatim>\<open>ThreadLocal\<close> to a variable per thread and of the server's view of a connection to the connection; that the
  loop wakes and returns, that output drains, that a connector never gets stuck. Where the code does not do
  what it means to, a theorem says what it does instead.

  \<^bold>\<open>Bounds and fuel.\<close> Loops over containers are structural. The accept loop and the reads of a signal take the kernel's
  answers as a list and give \<open>None\<close> when the list is used up; their theorems give a list that suffices.
  \<open>Loop_while\<close> takes its rounds (the acts of other threads and the kernel's answers) likewise, and its theorem says that the rounds up to the one in which a thread calls
  \<^verbatim>\<open>Quit\<close> are enough. Sizes of memory are natural numbers: an allocation beyond \<^verbatim>\<open>size_t\<close> is not modelled. Integers that the code lets
  wrap are words.

  \<^bold>\<open>Not modelled.\<close> The log statements inside the other components, which have no effect on their state (theory \<open>Logger\<close> has what such a
  statement does); the texts of error numbers and of times; the aliases of \<^verbatim>\<open>callback.h\<close>; the other headers under \<^verbatim>\<open>thirdpart/base\<close>, which
  declare a library whose code is not in the repository (the clock, \<^verbatim>\<open>AddTime\<close>, the sinks of the logger and the creation of threads are parameters);
  the functions to run before and after a loop, which are stored and never called; tests and scripts.
\<close>

end
